(* ===== verification/Xv6_Prelude.thy ===== *)
theory Xv6_Prelude
  imports Main "HOL-Library.Word" "HOL-Library.Multiset"
begin

text \<open>
  Prelude of the development: machine integer types, the constants of
  \<open>param.h\<close>, the ways in which kernel code stops before its end, the
  state-and-stop monad in which fallible kernel code is written, and the rules
  that evaluate it.

  A kernel action of type \<open>('s, 'a) K\<close> maps a state to the state after it and
  to either a value (\<open>Inr\<close>) or the reason why control did not reach the end of
  the code (\<open>Inl\<close>). The state is returned in both cases: after a panic, or when
  the process gives up the processor inside \<open>sched\<close>, the effects made so far stay.
\<close>

section \<open>Machine integers and array sizes\<close>

type_synonym u8 = "8 word"
type_synonym u16 = "16 word"
type_synonym u32 = "32 word"
type_synonym i32 = "32 word" \<comment> \<open>a C int kept at its width, read with \<^term>\<open>sint\<close>\<close>

definition NPROC :: nat where [simp]: "NPROC = 64"
definition KSTACKSIZE :: nat where [simp]: "KSTACKSIZE = 4096"
definition NCPU :: nat where [simp]: "NCPU = 8"
definition NOFILE :: nat where [simp]: "NOFILE = 16"
definition NFILE :: nat where [simp]: "NFILE = 100"
definition NINODE :: nat where [simp]: "NINODE = 50"
definition NDEV :: nat where [simp]: "NDEV = 10"
definition ROOTDEV :: nat where [simp]: "ROOTDEV = 1"
definition MAXARG :: nat where [simp]: "MAXARG = 32"
definition MAXOPBLOCKS :: nat where [simp]: "MAXOPBLOCKS = 10"
definition LOGSIZE :: nat where [simp]: "LOGSIZE = MAXOPBLOCKS * 3"
definition NBUF :: nat where [simp]: "NBUF = MAXOPBLOCKS * 3"
definition FSSIZE :: nat where [simp]: "FSSIZE = 2000"
definition NMLFQ :: int where [simp]: "NMLFQ = 3"
definition NSTRIDE :: int where [simp]: "NSTRIDE = 100000"
definition NSTRIDE_QUEUE :: nat where [simp]: "NSTRIDE_QUEUE = NPROC + 1"
definition MIN_CPU_SHARE :: int where [simp]: "MIN_CPU_SHARE = 1"
definition MAX_CPU_SHARE :: int where [simp]: "MAX_CPU_SHARE = 800"

text \<open>Division of C ints, which truncates towards zero.\<close>

definition cdiv :: "int \<Rightarrow> int \<Rightarrow> int" where
  "cdiv a b = sgn a * sgn b * (\<bar>a\<bar> div \<bar>b\<bar>)"

lemma cdiv_nonneg [simp]: "0 \<le> a \<Longrightarrow> 0 < b \<Longrightarrow> cdiv a b = a div b"
  by (cases "a = 0") (simp_all add: cdiv_def)

section \<open>Ways to stop\<close>

text \<open>
  \<open>Panic m\<close> is a call of \<open>panic(m)\<close>; \<open>NullPtr\<close> a dereference of a null pointer;
  \<open>OutOfBounds\<close> an array access outside the array; \<open>DivZero\<close> a division by zero
  (a hardware trap in kernel mode); \<open>Spin\<close> an \<open>acquire\<close> that finds the lock held by
  another processor and keeps spinning; \<open>Swtch\<close> the switch from a process to the
  scheduler inside \<open>sched\<close>.
\<close>

datatype stop = Panic string | NullPtr | OutOfBounds | DivZero | Spin | Swtch

section \<open>The state-and-stop monad\<close>

type_synonym ('s, 'a) K = "'s \<Rightarrow> (stop + 'a) \<times> 's"

definition retK :: "'a \<Rightarrow> ('s, 'a) K" where
  "retK x = (\<lambda>s. (Inr x, s))"

definition stopK :: "stop \<Rightarrow> ('s, 'a) K" where
  "stopK e = (\<lambda>s. (Inl e, s))"

definition bindK :: "('s, 'a) K \<Rightarrow> ('a \<Rightarrow> ('s, 'b) K) \<Rightarrow> ('s, 'b) K" where
  "bindK m f = (\<lambda>s. case m s of (Inl e, t) \<Rightarrow> (Inl e, t) | (Inr x, t) \<Rightarrow> f x t)"

definition getK :: "('s \<Rightarrow> 'a) \<Rightarrow> ('s, 'a) K" where
  "getK f = (\<lambda>s. (Inr (f s), s))"

definition modK :: "('s \<Rightarrow> 's) \<Rightarrow> ('s, unit) K" where
  "modK f = (\<lambda>s. (Inr (), f s))"

definition whenK :: "bool \<Rightarrow> ('s, unit) K \<Rightarrow> ('s, unit) K" where
  "whenK c m = (if c then m else retK ())"

definition panicK :: "string \<Rightarrow> ('s, 'a) K" where
  "panicK msg = stopK (Panic msg)"

primrec seqK :: "('s, unit) K list \<Rightarrow> ('s, unit) K" where
  "seqK [] = retK ()"
| "seqK (m # ms) = bindK m (\<lambda>_. seqK ms)"

text \<open>\<open>forK xs f\<close> is the loop that runs \<open>f\<close> on the elements of \<open>xs\<close> in order.\<close>

primrec forK :: "'x list \<Rightarrow> ('x \<Rightarrow> ('s, unit) K) \<Rightarrow> ('s, unit) K" where
  "forK [] f = retK ()"
| "forK (x # xs) f = bindK (f x) (\<lambda>_. forK xs f)"

text \<open>Dereferencing a pointer that is null as \<open>None\<close>.\<close>

definition derefK :: "'x option \<Rightarrow> ('s, 'x) K" where
  "derefK p = (case p of None \<Rightarrow> stopK NullPtr | Some x \<Rightarrow> retK x)"

text \<open>Running an action of a component on its part of a larger state.\<close>

definition liftK :: "('s \<Rightarrow> 't) \<Rightarrow> ('t \<Rightarrow> 's \<Rightarrow> 's) \<Rightarrow> ('t, 'a) K \<Rightarrow> ('s, 'a) K" where
  "liftK get put m = (\<lambda>s. case m (get s) of (r, t) \<Rightarrow> (r, put t s))"

subsection \<open>Evaluation rules\<close>

named_theorems K_simps \<open>rules that run a kernel action on a state\<close>

lemma retK_apply [K_simps, simp]: "retK x s = (Inr x, s)"
  by (simp add: retK_def)

lemma stopK_apply [K_simps, simp]: "stopK e s = (Inl e, s)"
  by (simp add: stopK_def)

lemma panicK_apply [K_simps, simp]: "panicK m s = (Inl (Panic m), s)"
  by (simp add: panicK_def)

lemma getK_apply [K_simps, simp]: "getK f s = (Inr (f s), s)"
  by (simp add: getK_def)

lemma modK_apply [K_simps, simp]: "modK f s = (Inr (), f s)"
  by (simp add: modK_def)

lemma whenK_apply [K_simps, simp]: "whenK c m s = (if c then m s else (Inr (), s))"
  by (simp add: whenK_def)

lemma bindK_Inr [simp]: "m s = (Inr x, t) \<Longrightarrow> bindK m f s = f x t"
  by (simp add: bindK_def)

lemma bindK_Inl [simp]: "m s = (Inl e, t) \<Longrightarrow> bindK m f s = (Inl e, t)"
  by (simp add: bindK_def)

lemma bindK_Pair [K_simps, simp]:
  "bindK (Pair (Inr x)) f s = f x s" "bindK (Pair (Inl e)) f s = (Inl e, s)"
  by (simp_all add: bindK_def)

lemma bindK_apply [K_simps]:
  "bindK m f s = (case m s of (Inl e, t) \<Rightarrow> (Inl e, t) | (Inr x, t) \<Rightarrow> f x t)"
  by (simp add: bindK_def)

text \<open>For recursive loops inside the monad.\<close>

lemma bindK_cong [fundef_cong]:
  "s = s' \<Longrightarrow> m s' = m' s' \<Longrightarrow> (\<And>x t. m' s' = (Inr x, t) \<Longrightarrow> f x t = f' x t) \<Longrightarrow> bindK m f s = bindK m' f' s'"
  by (auto simp: bindK_def split: prod.splits sum.splits)

lemma derefK_Some [K_simps, simp]: "derefK (Some x) s = (Inr x, s)"
  by (simp add: derefK_def)

lemma derefK_None [K_simps, simp]: "derefK None s = (Inl NullPtr, s)"
  by (simp add: derefK_def)

lemma liftK_apply [K_simps, simp]:
  "liftK get put m s = (fst (m (get s)), put (snd (m (get s))) s)"
  by (simp add: liftK_def split: prod.splits)

lemma if_apply [K_simps, simp]: "(if c then f else g) s = (if c then f s else g s)"
  by simp

lemma bindK_eq_Inr_iff:
  "bindK m f s = (Inr y, t) \<longleftrightarrow> (\<exists>x u. m s = (Inr x, u) \<and> f x u = (Inr y, t))"
  by (auto simp: bindK_def split: prod.splits sum.splits)

subsection \<open>Weakest preconditions\<close>

text \<open>
  \<open>wp m Q E s\<close>: running \<open>m\<close> from \<open>s\<close> either returns a value and state in \<open>Q\<close> or stops
  with a reason and state in \<open>E\<close>. The rules push it through the combinators.
\<close>

definition wp :: "('s, 'a) K \<Rightarrow> ('a \<Rightarrow> 's \<Rightarrow> bool) \<Rightarrow> (stop \<Rightarrow> 's \<Rightarrow> bool) \<Rightarrow> 's \<Rightarrow> bool" where
  "wp m Q E s \<longleftrightarrow> (case m s of (Inl e, t) \<Rightarrow> E e t | (Inr x, t) \<Rightarrow> Q x t)"

named_theorems wp_rules \<open>weakest preconditions of the combinators and operations\<close>

lemma wp_ret [wp_rules]: "wp (retK x) Q E s = Q x s"
  by (simp add: wp_def)

lemma wp_stop [wp_rules]: "wp (stopK e) Q E s = E e s"
  by (simp add: wp_def)

lemma wp_panic [wp_rules]: "wp (panicK m) Q E s = E (Panic m) s"
  by (simp add: wp_def)

text \<open>The simplifier turns \<^term>\<open>retK x\<close> and \<^term>\<open>stopK e\<close> into pairing functions; the same rules for them.\<close>

lemma wp_Pair [wp_rules]: "wp (Pair (Inr x)) Q E s = Q x s" "wp (Pair (Inl e)) Q E s = E e s"
  by (simp_all add: wp_def)

lemma wp_get [wp_rules]: "wp (getK f) Q E s = Q (f s) s"
  by (simp add: wp_def)

lemma wp_mod [wp_rules]: "wp (modK f) Q E s = Q () (f s)"
  by (simp add: wp_def)

lemma wp_bind [wp_rules]: "wp (bindK m f) Q E s = wp m (\<lambda>x. wp (f x) Q E) E s"
  by (simp add: wp_def bindK_def split: prod.splits sum.splits)

lemma wp_when [wp_rules]: "wp (whenK c m) Q E s = (if c then wp m Q E s else Q () s)"
  by (simp add: wp_def)

lemma wp_if [wp_rules]: "wp (if c then m else n) Q E s = (if c then wp m Q E s else wp n Q E s)"
  by simp

lemma wp_deref [wp_rules]:
  "wp (derefK p) Q E s = (case p of None \<Rightarrow> E NullPtr s | Some x \<Rightarrow> Q x s)"
  by (cases p) (simp_all add: wp_def)

lemma wp_mono:
  "wp m Q E s \<Longrightarrow> (\<And>x t. Q x t \<Longrightarrow> Q' x t) \<Longrightarrow> (\<And>e t. E e t \<Longrightarrow> E' e t) \<Longrightarrow> wp m Q' E' s"
  by (auto simp: wp_def split: prod.splits sum.splits)

text \<open>The loop rule: an invariant indexed by the elements still to come.\<close>

lemma wp_for:
  assumes "I xs s"
    and "\<And>x ys t. I (x # ys) t \<Longrightarrow> wp (f x) (\<lambda>_. I ys) E t"
    and "\<And>t. I [] t \<Longrightarrow> Q () t"
  shows "wp (forK xs f) Q E s"
  using assms(1)
proof (induction xs arbitrary: s)
  case Nil
  then show ?case by (simp add: wp_rules assms(3))
next
  case (Cons x xs)
  have "wp (f x) (\<lambda>_. I xs) E s" using Cons.prems by (rule assms(2))
  then have "wp (f x) (\<lambda>_. wp (forK xs f) Q E) E s"
    by (rule wp_mono) (auto intro: Cons.IH)
  then show ?case by (simp add: wp_rules)
qed

lemma forK_append:
  "forK (xs @ ys) f s = bindK (forK xs f) (\<lambda>_. forK ys f) s"
  by (induction xs arbitrary: s) (simp_all add: bindK_def split: prod.splits sum.splits)

lemma forK_skip: "\<forall>x\<in>set xs. f x s = (Inr (), s) \<Longrightarrow> forK xs f s = (Inr (), s)"
  by (induction xs) simp_all

section \<open>Generic lemmas\<close>

lemma find_upt_None: "List.find P [0..<n] = None \<longleftrightarrow> (\<forall>i<n. \<not> P i)"
  by (auto simp: find_None_iff)

lemma find_Some_props:
  "List.find P xs = Some x \<Longrightarrow> P x \<and> x \<in> set xs"
  by (auto simp: find_Some_iff)

lemma find_upt_Some:
  assumes "List.find P [m..<n] = Some i"
  shows "m \<le> i \<and> i < n \<and> P i \<and> (\<forall>j. m \<le> j \<longrightarrow> j < i \<longrightarrow> \<not> P j)"
proof -
  from assms obtain k where k: "k < n - m" "P ([m..<n] ! k)" "i = [m..<n] ! k"
      "\<forall>j<k. \<not> P ([m..<n] ! j)"
    by (auto simp: find_Some_iff)
  have "\<not> P j" if "m \<le> j" "j < i" for j
    using k that by (metis add_diff_inverse_nat less_diff_conv less_imp_le_nat less_trans
        linorder_not_less nat_add_left_cancel_less nth_upt add.commute)
  with k show ?thesis by auto
qed

lemma find_upt_first:
  assumes "m \<le> j" "j < n" "P j" "\<forall>k. m \<le> k \<longrightarrow> k < j \<longrightarrow> \<not> P k"
  shows "List.find P [m..<n] = Some j"
proof (cases "List.find P [m..<n]")
  case None
  then show ?thesis using assms by (auto simp: find_None_iff)
next
  case (Some i)
  from find_upt_Some [OF Some] have i: "m \<le> i" "P i" "\<forall>k. m \<le> k \<longrightarrow> k < i \<longrightarrow> \<not> P k" by auto
  have "i = j" using i assms by (metis linorder_neqE_nat)
  then show ?thesis using Some by simp
qed

end
