(* ===== verification/Memory.thy ===== *)
theory Memory
  imports Xv6_Prelude
begin

text \<open>
  Byte-addressed memory and the memory and string routines of \<open>string.c\<close> (kernel) and
  \<open>ulib.c\<close> (user). A pointer is a 32-bit word, pointer arithmetic wraps, and \<open>char\<close> is compared
  as \<open>uchar\<close> where the code casts. A loop counter that the code decrements is a natural number.
\<close>

section \<open>Memory\<close>

type_synonym mem = "u32 \<Rightarrow> u8"

unbundle bit_operations_syntax

text \<open>Little-endian words in memory.\<close>

definition load32 :: "mem \<Rightarrow> u32 \<Rightarrow> u32" where
  "load32 m a = ucast (m a) OR push_bit 8 (ucast (m (a + 1)))
     OR push_bit 16 (ucast (m (a + 2))) OR push_bit 24 (ucast (m (a + 3)))"

definition store32 :: "u32 \<Rightarrow> u32 \<Rightarrow> mem \<Rightarrow> mem" where
  "store32 a w m = m(a := ucast w, a + 1 := ucast (drop_bit 8 w),
     a + 2 := ucast (drop_bit 16 w), a + 3 := ucast (drop_bit 24 w))"

lemma add_word_neq [simp]:
  fixes a :: "32 word"
  shows "a + 1 \<noteq> a" "a + 2 \<noteq> a" "a + 3 \<noteq> a" "a + 2 \<noteq> a + 1" "a + 3 \<noteq> a + 1" "a + 3 \<noteq> a + 2"
    "a \<noteq> a + 1" "a \<noteq> a + 2" "a \<noteq> a + 3" "a + 1 \<noteq> a + 2" "a + 1 \<noteq> a + 3" "a + 2 \<noteq> a + 3"
  by simp_all

lemma load32_store32 [simp]: "load32 (store32 a w m) a = w"
proof (rule bit_word_eqI)
  fix n assume n: "n < LENGTH(32)"
  consider "n < 8" | "8 \<le> n" "n < 16" | "16 \<le> n" "n < 24" | "24 \<le> n" by linarith
  then show "bit (load32 (store32 a w m) a) n \<longleftrightarrow> bit w n"
    using n by cases (auto simp: load32_def store32_def bit_simps)
qed

lemma load32_cong:
  "m a = m' a \<Longrightarrow> m (a + 1) = m' (a + 1) \<Longrightarrow> m (a + 2) = m' (a + 2) \<Longrightarrow> m (a + 3) = m' (a + 3)
    \<Longrightarrow> load32 m a = load32 m' a"
  by (simp add: load32_def)

section \<open>memset\<close>

fun stosb :: "u32 \<Rightarrow> u8 \<Rightarrow> nat \<Rightarrow> mem \<Rightarrow> mem" where
  "stosb addr c 0 m = m"
| "stosb addr c (Suc cnt) m = stosb (addr + 1) c cnt (m(addr := c))"

fun stosl :: "u32 \<Rightarrow> u32 \<Rightarrow> nat \<Rightarrow> mem \<Rightarrow> mem" where
  "stosl addr c 0 m = m"
| "stosl addr c (Suc cnt) m = stosl (addr + 4) c cnt (store32 addr c m)"

definition memset :: "u32 \<Rightarrow> i32 \<Rightarrow> u32 \<Rightarrow> mem \<Rightarrow> mem" where
  "memset dst c n m =
     (if dst mod 4 = 0 \<and> n mod 4 = 0 then
        let c = c AND 0xFF
        in stosl dst (push_bit 24 c OR push_bit 16 c OR push_bit 8 c OR c) (unat (n div 4)) m
      else stosb dst (ucast c) (unat n) m)"

text \<open>The routine of \<open>ulib.c\<close> always stores bytes.\<close>

definition ulib_memset :: "u32 \<Rightarrow> i32 \<Rightarrow> u32 \<Rightarrow> mem \<Rightarrow> mem" where
  "ulib_memset dst c n m = stosb dst (ucast c) (unat n) m"

lemma unat_shift:
  fixes a d :: "32 word"
  shows "unat (a - d) = 0 \<longleftrightarrow> a = d" "a \<noteq> d \<Longrightarrow> unat (a - (d + 1)) + 1 = unat (a - d)"
proof -
  show "unat (a - d) = 0 \<longleftrightarrow> a = d" by (simp add: unat_eq_0)
next
  assume "a \<noteq> d"
  then have "a - d \<noteq> 0" by simp
  then have "unat (a - d - 1) = unat (a - d) - 1" "unat (a - d) \<noteq> 0"
    by (simp_all add: unat_minus_one unat_eq_0)
  moreover have "unat (a - (d + 1)) = unat (a - d - 1)" by (simp only: diff_diff_add)
  ultimately show "unat (a - (d + 1)) + 1 = unat (a - d)" by linarith
qed

lemma stosb_eq:
  "n \<le> 2 ^ 32 \<Longrightarrow> stosb d c n m = (\<lambda>a. if unat (a - d) < n then c else m a)"
proof (induction n arbitrary: d m)
  case (Suc n)
  then have IH: "stosb (d + 1) c n (m(d := c)) = (\<lambda>a. if unat (a - (d + 1)) < n then c else (m(d := c)) a)" by simp
  show ?case
  proof (rule ext)
    fix a
    show "stosb d c (Suc n) m a = (if unat (a - d) < Suc n then c else m a)"
      using unat_shift [of a d] by (cases "a = d") (auto simp: IH)
  qed
qed simp

text \<open>A word with four equal bytes stores that byte four times.\<close>

definition splat :: "32 word \<Rightarrow> 32 word" where
  "splat c = push_bit 24 (c AND 0xFF) OR push_bit 16 (c AND 0xFF) OR push_bit 8 (c AND 0xFF) OR (c AND 0xFF)"

lemma splat_byte:
  assumes "k = 0 \<or> k = 8 \<or> k = 16 \<or> k = 24"
  shows "ucast (drop_bit k (splat c)) = (ucast c :: 8 word)"
proof (rule bit_word_eqI)
  fix n assume "n < LENGTH(8)"
  then have n: "n < 8" by simp
  have ff: "(0xFF :: 32 word) = mask 8" by (simp add: mask_eq_exp_minus_1)
  show "bit (ucast (drop_bit k (splat c)) :: 8 word) n = bit (ucast c :: 8 word) n"
    unfolding splat_def ff using assms n by (elim disjE) (simp_all add: bit_simps)
qed

lemma store32_splat: "store32 d (splat c) m = stosb d (ucast c) 4 m"
proof -
  have s: "stosb d x 4 m = m(d := x, d + 1 := x, d + 2 := x, d + 3 := x)" for x
    by (simp add: eval_nat_numeral add.assoc)
  show ?thesis unfolding s store32_def
    using splat_byte [of 0 c] splat_byte [of 8 c] splat_byte [of 16 c] splat_byte [of 24 c] by simp
qed

lemma stosb_add: "stosb d c (k + n) m = stosb (d + of_nat k) c n (stosb d c k m)"
proof (induction k arbitrary: d m)
  case (Suc k)
  have "d + 1 + of_nat k = d + of_nat (Suc k)" by (simp add: add.assoc)
  then show ?case using Suc [of "d + 1" "m(d := c)"] by (simp only: stosb.simps add_Suc)
qed simp

lemma stosl_splat: "stosl d (splat c) n m = stosb d (ucast c) (4 * n) m"
proof (induction n arbitrary: d m)
  case (Suc n)
  have "stosb d (ucast c) (4 * Suc n) m = stosb (d + 4) (ucast c) (4 * n) (stosb d (ucast c) 4 m)"
    using stosb_add [of d "ucast c" 4 "4 * n" m] by simp
  then show ?case using Suc by (simp add: store32_splat)
qed simp

text \<open>Storing words when pointer and length are aligned makes no difference.\<close>

lemma memset_eq_stosb: "memset dst c n m = stosb dst (ucast c) (unat n) m"
proof (cases "dst mod 4 = 0 \<and> n mod 4 = 0")
  case True
  then have "unat n mod 4 = 0" using unat_mod [of n 4] by simp
  moreover have "unat (n div 4) = unat n div 4" by (simp add: unat_div)
  ultimately have "4 * unat (n div 4) = unat n" by presburger
  then show ?thesis using True stosl_splat [of dst c "unat (n div 4)" m]
    by (simp add: memset_def splat_def Let_def)
next
  case False
  then show ?thesis by (simp only: memset_def if_False)
qed

lemma unat_le_max: "unat (n :: 32 word) \<le> 2 ^ 32"
  using unsigned_less [of n, where ?'a = nat] by simp

lemma memset_apply:
  "memset dst c n m = (\<lambda>a. if unat (a - dst) < unat n then ucast c else m a)"
  by (simp only: memset_eq_stosb stosb_eq [OF unat_le_max])

section \<open>memmove\<close>

fun copy_fwd :: "u32 \<Rightarrow> u32 \<Rightarrow> nat \<Rightarrow> mem \<Rightarrow> mem" where
  "copy_fwd d s 0 m = m"
| "copy_fwd d s (Suc n) m = copy_fwd (d + 1) (s + 1) n (m(d := m s))"

fun copy_bwd :: "u32 \<Rightarrow> u32 \<Rightarrow> nat \<Rightarrow> mem \<Rightarrow> mem" where
  "copy_bwd d s 0 m = m"
| "copy_bwd d s (Suc n) m = copy_bwd (d - 1) (s - 1) n (m(d - 1 := m (s - 1)))"

definition memmove :: "u32 \<Rightarrow> u32 \<Rightarrow> u32 \<Rightarrow> mem \<Rightarrow> mem" where
  "memmove dst src n m =
     (if src < dst \<and> src + n > dst then copy_bwd (dst + n) (src + n) (unat n) m
      else copy_fwd dst src (unat n) m)"

definition memcpy :: "u32 \<Rightarrow> u32 \<Rightarrow> u32 \<Rightarrow> mem \<Rightarrow> mem" where
  "memcpy dst src n m = memmove dst src n m"

text \<open>The routine of \<open>ulib.c\<close> copies upwards only.\<close>

definition ulib_memmove :: "u32 \<Rightarrow> u32 \<Rightarrow> int \<Rightarrow> mem \<Rightarrow> mem" where
  "ulib_memmove vdst vsrc n m = copy_fwd vdst vsrc (nat n) m"

lemma copy_fwd_eq:
  assumes "n \<le> 2 ^ 32" "\<forall>i<n. \<forall>j<i. s + of_nat i \<noteq> d + of_nat j"
  shows "copy_fwd d s n m = (\<lambda>a. if unat (a - d) < n then m (s + (a - d)) else m a)"
  using assms
proof (induction n arbitrary: d s m)
  case (Suc n)
  let ?m = "m(d := m s)"
  have IH: "copy_fwd (d + 1) (s + 1) n ?m = (\<lambda>a. if unat (a - (d + 1)) < n then ?m (s + 1 + (a - (d + 1))) else ?m a)"
  proof (rule Suc.IH)
    show "\<forall>i<n. \<forall>j<i. s + 1 + of_nat i \<noteq> d + 1 + of_nat j"
    proof (intro allI impI)
      fix i j assume "i < n" "j < i"
      then have "s + of_nat (Suc i) \<noteq> d + of_nat (Suc j)" using Suc.prems(2) by blast
      then show "s + 1 + of_nat i \<noteq> d + 1 + of_nat j" by (simp add: add.assoc)
    qed
  qed (use Suc.prems in simp)
  show ?case
  proof (rule ext)
    fix a
    have e: "s + 1 + (a - (d + 1)) = s + (a - d)" by simp
    have "s + (a - d) \<noteq> d" if "a \<noteq> d" "unat (a - d) < Suc n"
    proof -
      have "s + of_nat (unat (a - d)) \<noteq> d + of_nat 0"
        using Suc.prems(2) that unat_shift(1) [of a d] by blast
      then show ?thesis by simp
    qed
    then show "copy_fwd d s (Suc n) m a = (if unat (a - d) < Suc n then m (s + (a - d)) else m a)"
      using unat_shift [of a d] by (cases "a = d") (auto simp: IH e)
  qed
qed simp

lemma copy_bwd_eq:
  assumes "n \<le> 2 ^ 32" "\<forall>i<n. \<forall>j<i. d + of_nat i \<noteq> s + of_nat j"
  shows "copy_bwd (d + of_nat n) (s + of_nat n) n m = (\<lambda>a. if unat (a - d) < n then m (s + (a - d)) else m a)"
  using assms
proof (induction n arbitrary: m)
  case (Suc n)
  let ?m = "m(d + of_nat n := m (s + of_nat n))"
  have IH: "copy_bwd (d + of_nat n) (s + of_nat n) n ?m = (\<lambda>a. if unat (a - d) < n then ?m (s + (a - d)) else ?m a)"
    by (rule Suc.IH) (use Suc.prems in auto)
  have "copy_bwd (d + of_nat (Suc n)) (s + of_nat (Suc n)) (Suc n) m = copy_bwd (d + of_nat n) (s + of_nat n) n ?m"
    by (simp add: add.commute add.left_commute)
  also have "\<dots> = (\<lambda>a. if unat (a - d) < Suc n then m (s + (a - d)) else m a)"
  proof (rule ext)
    fix a
    have n: "unat (of_nat n :: 32 word) = n" using Suc.prems(1) by (simp add: unat_of_nat)
    have eq: "a = d + of_nat n \<longleftrightarrow> unat (a - d) = n"
    proof
      show "a = d + of_nat n \<Longrightarrow> unat (a - d) = n" using n by simp
      assume "unat (a - d) = n"
      then have "of_nat n = a - d" by auto
      then show "a = d + of_nat n" by simp
    qed
    have "s + (a - d) \<noteq> d + of_nat n" if "unat (a - d) < n"
    proof -
      have "d + of_nat n \<noteq> s + of_nat (unat (a - d))" using Suc.prems(2) that by blast
      then show ?thesis by simp
    qed
    then show "copy_bwd (d + of_nat n) (s + of_nat n) n ?m a = (if unat (a - d) < Suc n then m (s + (a - d)) else m a)"
      using eq by (auto simp: IH less_Suc_eq)
  qed
  finally show ?case .
qed simp

lemma no_overlap_order:
  fixes s d :: "32 word"
  assumes "unat s + n < 2 ^ 32" "unat d + n \<le> 2 ^ 32" "i < n" "j < i"
  shows "d \<le> s \<or> unat s + n \<le> unat d \<Longrightarrow> s + of_nat i \<noteq> d + of_nat j"
    and "s < d \<Longrightarrow> d + of_nat i \<noteq> s + of_nat j"
proof -
  have u: "unat (s + of_nat k) = unat s + k" "unat (d + of_nat k) = unat d + k" if "k < n" for k
    using assms(1,2) that by (simp_all add: unat_word_ariths unat_of_nat)
  show "d \<le> s \<or> unat s + n \<le> unat d \<Longrightarrow> s + of_nat i \<noteq> d + of_nat j"
    using u [of i] u [of j] assms(3,4) by (auto simp: word_le_nat_alt dest: arg_cong [where f = unat])
  show "s < d \<Longrightarrow> d + of_nat i \<noteq> s + of_nat j"
    using u [of i] u [of j] assms(3,4) by (auto simp: word_less_nat_alt dest: arg_cong [where f = unat])
qed

text \<open>
  C32. \<^const>\<open>memmove\<close> copies correctly whether or not the two ranges overlap: as long as neither
  range wraps around the end of the address space, every byte of the destination becomes the
  byte the source had before the call, and nothing else changes.
\<close>

theorem memmove_correct:
  assumes s: "unat src + unat n < 2 ^ 32" and d: "unat dst + unat n \<le> 2 ^ 32"
  shows "memmove dst src n m = (\<lambda>a. if unat (a - dst) < unat n then m (src + (a - dst)) else m a)"
proof (cases "src < dst \<and> src + n > dst")
  case True
  have "\<forall>i<unat n. \<forall>j<i. dst + of_nat i \<noteq> src + of_nat j"
    using no_overlap_order(2) [OF s d] True by blast
  from copy_bwd_eq [OF unat_le_max this, of m] show ?thesis using True by (simp add: memmove_def)
next
  case False
  have "unat (src + n) = unat src + unat n" using s by (simp add: unat_word_ariths)
  then have "dst \<le> src \<or> unat src + unat n \<le> unat dst"
    using False by (auto simp: word_less_nat_alt word_le_nat_alt)
  then have "\<forall>i<unat n. \<forall>j<i. src + of_nat i \<noteq> dst + of_nat j"
    using no_overlap_order(1) [OF s d] by blast
  from copy_fwd_eq [OF unat_le_max this, of m] show ?thesis using False by (simp only: memmove_def if_False)
qed

theorem memmove_correct_witness:
  "memmove 12 10 4 (\<lambda>a. ucast a) 15 = 13"
  by (subst memmove_correct) simp_all

text \<open>
  C33. The fast path of the kernel's \<^const>\<open>memset\<close>, which stores whole words when pointer and
  length are multiples of four, does the same as storing single bytes, also for a fill value
  with high bits set: it agrees with the user library's routine on every argument.
\<close>

theorem memset_equivalence:
  "memset dst c n m = ulib_memset dst c n m
   \<and> memset dst c n m = (\<lambda>a. if unat (a - dst) < unat n then ucast c else m a)"
  by (simp only: memset_eq_stosb ulib_memset_def stosb_eq [OF unat_le_max] simp_thms)

text \<open>
  C38. The user library's \<^const>\<open>ulib_memmove\<close> is not a \<open>memmove\<close>: moving a block up by one byte
  fills the destination with the first byte of the source.
\<close>

theorem ulib_memmove_overlap:
  assumes "0 \<le> n" "n < 2 ^ 32"
  shows "ulib_memmove (s + 1) s n m = (\<lambda>a. if unat (a - (s + 1)) < nat n then m s else m a)"
proof -
  have "copy_fwd (s + 1) s k m = (\<lambda>a. if unat (a - (s + 1)) < k then m s else m a)" if "k < 2 ^ 32" for k
    using that
  proof (induction k arbitrary: s m)
    case (Suc k)
    let ?m = "m(s + 1 := m s)"
    have IH: "copy_fwd (s + 1 + 1) (s + 1) k ?m = (\<lambda>a. if unat (a - (s + 1 + 1)) < k then ?m (s + 1) else ?m a)"
      by (rule Suc.IH) (use Suc.prems in simp)
    show ?case
    proof (rule ext)
      fix a
      have "copy_fwd (s + 1) s (Suc k) m a = (if unat (a - (s + 1 + 1)) < k then ?m (s + 1) else ?m a)"
        by (simp only: copy_fwd.simps IH)
      then show "copy_fwd (s + 1) s (Suc k) m a = (if unat (a - (s + 1)) < Suc k then m s else m a)"
        using unat_shift [of a "s + 1"] by (cases "a = s + 1") auto
    qed
  qed simp
  then show ?thesis using assms by (simp add: ulib_memmove_def nat_less_iff)
qed

theorem ulib_memmove_overlap_witness:
  "ulib_memmove (100 + 1) 100 4 (\<lambda>a. ucast a) 104 = 100"
  by (subst ulib_memmove_overlap) simp_all

section \<open>Strings\<close>

text \<open>The bytes of a null-terminated string at an address.\<close>

definition cstr :: "mem \<Rightarrow> u32 \<Rightarrow> u8 list \<Rightarrow> bool" where
  "cstr m s xs \<longleftrightarrow> (\<forall>i<length xs. m (s + of_nat i) = xs ! i) \<and> 0 \<notin> set xs \<and> m (s + of_nat (length xs)) = 0"

fun memcmp :: "mem \<Rightarrow> u32 \<Rightarrow> u32 \<Rightarrow> nat \<Rightarrow> int" where
  "memcmp m s1 s2 0 = 0"
| "memcmp m s1 s2 (Suc n) =
     (if m s1 \<noteq> m s2 then uint (m s1) - uint (m s2) else memcmp m (s1 + 1) (s2 + 1) n)"

fun strncmp :: "mem \<Rightarrow> u32 \<Rightarrow> u32 \<Rightarrow> nat \<Rightarrow> int" where
  "strncmp m p q 0 = 0"
| "strncmp m p q (Suc n) =
     (if m p \<noteq> 0 \<and> m p = m q then strncmp m (p + 1) (q + 1) n else uint (m p) - uint (m q))"

fun strncpy_loop :: "u32 \<Rightarrow> u32 \<Rightarrow> nat \<Rightarrow> mem \<Rightarrow> mem" where
  "strncpy_loop s t 0 m = m"
| "strncpy_loop s t (Suc n) m =
     (if m t \<noteq> 0 then strncpy_loop (s + 1) (t + 1) n (m(s := m t))
      else stosb (s + 1) 0 n (m(s := m t)))"

definition strncpy :: "u32 \<Rightarrow> u32 \<Rightarrow> int \<Rightarrow> mem \<Rightarrow> mem" where
  "strncpy s t n m = strncpy_loop s t (nat n) m"

text \<open>In \<open>safestrcpy\<close> the pointer has moved past the terminator when the last store is made.\<close>

fun safestrcpy_loop :: "u32 \<Rightarrow> u32 \<Rightarrow> nat \<Rightarrow> mem \<Rightarrow> mem" where
  "safestrcpy_loop s t 0 m = m(s := 0)"
| "safestrcpy_loop s t (Suc n) m =
     (if m t \<noteq> 0 then safestrcpy_loop (s + 1) (t + 1) n (m(s := m t))
      else (m(s := m t))(s + 1 := 0))"

definition safestrcpy :: "u32 \<Rightarrow> u32 \<Rightarrow> int \<Rightarrow> mem \<Rightarrow> mem" where
  "safestrcpy s t n m = (if n \<le> 0 then m else safestrcpy_loop s t (nat (n - 1)) m)"

text \<open>These loops run until they meet a terminator; running forever is \<^const>\<open>None\<close>.\<close>

partial_function (option) strlen_from :: "mem \<Rightarrow> u32 \<Rightarrow> nat \<Rightarrow> nat option" where
  "strlen_from m s n = (if m (s + of_nat n) \<noteq> 0 then strlen_from m s (n + 1) else Some n)"

definition strlen :: "mem \<Rightarrow> u32 \<Rightarrow> nat option" where
  "strlen m s = strlen_from m s 0"

partial_function (option) strcmp :: "mem \<Rightarrow> u32 \<Rightarrow> u32 \<Rightarrow> int option" where
  "strcmp m p q = (if m p \<noteq> 0 \<and> m p = m q then strcmp m (p + 1) (q + 1)
                   else Some (uint (m p) - uint (m q)))"

partial_function (option) strcpy :: "u32 \<Rightarrow> u32 \<Rightarrow> mem \<Rightarrow> mem option" where
  "strcpy s t m = (if m t \<noteq> 0 then strcpy (s + 1) (t + 1) (m(s := m t)) else Some (m(s := m t)))"

partial_function (option) strchr :: "mem \<Rightarrow> u32 \<Rightarrow> u8 \<Rightarrow> u32 option" where
  "strchr m s c = (if m s = 0 then Some 0 else if m s = c then Some s else strchr m (s + 1) c)"

text \<open>\<open>atoi\<close> accumulates in a 32-bit int and wraps.\<close>

partial_function (option) atoi_from :: "mem \<Rightarrow> u32 \<Rightarrow> i32 \<Rightarrow> i32 option" where
  "atoi_from m s n = (if 48 \<le> m s \<and> m s \<le> 57 then atoi_from m (s + 1) (n * 10 + ucast (m s) - 48) else Some n)"

definition atoi :: "mem \<Rightarrow> u32 \<Rightarrow> i32 option" where
  "atoi m s = atoi_from m s 0"

lemma cstr_Nil [simp]: "cstr m s [] \<longleftrightarrow> m s = 0"
  by (simp add: cstr_def)

lemma cstr_Cons: "cstr m s (x # xs) \<longleftrightarrow> m s = x \<and> x \<noteq> 0 \<and> cstr m (s + 1) xs"
proof -
  have "(\<forall>i<length (x # xs). m (s + of_nat i) = (x # xs) ! i) \<longleftrightarrow> m s = x \<and> (\<forall>i<length xs. m (s + 1 + of_nat i) = xs ! i)"
    by (auto simp: less_Suc_eq_0_disj add.assoc)
  then show ?thesis by (auto simp: cstr_def add.assoc)
qed

lemma strlen_from_cstr:
  assumes "cstr m (s + of_nat n) xs"
  shows "strlen_from m s n = Some (n + length xs)"
  using assms
proof (induction xs arbitrary: n)
  case Nil
  then show ?case by (subst strlen_from.simps) simp
next
  case (Cons x xs)
  have "s + of_nat (n + 1) = s + of_nat n + 1" by simp
  then have "strlen_from m s (n + 1) = Some (n + 1 + length xs)"
    by (intro Cons.IH) (use Cons.prems in \<open>simp only: cstr_Cons\<close>)
  then show ?case using Cons.prems by (subst strlen_from.simps) (simp add: cstr_Cons)
qed

lemma strncmp_cstr:
  assumes "cstr m p xs" "cstr m q ys"
  shows "strncmp m p q n = 0 \<longleftrightarrow> take n xs = take n ys"
  using assms
proof (induction n arbitrary: p q xs ys)
  case (Suc n)
  show ?case
  proof (cases xs)
    case Nil
    then show ?thesis using Suc.prems by (cases ys) (auto simp: cstr_Cons uint_0_iff)
  next
    case x: (Cons x xs')
    show ?thesis
    proof (cases ys)
      case Nil
      then show ?thesis using Suc.prems x by (auto simp: cstr_Cons uint_0_iff)
    next
      case (Cons y ys')
      have "x \<noteq> 0" "y \<noteq> 0" "m p = x" "m q = y" "cstr m (p + 1) xs'" "cstr m (q + 1) ys'"
        using Suc.prems x Cons by (simp_all add: cstr_Cons)
      then show ?thesis using Suc.IH [of "p + 1" xs' "q + 1" ys'] x Cons by (auto simp: word_uint_eq_iff)
    qed
  qed
qed simp

lemma strcmp_cstr:
  assumes "cstr m p xs" "cstr m q ys"
  shows "\<exists>r. strcmp m p q = Some r \<and> (r = 0 \<longleftrightarrow> xs = ys)"
  using assms
proof (induction xs arbitrary: p q ys)
  case Nil
  then show ?case by (cases ys) (subst strcmp.simps, auto simp: cstr_Cons uint_0_iff)+
next
  case (Cons x xs)
  show ?case
  proof (cases ys)
    case Nil
    then show ?thesis using Cons.prems by (subst strcmp.simps) (auto simp: cstr_Cons uint_0_iff)
  next
    case y: (Cons y ys')
    have c: "x \<noteq> 0" "y \<noteq> 0" "m p = x" "m q = y" "cstr m (p + 1) xs" "cstr m (q + 1) ys'"
      using Cons.prems y by (simp_all add: cstr_Cons)
    show ?thesis
    proof (cases "x = y")
      case True
      then show ?thesis using Cons.IH [OF c(5,6)] c y by (subst strcmp.simps) simp
    next
      case False
      then show ?thesis using c y by (subst strcmp.simps) (simp add: word_uint_eq_iff)
    qed
  qed
qed

lemma cstr_frame:
  assumes "cstr m t xs" "\<forall>j\<le>length xs. a \<noteq> t + of_nat j"
  shows "cstr (m(a := v)) t xs"
  using assms unfolding cstr_def by (metis fun_upd_other less_imp_le_nat order_refl)

lemma safestrcpy_loop_ok:
  assumes "cstr m t xs" "k < 2 ^ 32 - 1"
    and "\<forall>i\<le>k. \<forall>j\<le>length xs. s + of_nat i \<noteq> t + of_nat j"
  shows "cstr (safestrcpy_loop s t k m) s (take k xs) \<and> (\<forall>a. k < unat (a - s) \<longrightarrow> safestrcpy_loop s t k m a = m a)"
  using assms
proof (induction k arbitrary: s t m xs)
  case 0
  then show ?case by (auto simp: unat_gt_0)
next
  case (Suc k)
  show ?case
  proof (cases xs)
    case Nil
    have "unat (s + 1 - s) = 1" by simp
    then show ?thesis using Suc.prems Nil by auto
  next
    case (Cons x xs')
    have c: "m t = x" "x \<noteq> 0" "cstr m (t + 1) xs'" using Suc.prems(1) Cons by (simp_all add: cstr_Cons)
    have sep: "s + of_nat i \<noteq> t + of_nat j" if "i \<le> Suc k" "j \<le> Suc (length xs')" for i j
      using Suc.prems(3) Cons that by simp
    let ?m = "m(s := m t)"
    have "cstr ?m (t + 1) xs'"
    proof (rule cstr_frame [OF c(3)], intro allI impI)
      fix j assume "j \<le> length xs'"
      then show "s \<noteq> t + 1 + of_nat j" using sep [of 0 "Suc j"] by (simp add: add.assoc)
    qed
    then have IH: "cstr (safestrcpy_loop (s + 1) (t + 1) k ?m) (s + 1) (take k xs')
       \<and> (\<forall>a. k < unat (a - (s + 1)) \<longrightarrow> safestrcpy_loop (s + 1) (t + 1) k ?m a = ?m a)"
    proof (rule Suc.IH)
      show "\<forall>i\<le>k. \<forall>j\<le>length xs'. s + 1 + of_nat i \<noteq> t + 1 + of_nat j"
        using sep [of "Suc _" "Suc _"] by (simp add: add.assoc)
    qed (use Suc.prems(2) in simp)
    let ?r = "safestrcpy_loop (s + 1) (t + 1) k ?m"
    have run: "safestrcpy_loop s t (Suc k) m = ?r" using c by (simp only: safestrcpy_loop.simps) simp
    have "unat (s - (s + 1)) = 2 ^ 32 - 1" by (simp add: unsigned_minus_1_eq_mask mask_eq_exp_minus_1)
    then have "?r s = x" using IH Suc.prems(2) c by simp
    moreover have "?r a = m a" if "Suc k < unat (a - s)" for a
    proof -
      have "a \<noteq> s" using that by auto
      moreover have "k < unat (a - (s + 1))" using unat_shift(2) [OF \<open>a \<noteq> s\<close>] that by simp
      ultimately show ?thesis using IH by simp
    qed
    ultimately show ?thesis using IH c Cons unfolding run by (simp add: cstr_Cons)
  qed
qed

text \<open>
  C34. The string routines on null-terminated strings: \<^const>\<open>strlen\<close> returns the length,
  \<^const>\<open>strcmp\<close> returns and is zero exactly on equal strings, \<^const>\<open>strncmp\<close> is zero exactly
  when the first \<open>n\<close> characters agree.
\<close>

theorem string_compare_correct:
  assumes "cstr m p xs" "cstr m q ys"
  shows "strlen m p = Some (length xs)
    \<and> (\<exists>r. strcmp m p q = Some r \<and> (r = 0 \<longleftrightarrow> xs = ys))
    \<and> (strncmp m p q n = 0 \<longleftrightarrow> take n xs = take n ys)"
  using strlen_from_cstr [of m p 0 xs] strcmp_cstr [OF assms] strncmp_cstr [OF assms] assms
  by (simp add: strlen_def)

theorem string_compare_correct_witness:
  "strlen (\<lambda>a. if a = 10 \<or> a = 20 then 65 else if a = 21 then 66 else 0) 20 = Some 2"
proof -
  let ?m = "\<lambda>a. if a = 10 \<or> a = 20 then 65 else if a = 21 then 66 else (0 :: 8 word)"
  have "cstr ?m 20 [65, 66]" by (simp add: cstr_Cons)
  from string_compare_correct [OF this this, of 1] show ?thesis by simp
qed

text \<open>
  C35. \<^const>\<open>safestrcpy\<close> into a buffer of \<open>n\<close> bytes that does not overlap the source leaves a
  terminated string with the first \<open>n - 1\<close> characters of the source and writes nothing
  outside the buffer.
\<close>

theorem safestrcpy_correct:
  assumes "cstr m t xs" "0 < n" "n < 2 ^ 31"
    and "\<forall>i<nat n. \<forall>j\<le>length xs. s + of_nat i \<noteq> t + of_nat j"
  shows "cstr (safestrcpy s t n m) s (take (nat (n - 1)) xs)
    \<and> (\<forall>a. nat n \<le> unat (a - s) \<longrightarrow> safestrcpy s t n m a = m a)"
proof -
  have k: "nat (n - 1) < 2 ^ 32 - 1" using assms(2,3) by simp
  have "\<forall>i\<le>nat (n - 1). \<forall>j\<le>length xs. s + of_nat i \<noteq> t + of_nat j" using assms(2,4) by simp
  from safestrcpy_loop_ok [OF assms(1) k this] show ?thesis using assms(2) by (auto simp: safestrcpy_def)
qed

theorem safestrcpy_correct_witness:
  "cstr (safestrcpy 100 20 2 (\<lambda>a. if a = 20 then 65 else if a = 21 then 66 else 0)) 100 [65]"
proof -
  let ?m = "\<lambda>a. if a = 20 then 65 else if a = 21 then 66 else (0 :: 8 word)"
  have "cstr ?m 20 [65, 66]" by (simp add: cstr_Cons)
  moreover have "\<forall>i<nat 2. \<forall>j\<le>length [65, 66 :: 8 word]. (100 :: 32 word) + of_nat i \<noteq> 20 + of_nat j"
    by (auto simp: less_2_cases_iff le_Suc_eq)
  ultimately show ?thesis using safestrcpy_correct [of ?m 20 "[65, 66]" 2 100] by simp
qed

end
