(* ===== verification/Kalloc.thy ===== *)
theory Kalloc
  imports Memory
begin

text \<open>
  The physical page allocator of \<open>kalloc.c\<close>. The free list is the code's linked list: the first
  word of a free page is the address of the next one. The lock around the list is left out:
  each call is atomic. \<open>kend\<close> is the linker symbol \<open>end\<close>.
\<close>

section \<open>Operations\<close>

definition PGSIZE :: u32 where "PGSIZE = 4096"
definition KERNBASE :: u32 where "KERNBASE = 0x80000000"
definition PHYSTOP :: u32 where "PHYSTOP = 0xE000000"

definition V2P :: "u32 \<Rightarrow> u32" where "V2P a = a - KERNBASE"
definition P2V :: "u32 \<Rightarrow> u32" where "P2V a = a + KERNBASE"

definition PGROUNDUP :: "u32 \<Rightarrow> u32" where
  "PGROUNDUP sz = (sz + PGSIZE - 1) AND NOT (PGSIZE - 1)"

definition PGROUNDDOWN :: "u32 \<Rightarrow> u32" where
  "PGROUNDDOWN a = a AND NOT (PGSIZE - 1)"

lemmas page_consts = PGSIZE_def KERNBASE_def PHYSTOP_def V2P_def P2V_def

record kmem =
  km_use_lock :: bool
  km_freelist :: u32
  km_mem :: mem

definition kfree :: "u32 \<Rightarrow> u32 \<Rightarrow> (kmem, unit) K" where
  "kfree kend v = (\<lambda>s.
     if v mod PGSIZE \<noteq> 0 \<or> v < kend \<or> PHYSTOP \<le> V2P v then (Inl (Panic ''kfree''), s)
     else (Inr (), s\<lparr>km_mem := store32 v (km_freelist s) (memset v 1 PGSIZE (km_mem s)),
                     km_freelist := v\<rparr>))"

definition kalloc :: "(kmem, u32) K" where
  "kalloc = (\<lambda>s. let r = km_freelist s in
     if r \<noteq> 0 then (Inr r, s\<lparr>km_freelist := load32 (km_mem s) r\<rparr>) else (Inr r, s))"

lemma kfree_range:
  assumes "kfree kend p s = (Inr x, t)"
  shows "unat p + 4096 \<le> 2 ^ 32 - 4096" "p mod PGSIZE = 0" "kend \<le> p"
proof -
  have "\<not> (p mod PGSIZE \<noteq> 0 \<or> p < kend \<or> PHYSTOP \<le> V2P p)" using assms by (auto simp: kfree_def split: if_splits)
  then have a: "p mod PGSIZE = 0" "kend \<le> p" "V2P p < PHYSTOP" by auto
  then show "p mod PGSIZE = 0" "kend \<le> p" by blast+
  have "unat (V2P p) < 0xE000000" using a(3) by (simp add: page_consts word_less_nat_alt)
  moreover have "unat p = (unat (V2P p) + 0x80000000) mod 2 ^ 32"
    using unat_word_ariths(1) [of "p - KERNBASE" KERNBASE] by (simp add: V2P_def KERNBASE_def)
  ultimately show "unat p + 4096 \<le> 2 ^ 32 - 4096" by simp
qed

function freerange_loop :: "u32 \<Rightarrow> u32 \<Rightarrow> u32 \<Rightarrow> (kmem, unit) K" where
  "freerange_loop kend p vend s =
     (if p + PGSIZE \<le> vend then
        (case kfree kend p s of
           (Inl e, t) \<Rightarrow> (Inl e, t)
         | (Inr _, t) \<Rightarrow> freerange_loop kend (p + PGSIZE) vend t)
      else (Inr (), s))"
  by pat_completeness auto
termination
proof (relation "measure (\<lambda>(_, p, _, _). 2 ^ 32 - unat p)")
  fix kend p vend :: "32 word" and s t :: kmem and r x
  assume a: "(r, t) = kfree kend p s" "r = Inr x"
  then have "kfree kend p s = (Inr x, t)" by simp
  then have "unat p + 4096 \<le> 2 ^ 32 - 4096" by (rule kfree_range)
  then show "((kend, p + PGSIZE, vend, t), kend, p, vend, s) \<in> measure (\<lambda>(_, p, _, _). 2 ^ 32 - unat p)"
    by (simp add: PGSIZE_def unat_word_ariths)
qed simp

declare freerange_loop.simps [simp del]

definition freerange :: "u32 \<Rightarrow> u32 \<Rightarrow> u32 \<Rightarrow> (kmem, unit) K" where
  "freerange kend vstart vend = freerange_loop kend (PGROUNDUP vstart) vend"

definition kinit1 :: "u32 \<Rightarrow> u32 \<Rightarrow> u32 \<Rightarrow> (kmem, unit) K" where
  "kinit1 kend vstart vend =
     bindK (modK (\<lambda>s. s\<lparr>km_use_lock := False\<rparr>)) (\<lambda>_. freerange kend vstart vend)"

definition kinit2 :: "u32 \<Rightarrow> u32 \<Rightarrow> u32 \<Rightarrow> (kmem, unit) K" where
  "kinit2 kend vstart vend =
     bindK (freerange kend vstart vend) (\<lambda>_. modK (\<lambda>s. s\<lparr>km_use_lock := True\<rparr>))"

section \<open>The free list as a list of pages\<close>

fun is_free_list :: "mem \<Rightarrow> u32 \<Rightarrow> u32 list \<Rightarrow> bool" where
  "is_free_list m p [] = (p = 0)"
| "is_free_list m p (x # xs) = (p = x \<and> x \<noteq> 0 \<and> is_free_list m (load32 m x) xs)"

definition page_ok :: "u32 \<Rightarrow> u32 \<Rightarrow> bool" where
  "page_ok kend v \<longleftrightarrow> v mod PGSIZE = 0 \<and> kend \<le> v \<and> V2P v < PHYSTOP"

definition in_page :: "u32 \<Rightarrow> u32 \<Rightarrow> bool" where
  "in_page v a \<longleftrightarrow> unat (a - v) < 4096"

definition kmem_inv :: "u32 \<Rightarrow> kmem \<Rightarrow> u32 list \<Rightarrow> bool" where
  "kmem_inv kend s xs \<longleftrightarrow> is_free_list (km_mem s) (km_freelist s) xs \<and> distinct xs \<and> (\<forall>x\<in>set xs. page_ok kend x)"

lemma page_ok_pos: "page_ok kend v \<Longrightarrow> v \<noteq> 0"
  by (auto simp: page_ok_def page_consts)

lemma aligned_unat: "(v :: 32 word) mod PGSIZE = 0 \<Longrightarrow> unat v mod 4096 = 0"
  using unat_mod [of v 4096] by (simp add: PGSIZE_def)

lemma in_page_div:
  assumes "v mod PGSIZE = 0" "in_page v a"
  shows "unat a div 4096 = unat v div 4096"
proof -
  have "4096 dvd unat v" using aligned_unat [OF assms(1)] by (simp only: mod_eq_0_iff_dvd)
  then obtain k where k: "unat v = 4096 * k" by (rule dvdE)
  have "unat v < 2 ^ 32" using unsigned_less [of v, where ?'a = nat] by simp
  then have "4096 * k < 4096 * 2 ^ 20" using k by simp
  then have "k < 2 ^ 20" by (simp only: nat_mult_less_cancel_disj)
  moreover have "unat (a - v) < 4096" using assms(2) by (simp only: in_page_def)
  ultimately have lt: "unat v + unat (a - v) < 2 ^ 32" using k by simp
  have "unat a = (unat v + unat (a - v)) mod 2 ^ 32" using unat_word_ariths(1) [of v "a - v"] by simp
  then have "unat a = 4096 * k + unat (a - v)" using lt k by simp
  then show ?thesis using \<open>unat (a - v) < 4096\<close> k by simp
qed

lemma in_page_unique:
  assumes "v mod PGSIZE = 0" "w mod PGSIZE = 0" "in_page v a" "in_page w a"
  shows "v = w"
proof -
  have "unat v div 4096 = unat w div 4096"
    using in_page_div [OF assms(1,3)] in_page_div [OF assms(2,4)] by simp
  moreover have "x = x div 4096 * 4096" if "x mod 4096 = 0" for x :: nat
    using that div_mult_mod_eq [of x 4096] by simp
  ultimately have "unat v = unat w" using aligned_unat [OF assms(1)] aligned_unat [OF assms(2)] by metis
  then show ?thesis by (simp add: word_unat_eq_iff)
qed

lemma in_page_first [simp]: "in_page v v" "in_page v (v + 1)" "in_page v (v + 2)" "in_page v (v + 3)"
  by (simp_all add: in_page_def)

text \<open>What \<open>kfree\<close> writes: only bytes of the page.\<close>

lemma kfree_frame:
  "\<not> in_page v a \<Longrightarrow> store32 v w (memset v 1 PGSIZE m) a = m a"
  by (auto simp: store32_def memset_apply in_page_def PGSIZE_def)

lemma load32_frame:
  assumes "v mod PGSIZE = 0" "x mod PGSIZE = 0" "v \<noteq> x" "\<forall>a. \<not> in_page v a \<longrightarrow> m' a = m a"
  shows "load32 m' x = load32 m x"
proof -
  have "m' a = m a" if "in_page x a" for a
    using assms in_page_unique [OF assms(1,2)] that by blast
  then show ?thesis by (intro load32_cong) simp_all
qed

lemma is_free_list_cong:
  "\<forall>x\<in>set xs. load32 m' x = load32 m x \<Longrightarrow> is_free_list m' p xs = is_free_list m p xs"
  by (induction xs arbitrary: p) auto

lemma is_free_list_unique: "is_free_list m p xs \<Longrightarrow> is_free_list m p ys \<Longrightarrow> xs = ys"
proof (induction xs arbitrary: p ys)
  case Nil
  then show ?case by (cases ys) auto
next
  case (Cons x xs)
  then show ?case by (cases ys) auto
qed

lemma kfree_ok:
  assumes inv: "kmem_inv kend s xs" and v: "page_ok kend v" "v \<notin> set xs"
  shows "\<exists>t. kfree kend v s = (Inr (), t) \<and> kmem_inv kend t (v # xs)
     \<and> (\<forall>a. \<not> in_page v a \<longrightarrow> km_mem t a = km_mem s a) \<and> km_use_lock t = km_use_lock s"
proof -
  let ?m = "store32 v (km_freelist s) (memset v 1 PGSIZE (km_mem s))"
  let ?t = "s\<lparr>km_mem := ?m, km_freelist := v\<rparr>"
  have run: "kfree kend v s = (Inr (), ?t)" using v by (auto simp: kfree_def page_ok_def)
  have fr: "\<forall>a. \<not> in_page v a \<longrightarrow> ?m a = km_mem s a" using kfree_frame by blast
  have "\<forall>x\<in>set xs. load32 ?m x = load32 (km_mem s) x"
  proof
    fix x assume x: "x \<in> set xs"
    then have "x mod PGSIZE = 0" using inv by (simp add: kmem_inv_def page_ok_def)
    moreover have "v mod PGSIZE = 0" using v by (simp add: page_ok_def)
    ultimately show "load32 ?m x = load32 (km_mem s) x" using x v(2) fr by (intro load32_frame [of v]) auto
  qed
  from is_free_list_cong [OF this] have "is_free_list ?m (km_freelist s) xs"
    using inv unfolding kmem_inv_def by blast
  then have "kmem_inv kend ?t (v # xs)"
    using inv v page_ok_pos [OF v(1)] by (simp add: kmem_inv_def)
  then show ?thesis using run fr by simp
qed

lemma kalloc_ok:
  assumes inv: "kmem_inv kend s xs"
  shows "case xs of
     [] \<Rightarrow> kalloc s = (Inr 0, s)
   | x # ys \<Rightarrow> \<exists>t. kalloc s = (Inr x, t) \<and> kmem_inv kend t ys \<and> km_mem t = km_mem s \<and> km_use_lock t = km_use_lock s"
  using inv by (cases xs) (auto simp: kmem_inv_def kalloc_def Let_def)

section \<open>The contract of the allocator\<close>

text \<open>
  What the rest of the kernel relies on: a call of \<open>alloc\<close> takes a page out of the set of free
  pages, or returns 0 when there is none; \<open>dealloc\<close> puts a page back. Memory outside the page
  is never touched.
\<close>

locale page_allocator =
  fixes alloc :: "('s, u32) K"
    and dealloc :: "u32 \<Rightarrow> ('s, unit) K"
    and ok :: "'s \<Rightarrow> bool"
    and avail :: "'s \<Rightarrow> u32 set"
    and valid :: "u32 \<Rightarrow> bool"
    and bytes :: "'s \<Rightarrow> mem"
  assumes alloc_none: "ok s \<Longrightarrow> avail s = {} \<Longrightarrow> alloc s = (Inr 0, s)"
    and alloc_some: "ok s \<Longrightarrow> avail s \<noteq> {} \<Longrightarrow>
      \<exists>p t. alloc s = (Inr p, t) \<and> ok t \<and> p \<in> avail s \<and> avail t = avail s - {p} \<and> bytes t = bytes s"
    and dealloc_ok: "ok s \<Longrightarrow> valid p \<Longrightarrow> p \<notin> avail s \<Longrightarrow>
      \<exists>t. dealloc p s = (Inr (), t) \<and> ok t \<and> avail t = insert p (avail s)
        \<and> (\<forall>a. \<not> in_page p a \<longrightarrow> bytes t a = bytes s a)"
    and avail_valid: "ok s \<Longrightarrow> p \<in> avail s \<Longrightarrow> valid p"
    and avail_finite: "ok s \<Longrightarrow> finite (avail s)"
    and valid_page: "valid p \<Longrightarrow> p \<noteq> 0 \<and> p mod PGSIZE = 0"
begin

text \<open>Several allocations in a row.\<close>

primrec alloc_many :: "nat \<Rightarrow> ('s, u32 list) K" where
  "alloc_many 0 = retK []"
| "alloc_many (Suc n) = bindK alloc (\<lambda>p. bindK (alloc_many n) (\<lambda>ps. retK (p # ps)))"

lemma alloc_fresh:
  assumes "ok s" "alloc s = (Inr p, t)" "p \<noteq> 0"
  shows "ok t \<and> p \<in> avail s \<and> avail t = avail s - {p} \<and> bytes t = bytes s"
  using assms alloc_none alloc_some [OF assms(1)] by (cases "avail s = {}") auto

lemma alloc_many_distinct:
  assumes "ok s" "n \<le> card (avail s)"
  shows "\<exists>ps t. alloc_many n s = (Inr ps, t) \<and> ok t \<and> length ps = n \<and> distinct ps
     \<and> set ps \<subseteq> avail s \<and> avail t = avail s - set ps \<and> bytes t = bytes s"
  using assms
proof (induction n arbitrary: s)
  case (Suc n)
  then have "avail s \<noteq> {}" by auto
  then obtain p t where p: "alloc s = (Inr p, t)" "ok t" "p \<in> avail s" "avail t = avail s - {p}" "bytes t = bytes s"
    using alloc_some Suc.prems(1) by blast
  have "n \<le> card (avail t)" using Suc.prems p avail_finite by (simp add: card_Diff_singleton)
  from Suc.IH [OF p(2) this] obtain ps u where
    "alloc_many n t = (Inr ps, u)" "ok u" "length ps = n" "distinct ps" "set ps \<subseteq> avail t"
    "avail u = avail t - set ps" "bytes u = bytes t" by blast
  then show ?case using p by auto
qed simp

lemma alloc_dealloc:
  assumes "ok s" "alloc s = (Inr p, t)" "p \<noteq> 0"
  shows "\<exists>u. dealloc p t = (Inr (), u) \<and> ok u \<and> avail u = avail s \<and> (\<forall>a. \<not> in_page p a \<longrightarrow> bytes u a = bytes s a)"
proof -
  have f: "ok t" "p \<in> avail s" "avail t = avail s - {p}" "bytes t = bytes s" using alloc_fresh [OF assms] by blast+
  have "valid p" by (rule avail_valid [OF assms(1) f(2)])
  from dealloc_ok [OF f(1) this] show ?thesis using f by (auto simp: insert_absorb)
qed

end

text \<open>The pages of the free list.\<close>

definition free_pages :: "kmem \<Rightarrow> u32 set" where
  "free_pages s = {p. \<exists>xs. is_free_list (km_mem s) (km_freelist s) xs \<and> p \<in> set xs}"

definition kmem_ok :: "u32 \<Rightarrow> kmem \<Rightarrow> bool" where
  "kmem_ok kend s \<longleftrightarrow> (\<exists>xs. kmem_inv kend s xs)"

lemma free_pages_eq: "kmem_inv kend s xs \<Longrightarrow> free_pages s = set xs"
  unfolding free_pages_def kmem_inv_def using is_free_list_unique by blast

interpretation kpages: page_allocator kalloc "kfree kend" "kmem_ok kend" free_pages "page_ok kend" km_mem
  for kend
proof unfold_locales
  show "kalloc s = (Inr 0, s)" if a: "kmem_ok kend s" "free_pages s = {}" for s
  proof -
    obtain xs where xs: "kmem_inv kend s xs" using a(1) by (auto simp: kmem_ok_def)
    then show ?thesis using kalloc_ok [OF xs] free_pages_eq [OF xs] a(2) by (cases xs) auto
  qed
  show "\<exists>p t. kalloc s = (Inr p, t) \<and> kmem_ok kend t \<and> p \<in> free_pages s \<and> free_pages t = free_pages s - {p} \<and> km_mem t = km_mem s"
    if a: "kmem_ok kend s" "free_pages s \<noteq> {}" for s
  proof -
    obtain xs where xs: "kmem_inv kend s xs" using a(1) by (auto simp: kmem_ok_def)
    then obtain x ys where x: "xs = x # ys" using a(2) free_pages_eq [OF xs] by (cases xs) auto
    from kalloc_ok [OF xs] obtain t where t: "kalloc s = (Inr x, t)" "kmem_inv kend t ys" "km_mem t = km_mem s"
      unfolding x by auto
    have "x \<notin> set ys" using xs x by (simp add: kmem_inv_def)
    then show ?thesis using t free_pages_eq [OF xs] free_pages_eq [OF t(2)] x by (auto simp: kmem_ok_def)
  qed
  show "\<exists>t. kfree kend p s = (Inr (), t) \<and> kmem_ok kend t \<and> free_pages t = insert p (free_pages s) \<and>
          (\<forall>a. \<not> in_page p a \<longrightarrow> km_mem t a = km_mem s a)"
    if a: "kmem_ok kend s" "page_ok kend p" "p \<notin> free_pages s" for s p
  proof -
    obtain xs where xs: "kmem_inv kend s xs" using a(1) by (auto simp: kmem_ok_def)
    have "p \<notin> set xs" using a(3) free_pages_eq [OF xs] by simp
    from kfree_ok [OF xs a(2) this] obtain t where t: "kfree kend p s = (Inr (), t)" "kmem_inv kend t (p # xs)"
      "\<forall>a. \<not> in_page p a \<longrightarrow> km_mem t a = km_mem s a" by blast
    then show ?thesis using free_pages_eq [OF xs] free_pages_eq [OF t(2)] by (auto simp: kmem_ok_def)
  qed
  show "page_ok kend p" if "kmem_ok kend s" "p \<in> free_pages s" for s p
    using that free_pages_eq by (auto simp: kmem_ok_def kmem_inv_def)
  show "finite (free_pages s)" if "kmem_ok kend s" for s
    using that free_pages_eq by (metis kmem_ok_def List.finite_set)
  show "p \<noteq> 0 \<and> p mod PGSIZE = 0" if "page_ok kend p" for p
    using page_ok_pos [OF that] that unfolding page_ok_def by blast
qed

text \<open>
  C25. \<^const>\<open>kfree\<close> and \<^const>\<open>kalloc\<close> implement a stack of free pages in the linked list: freeing
  an allocated page pushes it, changing no byte outside the page; allocating pops the first
  page and changes no memory; allocating from an empty list returns 0 and changes nothing.
\<close>

theorem kalloc_kfree_correct:
  assumes inv: "kmem_inv kend s xs"
  shows "(page_ok kend v \<longrightarrow> v \<notin> set xs \<longrightarrow>
       (\<exists>t. kfree kend v s = (Inr (), t) \<and> kmem_inv kend t (v # xs)
          \<and> (\<forall>a. \<not> in_page v a \<longrightarrow> km_mem t a = km_mem s a)))
    \<and> (case xs of
         [] \<Rightarrow> kalloc s = (Inr 0, s)
       | x # ys \<Rightarrow> \<exists>t. kalloc s = (Inr x, t) \<and> kmem_inv kend t ys \<and> km_mem t = km_mem s)"
proof (intro conjI impI)
  assume "page_ok kend v" "v \<notin> set xs"
  from kfree_ok [OF inv this] show "\<exists>t. kfree kend v s = (Inr (), t) \<and> kmem_inv kend t (v # xs)
          \<and> (\<forall>a. \<not> in_page v a \<longrightarrow> km_mem t a = km_mem s a)" by blast
next
  show "case xs of [] \<Rightarrow> kalloc s = (Inr 0, s)
       | x # ys \<Rightarrow> \<exists>t. kalloc s = (Inr x, t) \<and> kmem_inv kend t ys \<and> km_mem t = km_mem s"
    using kalloc_ok [OF inv] by (cases xs) auto
qed

theorem kalloc_kfree_correct_witness:
  "\<exists>t. kfree 0x80100000 0x80200000 \<lparr>km_use_lock = False, km_freelist = 0, km_mem = (\<lambda>_. 0)\<rparr> = (Inr (), t)
     \<and> kmem_inv 0x80100000 t [0x80200000]"
proof -
  have inv: "kmem_inv 0x80100000 \<lparr>km_use_lock = False, km_freelist = 0, km_mem = (\<lambda>_. 0)\<rparr> []"
    by (simp add: kmem_inv_def)
  have "page_ok 0x80100000 0x80200000" by (simp add: page_ok_def page_consts)
  then show ?thesis using kalloc_kfree_correct [OF inv, where v = "0x80200000"] by auto
qed

primrec kalloc_many :: "nat \<Rightarrow> (kmem, u32 list) K" where
  "kalloc_many 0 = retK []"
| "kalloc_many (Suc n) = bindK kalloc (\<lambda>p. bindK (kalloc_many n) (\<lambda>ps. retK (p # ps)))"

lemma kalloc_many_eq: "kalloc_many n = kpages.alloc_many n"
  by (induction n) simp_all

text \<open>
  C26. No page is handed out twice: as many allocations in a row as there are free pages all
  succeed, return distinct page-aligned non-null addresses that were free, and leave exactly
  the other pages free; the next one returns 0.
\<close>

theorem kalloc_many_distinct:
  assumes "kmem_inv kend s xs" "n \<le> length xs"
  shows "\<exists>ps t. kalloc_many n s = (Inr ps, t) \<and> length ps = n \<and> distinct ps \<and> set ps \<subseteq> set xs
     \<and> (\<forall>p\<in>set ps. p \<noteq> 0 \<and> p mod PGSIZE = 0) \<and> free_pages t = set xs - set ps
     \<and> (n = length xs \<longrightarrow> kalloc t = (Inr 0, t))"
proof -
  have fp: "free_pages s = set xs" by (rule free_pages_eq [OF assms(1)])
  have ok: "kmem_ok kend s" using assms(1) by (auto simp: kmem_ok_def)
  have d: "distinct xs" using assms(1) by (simp add: kmem_inv_def)
  then have "n \<le> card (free_pages s)" using assms(2) by (simp add: fp distinct_card)
  from kpages.alloc_many_distinct [OF ok this] obtain ps t where
    r: "kalloc_many n s = (Inr ps, t)" "kmem_ok kend t" "length ps = n" "distinct ps"
      "set ps \<subseteq> set xs" "free_pages t = set xs - set ps"
    unfolding fp kalloc_many_eq by blast
  have "\<forall>p\<in>set ps. p \<noteq> 0 \<and> p mod PGSIZE = 0"
    using r(5) kpages.avail_valid [OF ok] kpages.valid_page fp by blast
  moreover have "kalloc t = (Inr 0, t)" if "n = length xs"
  proof -
    have "card (set ps) = card (set xs)" using that r(3,4) d by (simp add: distinct_card)
    then have "set ps = set xs" using r(5) by (intro card_subset_eq) auto
    then show ?thesis using kpages.alloc_none [OF r(2)] r(6) by simp
  qed
  ultimately show ?thesis using r by blast
qed

theorem kalloc_many_distinct_witness:
  "\<exists>ps t. kalloc_many 1 \<lparr>km_use_lock = False, km_freelist = 0x80200000, km_mem = (\<lambda>_. 0)\<rparr> = (Inr ps, t)
     \<and> set ps \<subseteq> {0x80200000} \<and> kalloc t = (Inr 0, t)"
proof -
  have "load32 (\<lambda>_. 0) 0x80200000 = 0" by (simp add: load32_def)
  then have "kmem_inv 0x80100000 \<lparr>km_use_lock = False, km_freelist = 0x80200000, km_mem = (\<lambda>_. 0)\<rparr> [0x80200000]"
    by (simp add: kmem_inv_def page_ok_def page_consts)
  from kalloc_many_distinct [OF this, of 1] show ?thesis by auto
qed

lemma PGROUNDUP_aligned: "PGROUNDUP a mod PGSIZE = 0"
proof -
  have m: "PGSIZE - 1 = (mask 12 :: 32 word)" by (simp add: PGSIZE_def mask_eq_exp_minus_1)
  have "PGROUNDUP a = push_bit 12 (drop_bit 12 (a + PGSIZE - 1))"
    unfolding PGROUNDUP_def m by (rule bit_word_eqI) (auto simp: bit_simps)
  moreover have "take_bit 12 (push_bit 12 w) = 0" for w :: "32 word"
    by (rule bit_word_eqI) (simp add: bit_simps)
  ultimately have "take_bit 12 (PGROUNDUP a) = 0" by simp
  then show ?thesis by (simp add: PGSIZE_def take_bit_eq_mod)
qed

text \<open>The pages \<open>freerange\<close> frees, counted from \<open>p\<close>.\<close>

definition page_seq :: "u32 \<Rightarrow> nat \<Rightarrow> u32 list" where
  "page_seq p n = map (\<lambda>i. p + of_nat i * PGSIZE) [0..<n]"

lemma page_seq_Suc: "page_seq p (Suc n) = p # page_seq (p + PGSIZE) n"
proof -
  have "[0..<Suc n] = 0 # map Suc [0..<n]" by (simp add: upt_conv_Cons map_Suc_upt del: upt_Suc)
  then show ?thesis by (simp add: page_seq_def comp_def distrib_right add.assoc del: upt_Suc)
qed

lemma freerange_loop_ok:
  assumes "kmem_inv kend s xs" "p mod PGSIZE = 0" "kend \<le> p" "KERNBASE \<le> p" "unat p \<le> 0x8E000000"
    "unat vend \<le> 0x8E000000" "\<forall>x\<in>set xs. x < p" "n = (unat vend - unat p) div 4096"
  shows "\<exists>t. freerange_loop kend p vend s = (Inr (), t)
     \<and> kmem_inv kend t (rev (page_seq p n) @ xs) \<and> km_use_lock t = km_use_lock s"
  using assms
proof (induction n arbitrary: p s xs)
  case 0
  have "unat (p + PGSIZE) = unat p + 4096" using "0.prems"(5) by (simp add: PGSIZE_def unat_word_ariths)
  moreover have "unat vend < unat p + 4096" using "0.prems"(8) by (simp add: div_eq_0_iff)
  ultimately have "\<not> p + PGSIZE \<le> vend" by (simp add: word_le_nat_alt)
  then show ?case using "0.prems" by (subst freerange_loop.simps) (simp add: page_seq_def)
next
  case (Suc n)
  have up: "unat (p + PGSIZE) = unat p + 4096" using Suc.prems(5) by (simp add: PGSIZE_def unat_word_ariths)
  have le: "unat p + 4096 \<le> unat vend"
  proof (rule ccontr)
    assume "\<not> unat p + 4096 \<le> unat vend"
    then have "unat vend - unat p < 4096" by linarith
    then show False using Suc.prems(8) by simp
  qed
  have k: "0x80000000 \<le> unat p" using Suc.prems(4) by (simp add: KERNBASE_def word_le_nat_alt)
  have "unat (V2P p) = unat p - 0x80000000" using k by (simp add: V2P_def KERNBASE_def unat_sub word_le_nat_alt)
  then have "V2P p < PHYSTOP" using le Suc.prems(6) k by (simp add: PHYSTOP_def word_less_nat_alt)
  then have pk: "page_ok kend p" using Suc.prems by (simp add: page_ok_def)
  have "p \<notin> set xs" using Suc.prems(7) by auto
  from kfree_ok [OF Suc.prems(1) pk this] obtain t where
    t: "kfree kend p s = (Inr (), t)" "kmem_inv kend t (p # xs)" "km_use_lock t = km_use_lock s" by blast
  have "\<exists>u. freerange_loop kend (p + PGSIZE) vend t = (Inr (), u)
     \<and> kmem_inv kend u (rev (page_seq (p + PGSIZE) n) @ p # xs) \<and> km_use_lock u = km_use_lock t"
  proof (rule Suc.IH [OF t(2)])
    show "(p + PGSIZE) mod PGSIZE = 0"
    proof -
      have "unat (p + PGSIZE) mod 4096 = 0" using up aligned_unat [OF Suc.prems(2)] by simp
      then have "unat ((p + PGSIZE) mod PGSIZE) = 0" by (simp add: unat_mod PGSIZE_def)
      then show ?thesis by (simp add: unat_eq_0)
    qed
    show "\<forall>x\<in>set (p # xs). x < p + PGSIZE"
      using Suc.prems(7) up by (auto simp: word_less_nat_alt)
    show "n = (unat vend - unat (p + PGSIZE)) div 4096"
    proof -
      have "unat vend - unat p = unat vend - unat (p + PGSIZE) + 4096" using le up by linarith
      then show ?thesis using Suc.prems(8) by simp
    qed
  qed (use Suc.prems(3,4,6) up le in \<open>auto simp: word_le_nat_alt\<close>)
  then obtain u where u: "freerange_loop kend (p + PGSIZE) vend t = (Inr (), u)"
     "kmem_inv kend u (rev (page_seq (p + PGSIZE) n) @ p # xs)" "km_use_lock u = km_use_lock t" by blast
  have "p + PGSIZE \<le> vend" using up le by (simp add: word_le_nat_alt)
  then have "freerange_loop kend p vend s = (Inr (), u)"
    using t(1) u(1) by (subst freerange_loop.simps) simp
  then show ?case using u t by (simp add: page_seq_Suc)
qed

text \<open>
  C27. Initialisation: freeing a range of kernel memory below \<open>PHYSTOP\<close> that starts above all
  pages freed before puts exactly the whole pages inside the range on the free list, and does
  not panic.
\<close>

theorem freerange_correct:
  assumes "kmem_inv kend s xs" "p = PGROUNDUP vstart" "kend \<le> p" "KERNBASE \<le> p" "unat p \<le> 0x8E000000"
    "unat vend \<le> 0x8E000000" "\<forall>x\<in>set xs. x < p"
  shows "\<exists>t. freerange kend vstart vend s = (Inr (), t)
     \<and> kmem_inv kend t (rev (page_seq p ((unat vend - unat p) div 4096)) @ xs)"
  using freerange_loop_ok [OF assms(1) _ assms(3-7) refl] PGROUNDUP_aligned [of vstart]
  by (auto simp: freerange_def assms(2))

theorem freerange_correct_witness:
  "\<exists>t. freerange 0x80100000 0x80100001 0x80103000 \<lparr>km_use_lock = False, km_freelist = 0, km_mem = (\<lambda>_. 0)\<rparr> = (Inr (), t)
     \<and> kmem_inv 0x80100000 t [0x80102000, 0x80101000]"
proof -
  have inv: "kmem_inv 0x80100000 \<lparr>km_use_lock = False, km_freelist = 0, km_mem = (\<lambda>_. 0)\<rparr> []"
    by (simp add: kmem_inv_def)
  have "0x80101000 = PGROUNDUP 0x80100001" by (simp add: PGROUNDUP_def PGSIZE_def)
  from freerange_correct [OF inv this, of "0x80103000"] show ?thesis
    by (simp add: KERNBASE_def page_seq_def PGSIZE_def upt_rec)
qed

end
