(* ===== verification/Byte_Queue.thy ===== *)
theory Byte_Queue
  imports Xv6_Prelude
begin

text \<open>
  Byte queues: the contract that the pipe and the console input buffer both keep, and the
  arithmetic of their ring buffers, in which 32-bit counters run freely and index an array
  whose size divides \<open>2 ^ 32\<close>.
\<close>

section \<open>The contract\<close>

locale byte_queue =
  fixes put :: "u8 \<Rightarrow> 's \<Rightarrow> 's"
    and get :: "'s \<Rightarrow> u8 \<times> 's"
    and contents :: "'s \<Rightarrow> u8 list"
    and ok :: "'s \<Rightarrow> bool"
    and cap :: nat
  assumes contents_cap: "ok s \<Longrightarrow> length (contents s) \<le> cap"
    and put_ok: "ok s \<Longrightarrow> length (contents s) < cap \<Longrightarrow> ok (put b s) \<and> contents (put b s) = contents s @ [b]"
    and get_ok: "ok s \<Longrightarrow> contents s = b # bs \<Longrightarrow> fst (get s) = b \<and> ok (snd (get s)) \<and> contents (snd (get s)) = bs"
begin

fun put_many :: "u8 list \<Rightarrow> 's \<Rightarrow> 's" where
  "put_many [] s = s"
| "put_many (b # bs) s = put_many bs (put b s)"

fun get_many :: "nat \<Rightarrow> 's \<Rightarrow> u8 list \<times> 's" where
  "get_many 0 s = ([], s)"
| "get_many (Suc n) s = (let (b, t) = get s; (bs, u) = get_many n t in (b # bs, u))"

lemma put_many_ok:
  "ok s \<Longrightarrow> length (contents s) + length bs \<le> cap \<Longrightarrow>
     ok (put_many bs s) \<and> contents (put_many bs s) = contents s @ bs"
proof (induction bs arbitrary: s)
  case (Cons b bs)
  then have "ok (put b s)" "contents (put b s) = contents s @ [b]" using put_ok [of s b] by auto
  then show ?case using Cons.IH [of "put b s"] Cons.prems by simp
qed simp

lemma get_many_ok:
  "ok s \<Longrightarrow> n \<le> length (contents s) \<Longrightarrow>
     fst (get_many n s) = take n (contents s) \<and> ok (snd (get_many n s))
     \<and> contents (snd (get_many n s)) = drop n (contents s)"
proof (induction n arbitrary: s)
  case (Suc n)
  then obtain b bs where b: "contents s = b # bs" by (cases "contents s") auto
  obtain t where t: "get s = (b, t)" "ok t" "contents t = bs"
    using get_ok [OF Suc.prems(1) b] by (cases "get s") auto
  have IH: "fst (get_many n t) = take n (contents t) \<and> ok (snd (get_many n t))
     \<and> contents (snd (get_many n t)) = drop n (contents t)"
    by (rule Suc.IH [OF t(2)]) (use Suc.prems b t in simp)
  show ?case using IH t b by (simp add: Let_def split_def)
qed simp

text \<open>First in, first out.\<close>

lemma put_get_many:
  assumes "ok s" "contents s = []" "length bs \<le> cap"
  shows "fst (get_many (length bs) (put_many bs s)) = bs"
  using put_many_ok [OF assms(1), of bs] get_many_ok [of "put_many bs s" "length bs"] assms by simp

end

section \<open>Ring buffers\<close>

text \<open>The \<open>w - r\<close> bytes between two counters.\<close>

definition ring :: "nat \<Rightarrow> (nat \<Rightarrow> u8) \<Rightarrow> u32 \<Rightarrow> u32 \<Rightarrow> u8 list" where
  "ring sz d r w = map (\<lambda>i. d (unat (r + of_nat i) mod sz)) [0..<unat (w - r)]"

lemma length_ring [simp]: "length (ring sz d r w) = unat (w - r)"
  by (simp add: ring_def)

lemma unat_add_mod_ring:
  fixes r :: "32 word"
  assumes "sz dvd 2 ^ 32"
  shows "unat (r + of_nat i) mod sz = (unat r + i) mod sz"
proof -
  have "unat (r + of_nat i) = (unat r + i) mod 2 ^ 32"
    by (simp add: unat_word_ariths unat_of_nat mod_simps)
  then show ?thesis using assms by (simp add: mod_mod_cancel)
qed

lemma ring_slot_inj:
  fixes r :: "32 word"
  assumes "sz dvd 2 ^ 32" "i < sz" "j < sz" "unat (r + of_nat i) mod sz = unat (r + of_nat j) mod sz"
  shows "i = j"
proof -
  have "(unat r + i) mod sz = (unat r + j) mod sz"
    using assms(4) by (simp only: unat_add_mod_ring [OF assms(1)])
  then have "sz dvd (unat r + j) - (unat r + i)" "sz dvd (unat r + i) - (unat r + j)"
    by (metis diff_is_0_eq dvd_0_right mod_eq_dvd_iff_nat nat_le_linear)+
  then have "sz dvd j - i" "sz dvd i - j" by simp_all
  then show ?thesis using assms(2,3) by (metis diff_is_0_eq dvd_imp_le leD le_antisym less_imp_diff_less not_gr_zero)
qed

lemma ring_put:
  assumes "sz dvd 2 ^ 32" "0 < sz" "unat (w - r) < sz" "sz < 2 ^ 32"
  shows "ring sz (d(unat w mod sz := b)) r (w + 1) = ring sz d r w @ [b]"
proof -
  let ?n = "unat (w - r)"
  have w: "w = r + of_nat ?n" by simp
  have e: "w + 1 - r = (w - r) + 1" by simp
  have n1: "unat (w + 1 - r) = Suc ?n" unfolding e using assms by (simp add: unat_word_ariths)
  have "d(unat w mod sz := b) = (\<lambda>x. if x = unat (r + of_nat ?n) mod sz then b else d x)" by (simp add: fun_upd_def)
  moreover have "unat (r + of_nat i) mod sz \<noteq> unat (r + of_nat ?n) mod sz" if "i < ?n" for i
    using ring_slot_inj [OF assms(1), of i ?n r] that assms(3) by auto
  ultimately show ?thesis unfolding ring_def n1 by simp
qed

lemma ring_get:
  assumes "ring sz d r w = b # bs"
  shows "d (unat r mod sz) = b" "ring sz d (r + 1) w = bs"
proof -
  let ?n = "unat (w - r)"
  have n: "?n = Suc (length bs)" using assms length_ring [of sz d r w] by simp
  then have "w \<noteq> r" by auto
  then have "w - r \<noteq> 0" by simp
  then have "unat (w - r - 1) = ?n - 1" by (simp add: unat_minus_one)
  then have n1: "unat (w - (r + 1)) = length bs" unfolding diff_diff_add [symmetric] using n by simp
  have "ring sz d r w = map (\<lambda>i. d (unat (r + of_nat i) mod sz)) (0 # map Suc [0..<length bs])"
    unfolding ring_def n by (simp add: upt_conv_Cons map_Suc_upt del: upt_Suc)
  also have "\<dots> = d (unat r mod sz) # map (\<lambda>i. d (unat (r + 1 + of_nat i) mod sz)) [0..<length bs]"
    by (simp add: add.assoc)
  finally have "d (unat r mod sz) # ring sz d (r + 1) w = b # bs"
    using assms n1 by (simp add: ring_def)
  then show "d (unat r mod sz) = b" "ring sz d (r + 1) w = bs" by simp_all
qed

end
