(* ===== verification/Proc_Table.thy ===== *)
theory Proc_Table
  imports Xv6_Prelude
begin

text \<open>
  The data of \<open>proc.h\<close> and of the \<open>ptable\<close> structure of \<open>proc.c\<close>, with the
  operations that touch nothing else: initialisation, the tick counters and time
  quanta of the multi-level feedback queue, the priority boost, \<open>wakeup1\<close>, and the
  ring of page-directory reference counters.

  A pointer to \<open>ptable.proc[i]\<close> is the slot number \<open>i\<close>, a null pointer is \<open>None\<close>.
  Field \<open>f\<close> of \<open>struct proc\<close> is \<open>p_f\<close>. Arrays are functions of their index, read and
  written inside their bounds only. A C \<open>int\<close> is an \<^typ>\<open>int\<close>, except \<open>stride\<close> and
  \<open>stride_count\<close>, whose sum is kept in 32 bits and wraps.
\<close>

section \<open>Processes\<close>

datatype procstate = UNUSED | EMBRYO | SLEEPING | RUNNABLE | RUNNING | ZOMBIE

text \<open>Sleep locks, and the addresses the kernel sleeps on.\<close>

datatype slock = BufSleep nat | InodeSleep nat

datatype chan =
    ProcChan nat           \<comment> \<open>a \<open>struct proc\<close>, in \<open>wait\<close> and \<open>thread_join\<close>\<close>
  | TicksChan              \<comment> \<open>\<open>&ticks\<close>\<close>
  | LogChan                \<comment> \<open>\<open>&log\<close>\<close>
  | SleepChan slock        \<comment> \<open>a sleep lock\<close>
  | PipeReadChan nat       \<comment> \<open>\<open>&p->nread\<close>\<close>
  | PipeWriteChan nat      \<comment> \<open>\<open>&p->nwrite\<close>\<close>
  | InputChan              \<comment> \<open>\<open>&input.r\<close>\<close>

record trapframe =
  tf_edi :: u32
  tf_esi :: u32
  tf_ebp :: u32
  tf_oesp :: u32
  tf_ebx :: u32
  tf_edx :: u32
  tf_ecx :: u32
  tf_eax :: u32
  tf_gs :: u16
  tf_fs :: u16
  tf_es :: u16
  tf_ds :: u16
  tf_trapno :: u32
  tf_err :: u32
  tf_eip :: u32
  tf_cs :: u16
  tf_eflags :: u32
  tf_esp :: u32
  tf_ss :: u16

record kcontext =
  c_edi :: u32
  c_esi :: u32
  c_ebx :: u32
  c_ebp :: u32
  c_eip :: u32

record proc =
  p_sz :: u32
  p_pgdir :: u32
  p_kstack :: u32
  p_state :: procstate
  p_pid :: int
  p_parent :: "nat option"
  p_tf :: trapframe
  p_context :: kcontext
  p_chan :: "chan option"
  p_killed :: bool
  p_ofile :: "nat \<Rightarrow> nat option"
  p_cwd :: "nat option"
  p_name :: string
  p_tick_used :: int
  p_time_quantum_used :: int
  p_level_of_MLFQ :: int
  p_cpu_share :: int
  p_stride :: i32
  p_stride_count :: i32
  p_tid :: int
  p_pgdir_ref_idx :: int
  p_thread_return :: u32
  p_num_of_threads :: int
  p_proc_forked_in_thread :: "nat option"
  p_original_cpu_share :: int

section \<open>The process table\<close>

record ptable =
  pt_proc :: "nat \<Rightarrow> proc"
  MLFQ_time_quantum :: "nat \<Rightarrow> int"
  MLFQ_tick_used :: int
  queue_level_at_most :: int
  min_of_run_proc_level :: int
  stride_queue :: "nat \<Rightarrow> nat option"
  sum_cpu_share :: int
  stride_queue_size :: nat
  stride_time_quantum :: int
  stride_tick_used :: int
  queue_selector :: int  \<comment> \<open>the static variable of \<open>select_stride_or_MLFQ\<close>\<close>

text \<open>
  The table before \<open>pinit\<close>: static storage filled with zeros, and the static variable
  with its initialiser.
\<close>

definition trapframe_zero :: trapframe where
  "trapframe_zero = \<lparr>tf_edi = 0, tf_esi = 0, tf_ebp = 0, tf_oesp = 0, tf_ebx = 0, tf_edx = 0,
     tf_ecx = 0, tf_eax = 0, tf_gs = 0, tf_fs = 0, tf_es = 0, tf_ds = 0, tf_trapno = 0, tf_err = 0,
     tf_eip = 0, tf_cs = 0, tf_eflags = 0, tf_esp = 0, tf_ss = 0\<rparr>"

definition kcontext_zero :: kcontext where
  "kcontext_zero = \<lparr>c_edi = 0, c_esi = 0, c_ebx = 0, c_ebp = 0, c_eip = 0\<rparr>"

definition proc_zero :: proc where
  "proc_zero = \<lparr>p_sz = 0, p_pgdir = 0, p_kstack = 0, p_state = UNUSED, p_pid = 0, p_parent = None,
     p_tf = trapframe_zero, p_context = kcontext_zero, p_chan = None, p_killed = False,
     p_ofile = (\<lambda>_. None), p_cwd = None, p_name = [], p_tick_used = 0, p_time_quantum_used = 0,
     p_level_of_MLFQ = 0, p_cpu_share = 0, p_stride = 0, p_stride_count = 0, p_tid = 0,
     p_pgdir_ref_idx = 0, p_thread_return = 0, p_num_of_threads = 0, p_proc_forked_in_thread = None,
     p_original_cpu_share = 0\<rparr>"

definition ptable_zero :: ptable where
  "ptable_zero = \<lparr>pt_proc = (\<lambda>_. proc_zero), MLFQ_time_quantum = (\<lambda>_. 0), MLFQ_tick_used = 0,
     queue_level_at_most = 0, min_of_run_proc_level = 0, stride_queue = (\<lambda>_. None),
     sum_cpu_share = 0, stride_queue_size = 0, stride_time_quantum = 0, stride_tick_used = 0,
     queue_selector = - 1\<rparr>"

text \<open>\<open>upd_proc i f\<close> is an assignment to fields of \<open>ptable.proc[i]\<close>.\<close>

definition upd_proc :: "nat \<Rightarrow> (proc \<Rightarrow> proc) \<Rightarrow> ptable \<Rightarrow> ptable" where
  "upd_proc i f s = s\<lparr>pt_proc := (pt_proc s)(i := f (pt_proc s i))\<rparr>"

lemma pt_proc_upd_proc [simp]:
  "pt_proc (upd_proc i f s) = (pt_proc s)(i := f (pt_proc s i))"
  by (simp add: upd_proc_def)

lemma upd_proc_other [simp]:
  "MLFQ_time_quantum (upd_proc i f s) = MLFQ_time_quantum s"
  "MLFQ_tick_used (upd_proc i f s) = MLFQ_tick_used s"
  "queue_level_at_most (upd_proc i f s) = queue_level_at_most s"
  "min_of_run_proc_level (upd_proc i f s) = min_of_run_proc_level s"
  "stride_queue (upd_proc i f s) = stride_queue s"
  "sum_cpu_share (upd_proc i f s) = sum_cpu_share s"
  "stride_queue_size (upd_proc i f s) = stride_queue_size s"
  "stride_time_quantum (upd_proc i f s) = stride_time_quantum s"
  "stride_tick_used (upd_proc i f s) = stride_tick_used s"
  "queue_selector (upd_proc i f s) = queue_selector s"
  by (simp_all add: upd_proc_def)

text \<open>The variable part of \<open>pinit\<close>; the first quantum is 5 ticks and each level doubles it.\<close>

fun quantum_table :: "nat list \<Rightarrow> int \<Rightarrow> (nat \<Rightarrow> int) \<Rightarrow> (nat \<Rightarrow> int)" where
  "quantum_table [] default_ticks tbl = tbl"
| "quantum_table (l # ls) default_ticks tbl =
     quantum_table ls (default_ticks * 2) (tbl(l := default_ticks))"

definition ptable_init :: "ptable \<Rightarrow> ptable" where
  "ptable_init s = s\<lparr>
     MLFQ_time_quantum := quantum_table [0..<nat NMLFQ] 5 (MLFQ_time_quantum s),
     MLFQ_tick_used := 0,
     queue_level_at_most := NMLFQ - 1,
     min_of_run_proc_level := NMLFQ - 1,
     stride_queue := (\<lambda>_. None),
     sum_cpu_share := 0,
     stride_queue_size := 0,
     stride_time_quantum := 1,
     stride_tick_used := 0\<rparr>"

lemma ptable_init_quanta:
  "MLFQ_time_quantum (ptable_init s) 0 = 5"
  "MLFQ_time_quantum (ptable_init s) 1 = 10"
  "MLFQ_time_quantum (ptable_init s) 2 = 20"
  by (simp_all add: ptable_init_def upt_rec)

section \<open>Tick counters, time quanta and the priority boost\<close>

text \<open>
  \<open>get_time_quantum\<close> with \<open>cur\<close> for \<open>proc\<close>. The first test checks \<open>proc\<close> for null, the
  other branch reads it all the same. A level outside the table is an access out of bounds.
\<close>

definition get_time_quantum :: "nat option \<Rightarrow> (ptable, int) K" where
  "get_time_quantum cur = (\<lambda>s.
     case cur of
       None \<Rightarrow> (Inl NullPtr, s)
     | Some p \<Rightarrow>
         if p_cpu_share (pt_proc s p) \<noteq> 0 then (Inr (stride_time_quantum s), s)
         else let l = p_level_of_MLFQ (pt_proc s p) in
           if 0 \<le> l \<and> l < NMLFQ then (Inr (MLFQ_time_quantum s (nat l)), s)
           else (Inl OutOfBounds, s))"

definition get_MLFQ_tick_used :: "ptable \<Rightarrow> int" where
  "get_MLFQ_tick_used s = MLFQ_tick_used s"

definition increase_MLFQ_tick_used :: "ptable \<Rightarrow> ptable" where
  "increase_MLFQ_tick_used s = s\<lparr>MLFQ_tick_used := MLFQ_tick_used s + 1\<rparr>"

definition increase_stride_tick_used :: "ptable \<Rightarrow> ptable" where
  "increase_stride_tick_used s = s\<lparr>stride_tick_used := stride_tick_used s + 1\<rparr>"

text \<open>One round of the loop of \<open>priority_boost\<close>, then the loop over all slots.\<close>

definition boost_slot :: "nat \<Rightarrow> ptable \<Rightarrow> ptable" where
  "boost_slot i s =
     (upd_proc i (\<lambda>p. p\<lparr>p_level_of_MLFQ := 0, p_tick_used := 0, p_time_quantum_used := 0\<rparr>) s)
       \<lparr>MLFQ_tick_used := 0\<rparr>"

definition priority_boost :: "ptable \<Rightarrow> ptable" where
  "priority_boost s = fold boost_slot [0..<NPROC] s"

lemma fold_boost_slot:
  "fold boost_slot [0..<n] s =
     s\<lparr>pt_proc := (\<lambda>i. if i < n
          then (pt_proc s i)\<lparr>p_level_of_MLFQ := 0, p_tick_used := 0, p_time_quantum_used := 0\<rparr>
          else pt_proc s i),
       MLFQ_tick_used := (if n = 0 then MLFQ_tick_used s else 0)\<rparr>"
proof (induction n)
  case 0
  then show ?case by simp
next
  case (Suc n)
  have "fold boost_slot [0..<Suc n] s = boost_slot n (fold boost_slot [0..<n] s)" by simp
  then show ?case unfolding Suc
    by (simp only:) (rule ptable.equality, auto simp: boost_slot_def less_Suc_eq fun_eq_iff)
qed

lemma priority_boost_eq:
  "priority_boost s =
     s\<lparr>pt_proc := (\<lambda>i. if i < NPROC
          then (pt_proc s i)\<lparr>p_level_of_MLFQ := 0, p_tick_used := 0, p_time_quantum_used := 0\<rparr>
          else pt_proc s i),
       MLFQ_tick_used := 0\<rparr>"
  by (simp add: priority_boost_def fold_boost_slot del: upt_Suc)

section \<open>Waking sleepers\<close>

definition wakeup_slot :: "chan \<Rightarrow> nat \<Rightarrow> ptable \<Rightarrow> ptable" where
  "wakeup_slot c i s =
     (if p_state (pt_proc s i) = SLEEPING \<and> p_chan (pt_proc s i) = Some c
      then upd_proc i (\<lambda>p. p\<lparr>p_state := RUNNABLE\<rparr>) s else s)"

definition wakeup1 :: "chan \<Rightarrow> ptable \<Rightarrow> ptable" where
  "wakeup1 c s = fold (wakeup_slot c) [0..<NPROC] s"

lemma fold_wakeup_slot:
  "fold (wakeup_slot c) [0..<n] s =
     s\<lparr>pt_proc := (\<lambda>i. if i < n \<and> p_state (pt_proc s i) = SLEEPING \<and> p_chan (pt_proc s i) = Some c
          then (pt_proc s i)\<lparr>p_state := RUNNABLE\<rparr> else pt_proc s i)\<rparr>"
proof (induction n)
  case 0
  then show ?case by simp
next
  case (Suc n)
  have "fold (wakeup_slot c) [0..<Suc n] s = wakeup_slot c n (fold (wakeup_slot c) [0..<n] s)"
    by simp
  then show ?case unfolding Suc
    by (simp only:) (rule ptable.equality, auto simp: wakeup_slot_def less_Suc_eq fun_eq_iff)
qed

lemma wakeup1_eq:
  "wakeup1 c s =
     s\<lparr>pt_proc := (\<lambda>i. if i < NPROC \<and> p_state (pt_proc s i) = SLEEPING \<and> p_chan (pt_proc s i) = Some c
          then (pt_proc s i)\<lparr>p_state := RUNNABLE\<rparr> else pt_proc s i)\<rparr>"
  by (simp add: wakeup1_def fold_wakeup_slot del: upt_Suc)

end
