(* ===== verification/Locks.thy ===== *)
theory Locks
  imports Proc_Table
begin

text \<open>
  Spin locks (\<open>spinlock.c\<close>), the sleep and wakeup primitives and the switch to the scheduler
  (\<open>proc.c\<close>), and sleep locks (\<open>sleeplock.c\<close>), on the part of the kernel state they use. The code
  runs on processor \<open>me\<close>; the fields of \<open>struct cpu\<close> are functions of the processor.

  A process gives up the processor inside \<open>sched\<close>: there an action stops with \<^const>\<open>Swtch\<close>, and
  the code after the return of \<open>sched\<close> is an action of its own, whose name ends in \<open>_return\<close>.
  An \<open>acquire\<close> of a lock held by another processor stops with \<^const>\<open>Spin\<close>; section 4 treats the
  race of several processors for one lock.
\<close>

section \<open>State\<close>

datatype lock =
    PtableLock | ThreadLock | TicksLock | BcacheLock | LogLock | IcacheLock | FtableLock
  | KmemLock | ConsLock | IdeLock | PipeLock nat | SleepLk slock

record sleeplock =
  sl_locked :: bool
  sl_pid :: int

record ksync =
  me :: nat
  ncli :: "nat \<Rightarrow> int"
  intena :: "nat \<Rightarrow> bool"
  iflag :: "nat \<Rightarrow> bool"          \<comment> \<open>\<open>FL_IF\<close> of the processor\<close>
  curproc :: "nat \<Rightarrow> nat option"  \<comment> \<open>the per-processor variable \<open>proc\<close>\<close>
  lk_locked :: "lock \<Rightarrow> bool"
  lk_cpu :: "lock \<Rightarrow> nat option"
  sleeplks :: "slock \<Rightarrow> sleeplock"
  kptable :: ptable

abbreviation the_proc :: "'z ksync_scheme \<Rightarrow> nat option" where
  "the_proc s \<equiv> curproc s (me s)"

definition mod_ptable :: "(ptable \<Rightarrow> ptable) \<Rightarrow> 'z ksync_scheme \<Rightarrow> 'z ksync_scheme" where
  "mod_ptable f s = s\<lparr>kptable := f (kptable s)\<rparr>"

section \<open>Spin locks on one processor\<close>

definition initlock :: "lock \<Rightarrow> ('z ksync_scheme, unit) K" where
  "initlock lk = modK (\<lambda>s. s\<lparr>lk_locked := (lk_locked s)(lk := False), lk_cpu := (lk_cpu s)(lk := None)\<rparr>)"

definition holding :: "lock \<Rightarrow> 'z ksync_scheme \<Rightarrow> bool" where
  "holding lk s \<longleftrightarrow> lk_locked s lk \<and> lk_cpu s lk = Some (me s)"

definition pushcli :: "('z ksync_scheme, unit) K" where
  "pushcli = modK (\<lambda>s.
     s\<lparr>iflag := (iflag s)(me s := False),
       intena := (if ncli s (me s) = 0 then (intena s)(me s := iflag s (me s)) else intena s),
       ncli := (ncli s)(me s := ncli s (me s) + 1)\<rparr>)"

definition popcli :: "('z ksync_scheme, unit) K" where
  "popcli = (\<lambda>s.
     if iflag s (me s) then (Inl (Panic ''popcli - interruptible''), s)
     else
       let n = ncli s (me s) - 1; t = s\<lparr>ncli := (ncli s)(me s := n)\<rparr>
       in if n < 0 then (Inl (Panic ''popcli''), t)
          else if n = 0 \<and> intena s (me s) then (Inr (), t\<lparr>iflag := (iflag t)(me s := True)\<rparr>)
          else (Inr (), t))"

definition acquire :: "lock \<Rightarrow> ('z ksync_scheme, unit) K" where
  "acquire lk =
     bindK pushcli (\<lambda>_ s.
       if holding lk s then (Inl (Panic ''acquire''), s)
       else if lk_locked s lk then (Inl Spin, s)
       else (Inr (), s\<lparr>lk_locked := (lk_locked s)(lk := True), lk_cpu := (lk_cpu s)(lk := Some (me s))\<rparr>))"

definition release :: "lock \<Rightarrow> ('z ksync_scheme, unit) K" where
  "release lk = (\<lambda>s.
     if \<not> holding lk s then (Inl (Panic ''release''), s)
     else popcli (s\<lparr>lk_locked := (lk_locked s)(lk := False), lk_cpu := (lk_cpu s)(lk := None)\<rparr>))"

section \<open>Giving up the processor\<close>

definition sched :: "('z ksync_scheme, unit) K" where
  "sched = (\<lambda>s.
     if \<not> holding PtableLock s then (Inl (Panic ''sched ptable.lock''), s)
     else if ncli s (me s) \<noteq> 1 then (Inl (Panic ''sched locks''), s)
     else case the_proc s of
       None \<Rightarrow> (Inl NullPtr, s)
     | Some p \<Rightarrow>
         if p_state (pt_proc (kptable s) p) = RUNNING then (Inl (Panic ''sched running''), s)
         else if iflag s (me s) then (Inl (Panic ''sched interruptible''), s)
         else (Inl Swtch, s))"

text \<open>After \<open>swtch\<close> returns, with the saved value of \<open>cpu->intena\<close>.\<close>

definition sched_return :: "bool \<Rightarrow> ('z ksync_scheme, unit) K" where
  "sched_return ena = modK (\<lambda>s.
     (case the_proc s of
        None \<Rightarrow> s
      | Some p \<Rightarrow> mod_ptable (upd_proc p (\<lambda>x. x\<lparr>p_time_quantum_used := 0\<rparr>)) s)
     \<lparr>intena := (intena s)(me s := ena)\<rparr>)"

definition yield :: "('z ksync_scheme, unit) K" where
  "yield =
     bindK (acquire PtableLock) (\<lambda>_.
     bindK (getK the_proc) (\<lambda>c.
     bindK (derefK c) (\<lambda>p.
     bindK (modK (mod_ptable (upd_proc p (\<lambda>x. x\<lparr>p_state := RUNNABLE\<rparr>)))) (\<lambda>_. sched))))"

definition yield_return :: "bool \<Rightarrow> ('z ksync_scheme, unit) K" where
  "yield_return ena = bindK (sched_return ena) (\<lambda>_. release PtableLock)"

definition sleep :: "chan \<Rightarrow> lock option \<Rightarrow> ('z ksync_scheme, unit) K" where
  "sleep c lk =
     bindK (getK the_proc) (\<lambda>cp.
     case cp of
       None \<Rightarrow> panicK ''sleep''
     | Some p \<Rightarrow>
         (case lk of
            None \<Rightarrow> panicK ''sleep without lk''
          | Some l \<Rightarrow>
              bindK (whenK (l \<noteq> PtableLock)
                       (bindK (acquire PtableLock) (\<lambda>_. release l))) (\<lambda>_.
              bindK (modK (mod_ptable (upd_proc p (\<lambda>x. x\<lparr>p_chan := Some c, p_state := SLEEPING\<rparr>)))) (\<lambda>_.
              sched))))"

definition sleep_return :: "lock \<Rightarrow> bool \<Rightarrow> ('z ksync_scheme, unit) K" where
  "sleep_return l ena =
     bindK (sched_return ena) (\<lambda>_.
     bindK (getK the_proc) (\<lambda>cp.
     bindK (derefK cp) (\<lambda>p.
     bindK (modK (mod_ptable (upd_proc p (\<lambda>x. x\<lparr>p_chan := None\<rparr>)))) (\<lambda>_.
     whenK (l \<noteq> PtableLock) (bindK (release PtableLock) (\<lambda>_. acquire l))))))"

definition wakeup :: "chan \<Rightarrow> ('z ksync_scheme, unit) K" where
  "wakeup c =
     bindK (acquire PtableLock) (\<lambda>_.
     bindK (modK (mod_ptable (wakeup1 c))) (\<lambda>_. release PtableLock))"

text \<open>The first slot with the given process id, used or not.\<close>

definition kill_table :: "int \<Rightarrow> ptable \<Rightarrow> int \<times> ptable" where
  "kill_table pid s =
     (case List.find (\<lambda>i. p_pid (pt_proc s i) = pid) [0..<NPROC] of
        None \<Rightarrow> (- 1, s)
      | Some i \<Rightarrow> (0, upd_proc i (\<lambda>p. p\<lparr>p_killed := True,
                      p_state := (if p_state p = SLEEPING then RUNNABLE else p_state p)\<rparr>) s))"

definition kill :: "int \<Rightarrow> ('z ksync_scheme, int) K" where
  "kill pid =
     bindK (acquire PtableLock) (\<lambda>_.
     bindK (getK (\<lambda>s. kill_table pid (kptable s))) (\<lambda>(r, t).
     bindK (modK (mod_ptable (\<lambda>_. t))) (\<lambda>_.
     bindK (release PtableLock) (\<lambda>_. retK r))))"

section \<open>Sleep locks\<close>

definition initsleeplock :: "slock \<Rightarrow> ('z ksync_scheme, unit) K" where
  "initsleeplock l =
     bindK (initlock (SleepLk l)) (\<lambda>_.
     modK (\<lambda>s. s\<lparr>sleeplks := (sleeplks s)(l := \<lparr>sl_locked = False, sl_pid = 0\<rparr>)\<rparr>))"

text \<open>The loop of \<open>acquiresleep\<close> from its test on; it is entered again when a sleep returns.\<close>

definition acquiresleep_loop :: "slock \<Rightarrow> ('z ksync_scheme, unit) K" where
  "acquiresleep_loop l =
     bindK (getK (\<lambda>s. sl_locked (sleeplks s l))) (\<lambda>locked.
     if locked then sleep (SleepChan l) (Some (SleepLk l))
     else
       bindK (getK the_proc) (\<lambda>cp.
       bindK (derefK cp) (\<lambda>p.
       bindK (modK (\<lambda>s. s\<lparr>sleeplks := (sleeplks s)(l :=
                \<lparr>sl_locked = True, sl_pid = p_pid (pt_proc (kptable s) p)\<rparr>)\<rparr>)) (\<lambda>_.
       release (SleepLk l)))))"

definition acquiresleep :: "slock \<Rightarrow> ('z ksync_scheme, unit) K" where
  "acquiresleep l = bindK (acquire (SleepLk l)) (\<lambda>_. acquiresleep_loop l)"

definition acquiresleep_return :: "slock \<Rightarrow> bool \<Rightarrow> ('z ksync_scheme, unit) K" where
  "acquiresleep_return l ena = bindK (sleep_return (SleepLk l) ena) (\<lambda>_. acquiresleep_loop l)"

definition releasesleep :: "slock \<Rightarrow> ('z ksync_scheme, unit) K" where
  "releasesleep l =
     bindK (acquire (SleepLk l)) (\<lambda>_.
     bindK (modK (\<lambda>s. s\<lparr>sleeplks := (sleeplks s)(l := \<lparr>sl_locked = False, sl_pid = 0\<rparr>)\<rparr>)) (\<lambda>_.
     bindK (wakeup (SleepChan l)) (\<lambda>_. release (SleepLk l))))"

definition holdingsleep :: "slock \<Rightarrow> ('z ksync_scheme, bool) K" where
  "holdingsleep l =
     bindK (acquire (SleepLk l)) (\<lambda>_.
     bindK (getK (\<lambda>s. sl_locked (sleeplks s l))) (\<lambda>r.
     bindK (release (SleepLk l)) (\<lambda>_. retK r)))"

section \<open>Several processors and one lock\<close>

text \<open>
  The protocol of \<open>acquire\<close> and \<open>release\<close> at the grain of the atomic exchange: a processor is
  outside, spinning on \<open>xchg\<close>, or between the successful exchange and the store that frees the
  lock.
\<close>

datatype spin_pc = Outside | Spinning | Inside

record spin_state =
  sp_locked :: bool
  sp_pc :: "nat \<Rightarrow> spin_pc"

inductive spin_step :: "spin_state \<Rightarrow> spin_state \<Rightarrow> bool" where
  spin_begin: "sp_pc s c = Outside \<Longrightarrow> spin_step s (s\<lparr>sp_pc := (sp_pc s)(c := Spinning)\<rparr>)"
| xchg_fails: "sp_pc s c = Spinning \<Longrightarrow> sp_locked s \<Longrightarrow> spin_step s s"
| xchg_wins: "sp_pc s c = Spinning \<Longrightarrow> \<not> sp_locked s \<Longrightarrow>
    spin_step s (s\<lparr>sp_locked := True, sp_pc := (sp_pc s)(c := Inside)\<rparr>)"
| spin_end: "sp_pc s c = Inside \<Longrightarrow>
    spin_step s (s\<lparr>sp_locked := False, sp_pc := (sp_pc s)(c := Outside)\<rparr>)"

inductive_cases spin_stepE: "spin_step s t"





section \<open>Lemmas on single operations\<close>

text \<open>The processor state after \<open>n\<close> nested \<open>pushcli\<close> is consistent.\<close>

definition cpu_ok :: "'z ksync_scheme \<Rightarrow> bool" where
  "cpu_ok s \<longleftrightarrow> 0 \<le> ncli s (me s) \<and> (0 < ncli s (me s) \<longrightarrow> \<not> iflag s (me s))"

definition took :: "lock \<Rightarrow> 'z ksync_scheme \<Rightarrow> 'z ksync_scheme" where
  "took lk s =
     s\<lparr>iflag := (iflag s)(me s := False),
       intena := (if ncli s (me s) = 0 then (intena s)(me s := iflag s (me s)) else intena s),
       ncli := (ncli s)(me s := ncli s (me s) + 1),
       lk_locked := (lk_locked s)(lk := True), lk_cpu := (lk_cpu s)(lk := Some (me s))\<rparr>"

definition freed :: "lock \<Rightarrow> 'z ksync_scheme \<Rightarrow> 'z ksync_scheme" where
  "freed lk s =
     s\<lparr>iflag := (if ncli s (me s) = 1 then (iflag s)(me s := intena s (me s)) else iflag s),
       ncli := (ncli s)(me s := ncli s (me s) - 1),
       lk_locked := (lk_locked s)(lk := False), lk_cpu := (lk_cpu s)(lk := None)\<rparr>"

lemma acquire_free: "\<not> lk_locked s lk \<Longrightarrow> acquire lk s = (Inr (), took lk s)"
  by (simp add: acquire_def pushcli_def holding_def took_def)

lemma acquire_again: "holding lk s \<Longrightarrow> fst (acquire lk s) = Inl (Panic ''acquire'')"
  by (simp add: acquire_def pushcli_def holding_def)

lemma release_held:
  assumes "holding lk s" "cpu_ok s" "0 < ncli s (me s)"
  shows "release lk s = (Inr (), freed lk s)"
  using assms
  by (auto simp: release_def popcli_def freed_def cpu_ok_def holding_def Let_def fun_upd_idem)

lemma release_not_held: "\<not> holding lk s \<Longrightarrow> release lk s = (Inl (Panic ''release''), s)"
  by (simp add: release_def)

lemma took_simps [simp]:
  "me (took lk s) = me s" "curproc (took lk s) = curproc s" "kptable (took lk s) = kptable s"
  "sleeplks (took lk s) = sleeplks s" "lk_locked (took lk s) = (lk_locked s)(lk := True)"
  "lk_cpu (took lk s) = (lk_cpu s)(lk := Some (me s))" "ncli (took lk s) = (ncli s)(me s := ncli s (me s) + 1)"
  "iflag (took lk s) = (iflag s)(me s := False)"
  "intena (took lk s) = (if ncli s (me s) = 0 then (intena s)(me s := iflag s (me s)) else intena s)"
  by (simp_all add: took_def)

lemma freed_simps [simp]:
  "me (freed lk s) = me s" "curproc (freed lk s) = curproc s" "kptable (freed lk s) = kptable s"
  "sleeplks (freed lk s) = sleeplks s" "lk_locked (freed lk s) = (lk_locked s)(lk := False)"
  "lk_cpu (freed lk s) = (lk_cpu s)(lk := None)" "ncli (freed lk s) = (ncli s)(me s := ncli s (me s) - 1)"
  "iflag (freed lk s) = (if ncli s (me s) = 1 then (iflag s)(me s := intena s (me s)) else iflag s)"
  "intena (freed lk s) = intena s"
  by (simp_all add: freed_def)

lemma mod_ptable_simps [simp]:
  "me (mod_ptable f s) = me s" "curproc (mod_ptable f s) = curproc s" "kptable (mod_ptable f s) = f (kptable s)"
  "sleeplks (mod_ptable f s) = sleeplks s" "lk_locked (mod_ptable f s) = lk_locked s" "lk_cpu (mod_ptable f s) = lk_cpu s"
  "ncli (mod_ptable f s) = ncli s" "iflag (mod_ptable f s) = iflag s" "intena (mod_ptable f s) = intena s"
  by (simp_all add: mod_ptable_def)

lemma holding_took [simp]: "holding lk (took lk s)" "lk \<noteq> l \<Longrightarrow> holding lk (took l s) = holding lk s"
  by (simp_all add: holding_def)

lemma holding_freed [simp]: "lk \<noteq> l \<Longrightarrow> holding lk (freed l s) = holding lk s"
  by (simp add: holding_def)

lemma holding_mod_ptable [simp]: "holding lk (mod_ptable f s) = holding lk s"
  by (simp add: holding_def)

lemma cpu_ok_took [simp]: "cpu_ok s \<Longrightarrow> cpu_ok (took lk s)"
  by (simp add: cpu_ok_def)

lemma cpu_ok_mod_ptable [simp]: "cpu_ok (mod_ptable f s) = cpu_ok s"
  by (simp add: cpu_ok_def)

lemma cpu_ok_freed: "cpu_ok s \<Longrightarrow> 0 < ncli s (me s) \<Longrightarrow> cpu_ok (freed lk s)"
  by (auto simp: cpu_ok_def)

text \<open>A table update in a critical section of the table lock, as in \<open>wakeup\<close>.\<close>

lemma wakeup_ok:
  assumes "\<not> lk_locked s PtableLock" "cpu_ok s"
  shows "wakeup c s = (Inr (), freed PtableLock (mod_ptable (wakeup1 c) (took PtableLock s)))"
proof -
  have "release PtableLock (mod_ptable (wakeup1 c) (took PtableLock s))
     = (Inr (), freed PtableLock (mod_ptable (wakeup1 c) (took PtableLock s)))"
    by (rule release_held) (use assms in \<open>auto simp: cpu_ok_def\<close>)
  then show ?thesis using assms(1) by (simp add: wakeup_def acquire_free)
qed

lemma sched_cases:
  assumes "holding PtableLock s" "the_proc s = Some p" "p_state (pt_proc (kptable s) p) \<noteq> RUNNING" "\<not> iflag s (me s)"
  shows "sched s = (if ncli s (me s) = 1 then (Inl Swtch, s) else (Inl (Panic ''sched locks''), s))"
  using assms by (simp add: sched_def)

section \<open>Properties\<close>



text \<open>
  C29. \<^const>\<open>acquire\<close> and \<^const>\<open>release\<close> bracket: around any nesting, taking a free lock and
  releasing it succeeds and leaves the interrupt flag, the nesting count and all locks as they
  were; taking a lock twice and releasing a lock not held panic.
\<close>

theorem acquire_release_bracket:
  assumes "cpu_ok s" "\<not> lk_locked s lk"
  shows "\<exists>t u. acquire lk s = (Inr (), t) \<and> holding lk t \<and> \<not> iflag t (me t)
     \<and> release lk t = (Inr (), u) \<and> lk_locked u = lk_locked s \<and> ncli u = ncli s \<and> iflag u = iflag s
     \<and> kptable u = kptable s \<and> curproc u = curproc s
     \<and> fst (acquire lk t) = Inl (Panic ''acquire'') \<and> release lk u = (Inl (Panic ''release''), u)"
proof -
  let ?t = "took lk s"
  have r: "release lk ?t = (Inr (), freed lk ?t)"
    by (rule release_held) (use assms in \<open>auto simp: cpu_ok_def\<close>)
  have "lk_locked (freed lk ?t) = lk_locked s" using assms(2) by (auto simp: fun_eq_iff)
  moreover have "iflag (freed lk ?t) = iflag s" using assms(1) by (auto simp: fun_eq_iff cpu_ok_def)
  moreover have "\<not> holding lk (freed lk ?t)" by (simp add: holding_def)
  ultimately show ?thesis using acquire_free [OF assms(2)] r acquire_again [of lk ?t] release_not_held [of lk]
    by (intro exI [of _ ?t] exI [of _ "freed lk ?t"]) simp
qed

definition ksync_idle :: "ptable \<Rightarrow> ksync" where
  "ksync_idle pt = \<lparr>me = 0, ncli = (\<lambda>_. 0), intena = (\<lambda>_. False), iflag = (\<lambda>_. True), curproc = (\<lambda>_. None),
     lk_locked = (\<lambda>_. False), lk_cpu = (\<lambda>_. None), sleeplks = (\<lambda>_. \<lparr>sl_locked = False, sl_pid = 0\<rparr>), kptable = pt\<rparr>"

theorem acquire_release_bracket_witness:
  "\<exists>t u. acquire LogLock (ksync_idle ptable_zero) = (Inr (), t) \<and> release LogLock t = (Inr (), u)
     \<and> ncli u = (\<lambda>_. 0) \<and> fst (acquire LogLock t) = Inl (Panic ''acquire'')"
proof -
  have "cpu_ok (ksync_idle ptable_zero)" "\<not> lk_locked (ksync_idle ptable_zero) LogLock"
    by (simp_all add: ksync_idle_def cpu_ok_def)
  from acquire_release_bracket [OF this] show ?thesis by (auto simp: ksync_idle_def)
qed

text \<open>
  C30. \<^const>\<open>sleep\<close> with a lock other than the table lock: the lock is given up, the process is
  marked as sleeping on the channel under the table lock, and control goes to the scheduler if
  and only if the caller held no further lock; otherwise the kernel panics.
\<close>

theorem sleep_correct:
  assumes p: "the_proc s = Some p" and l: "l \<noteq> PtableLock" "holding l s"
    and pt: "\<not> lk_locked s PtableLock" and ok: "cpu_ok s" "0 < ncli s (me s)"
  shows "\<exists>t. sleep c (Some l) s = (if ncli s (me s) = 1 then (Inl Swtch, t) else (Inl (Panic ''sched locks''), t))
     \<and> \<not> lk_locked t l \<and> holding PtableLock t
     \<and> p_state (pt_proc (kptable t) p) = SLEEPING \<and> p_chan (pt_proc (kptable t) p) = Some c
     \<and> (\<forall>i. i \<noteq> p \<longrightarrow> pt_proc (kptable t) i = pt_proc (kptable s) i)"
proof -
  let ?a = "took PtableLock s"
  let ?b = "freed l ?a"
  let ?t = "mod_ptable (upd_proc p (\<lambda>x. x\<lparr>p_chan := Some c, p_state := SLEEPING\<rparr>)) ?b"
  have rel: "release l ?a = (Inr (), ?b)"
    by (rule release_held) (use assms in \<open>auto simp: cpu_ok_def\<close>)
  have h: "holding PtableLock ?t" using l(1) by (simp add: holding_def)
  have "sched ?t = (if ncli ?t (me ?t) = 1 then (Inl Swtch, ?t) else (Inl (Panic ''sched locks''), ?t))"
    by (rule sched_cases [OF h, of p]) (use p ok in \<open>auto simp: cpu_ok_def\<close>)
  then have "sleep c (Some l) s = (if ncli s (me s) = 1 then (Inl Swtch, ?t) else (Inl (Panic ''sched locks''), ?t))"
    using p l(1) acquire_free [OF pt] rel by (simp add: sleep_def bindK_apply)
  then show ?thesis using h by (intro exI [of _ ?t]) simp
qed

theorem sleep_correct_witness:
  "\<exists>t. sleep TicksChan (Some TicksLock)
     ((ksync_idle ptable_zero)\<lparr>ncli := (\<lambda>_. 1), iflag := (\<lambda>_. False), curproc := (\<lambda>_. Some 5),
        lk_locked := (\<lambda>l. l = TicksLock), lk_cpu := (\<lambda>l. if l = TicksLock then Some 0 else None)\<rparr>) = (Inl Swtch, t)
     \<and> \<not> lk_locked t TicksLock"
proof -
  let ?s = "(ksync_idle ptable_zero)\<lparr>ncli := (\<lambda>_. 1), iflag := (\<lambda>_. False), curproc := (\<lambda>_. Some 5),
        lk_locked := (\<lambda>l. l = TicksLock), lk_cpu := (\<lambda>l. if l = TicksLock then Some 0 else None)\<rparr>"
  have "\<exists>t. sleep TicksChan (Some TicksLock) ?s
       = (if ncli ?s (me ?s) = 1 then (Inl Swtch, t) else (Inl (Panic ''sched locks''), t))
     \<and> \<not> lk_locked t TicksLock \<and> holding PtableLock t
     \<and> p_state (pt_proc (kptable t) 5) = SLEEPING \<and> p_chan (pt_proc (kptable t) 5) = Some TicksChan
     \<and> (\<forall>i. i \<noteq> 5 \<longrightarrow> pt_proc (kptable t) i = pt_proc (kptable ?s) i)"
    by (rule sleep_correct) (simp_all add: ksync_idle_def holding_def cpu_ok_def)
  then show ?thesis by auto
qed

text \<open>The processor runs process \<open>p\<close> and no lock is taken.\<close>

definition quiet :: "nat \<Rightarrow> 'z ksync_scheme \<Rightarrow> bool" where
  "quiet p s \<longleftrightarrow> the_proc s = Some p \<and> (\<forall>lk. \<not> lk_locked s lk) \<and> ncli s (me s) = 0"

text \<open>Whoever sleeps on the lock sleeps because it is taken.\<close>

definition sleepers_wait :: "slock \<Rightarrow> 'z ksync_scheme \<Rightarrow> bool" where
  "sleepers_wait l s \<longleftrightarrow> (\<forall>i<NPROC. p_state (pt_proc (kptable s) i) = SLEEPING
     \<longrightarrow> p_chan (pt_proc (kptable s) i) = Some (SleepChan l) \<longrightarrow> sl_locked (sleeplks s l))"

lemma acquiresleep_loop_free:
  assumes "\<not> sl_locked (sleeplks s l)" "the_proc s = Some p" "holding (SleepLk l) s" "cpu_ok s" "0 < ncli s (me s)"
  shows "acquiresleep_loop l s = (Inr (), freed (SleepLk l)
     (s\<lparr>sleeplks := (sleeplks s)(l := \<lparr>sl_locked = True, sl_pid = p_pid (pt_proc (kptable s) p)\<rparr>)\<rparr>))"
proof -
  let ?t = "s\<lparr>sleeplks := (sleeplks s)(l := \<lparr>sl_locked = True, sl_pid = p_pid (pt_proc (kptable s) p)\<rparr>)\<rparr>"
  have "release (SleepLk l) ?t = (Inr (), freed (SleepLk l) ?t)"
    by (rule release_held) (use assms in \<open>auto simp: cpu_ok_def holding_def\<close>)
  then show ?thesis using assms(1,2) by (simp add: acquiresleep_loop_def)
qed

lemma acquiresleep_free:
  assumes q: "quiet p s" and free: "\<not> sl_locked (sleeplks s l)"
  shows "\<exists>t. acquiresleep l s = (Inr (), t) \<and> kptable t = kptable s \<and> (\<forall>lk. \<not> lk_locked t lk) \<and> ncli t = ncli s
    \<and> sleeplks t = (sleeplks s)(l := \<lparr>sl_locked = True, sl_pid = p_pid (pt_proc (kptable s) p)\<rparr>)"
proof -
  let ?a = "took (SleepLk l) s"
  let ?t = "freed (SleepLk l) (?a\<lparr>sleeplks := (sleeplks ?a)(l := \<lparr>sl_locked = True, sl_pid = p_pid (pt_proc (kptable ?a) p)\<rparr>)\<rparr>)"
  have "acquiresleep_loop l ?a = (Inr (), ?t)"
    by (rule acquiresleep_loop_free) (use q free in \<open>auto simp: quiet_def cpu_ok_def\<close>)
  moreover have "acquire (SleepLk l) s = (Inr (), ?a)" using q by (intro acquire_free) (simp add: quiet_def)
  ultimately have "acquiresleep l s = (Inr (), ?t)" by (simp add: acquiresleep_def)
  then show ?thesis using q by (intro exI [of _ ?t]) (auto simp: quiet_def fun_eq_iff)
qed

lemma acquiresleep_taken:
  assumes q: "quiet p s" and l: "sl_locked (sleeplks s l)"
  shows "\<exists>t. acquiresleep l s = (Inl Swtch, t) \<and> sleeplks t = sleeplks s
    \<and> p_state (pt_proc (kptable t) p) = SLEEPING \<and> p_chan (pt_proc (kptable t) p) = Some (SleepChan l)
    \<and> (\<forall>i. i \<noteq> p \<longrightarrow> pt_proc (kptable t) i = pt_proc (kptable s) i)"
proof -
  let ?a = "took (SleepLk l) s"
  let ?b = "freed (SleepLk l) (took PtableLock ?a)"
  let ?t = "mod_ptable (upd_proc p (\<lambda>x. x\<lparr>p_chan := Some (SleepChan l), p_state := SLEEPING\<rparr>)) ?b"
  have a: "acquire (SleepLk l) s = (Inr (), ?a)" "acquire PtableLock ?a = (Inr (), took PtableLock ?a)"
    using q by (simp_all add: acquire_free quiet_def)
  have r: "release (SleepLk l) (took PtableLock ?a) = (Inr (), ?b)"
    by (rule release_held) (use q in \<open>auto simp: quiet_def cpu_ok_def\<close>)
  have h: "holding PtableLock ?t" by (simp add: holding_def)
  have "sched ?t = (if ncli ?t (me ?t) = 1 then (Inl Swtch, ?t) else (Inl (Panic ''sched locks''), ?t))"
    by (rule sched_cases [OF h, of p]) (use q in \<open>auto simp: quiet_def\<close>)
  then have "acquiresleep l s = (Inl Swtch, ?t)"
    using a r q l by (simp add: acquiresleep_def acquiresleep_loop_def sleep_def quiet_def)
  then show ?thesis by (intro exI [of _ ?t]) simp
qed

lemma releasesleep_ok:
  assumes q: "quiet p s"
  shows "\<exists>t. releasesleep l s = (Inr (), t) \<and> kptable t = wakeup1 (SleepChan l) (kptable s)
    \<and> sleeplks t = (sleeplks s)(l := \<lparr>sl_locked = False, sl_pid = 0\<rparr>) \<and> (\<forall>lk. \<not> lk_locked t lk)"
proof -
  let ?a = "took (SleepLk l) s"
  let ?b = "?a\<lparr>sleeplks := (sleeplks ?a)(l := \<lparr>sl_locked = False, sl_pid = 0\<rparr>)\<rparr>"
  let ?c = "freed PtableLock (mod_ptable (wakeup1 (SleepChan l)) (took PtableLock ?b))"
  have a: "acquire (SleepLk l) s = (Inr (), ?a)" using q by (simp add: acquire_free quiet_def)
  have w: "wakeup (SleepChan l) ?b = (Inr (), ?c)"
    by (rule wakeup_ok) (use q in \<open>auto simp: quiet_def cpu_ok_def\<close>)
  have r: "release (SleepLk l) ?c = (Inr (), freed (SleepLk l) ?c)"
    by (rule release_held) (use q in \<open>auto simp: quiet_def cpu_ok_def holding_def\<close>)
  have "releasesleep l s = (Inr (), freed (SleepLk l) ?c)" using a w r by (simp add: releasesleep_def)
  then show ?thesis using q by (intro exI [of _ "freed (SleepLk l) ?c"]) (auto simp: quiet_def)
qed

text \<open>
  C31. Sleep locks: \<^const>\<open>acquiresleep\<close> takes a free lock for the caller and returns with all spin
  locks released; on a taken lock it puts the caller to sleep on it and switches away;
  \<^const>\<open>releasesleep\<close> frees the lock and wakes every process that sleeps on it. No wakeup is
  lost: if every sleeper waits for a taken lock before, it does so after either operation.
\<close>

theorem sleeplock_correct:
  assumes q: "quiet p s" and w: "sleepers_wait l s"
  shows "(\<exists>t. acquiresleep l s = (if sl_locked (sleeplks s l) then Inl Swtch else Inr (), t)
       \<and> sl_locked (sleeplks t l) \<and> sleepers_wait l t
       \<and> (if sl_locked (sleeplks s l)
          then p_state (pt_proc (kptable t) p) = SLEEPING \<and> p_chan (pt_proc (kptable t) p) = Some (SleepChan l)
          else kptable t = kptable s \<and> sl_pid (sleeplks t l) = p_pid (pt_proc (kptable s) p) \<and> (\<forall>lk. \<not> lk_locked t lk)))
    \<and> (\<exists>t. releasesleep l s = (Inr (), t) \<and> \<not> sl_locked (sleeplks t l) \<and> sleepers_wait l t
       \<and> (\<forall>lk. \<not> lk_locked t lk)
       \<and> (\<forall>i<NPROC. p_state (pt_proc (kptable s) i) = SLEEPING \<longrightarrow> p_chan (pt_proc (kptable s) i) = Some (SleepChan l)
            \<longrightarrow> p_state (pt_proc (kptable t) i) = RUNNABLE))"
proof (intro conjI)
  show "\<exists>t. acquiresleep l s = (if sl_locked (sleeplks s l) then Inl Swtch else Inr (), t)
       \<and> sl_locked (sleeplks t l) \<and> sleepers_wait l t
       \<and> (if sl_locked (sleeplks s l)
          then p_state (pt_proc (kptable t) p) = SLEEPING \<and> p_chan (pt_proc (kptable t) p) = Some (SleepChan l)
          else kptable t = kptable s \<and> sl_pid (sleeplks t l) = p_pid (pt_proc (kptable s) p) \<and> (\<forall>lk. \<not> lk_locked t lk))"
  proof (cases "sl_locked (sleeplks s l)")
    case True
    from acquiresleep_taken [OF q True] obtain t where t: "acquiresleep l s = (Inl Swtch, t)" "sleeplks t = sleeplks s"
      "p_state (pt_proc (kptable t) p) = SLEEPING" "p_chan (pt_proc (kptable t) p) = Some (SleepChan l)" by blast
    then show ?thesis using True by (intro exI [of _ t]) (simp add: sleepers_wait_def)
  next
    case False
    from acquiresleep_free [OF q False] obtain t where t: "acquiresleep l s = (Inr (), t)" "kptable t = kptable s"
      "\<forall>lk. \<not> lk_locked t lk"
      "sleeplks t = (sleeplks s)(l := \<lparr>sl_locked = True, sl_pid = p_pid (pt_proc (kptable s) p)\<rparr>)" by blast
    then show ?thesis using False by (intro exI [of _ t]) (simp add: sleepers_wait_def)
  qed
  from releasesleep_ok [OF q, of l] obtain t where t: "releasesleep l s = (Inr (), t)"
    "kptable t = wakeup1 (SleepChan l) (kptable s)" "sleeplks t = (sleeplks s)(l := \<lparr>sl_locked = False, sl_pid = 0\<rparr>)"
    "\<forall>lk. \<not> lk_locked t lk" by blast
  then show "\<exists>t. releasesleep l s = (Inr (), t) \<and> \<not> sl_locked (sleeplks t l) \<and> sleepers_wait l t
       \<and> (\<forall>lk. \<not> lk_locked t lk)
       \<and> (\<forall>i<NPROC. p_state (pt_proc (kptable s) i) = SLEEPING \<longrightarrow> p_chan (pt_proc (kptable s) i) = Some (SleepChan l)
            \<longrightarrow> p_state (pt_proc (kptable t) i) = RUNNABLE)"
    by (intro exI [of _ t]) (auto simp: sleepers_wait_def wakeup1_eq)
qed

theorem sleeplock_correct_witness:
  "\<exists>t. acquiresleep (InodeSleep 3) ((ksync_idle ptable_zero)\<lparr>curproc := (\<lambda>_. Some 5)\<rparr>) = (Inr (), t)
     \<and> sl_locked (sleeplks t (InodeSleep 3))"
proof -
  let ?s = "(ksync_idle ptable_zero)\<lparr>curproc := (\<lambda>_. Some 5)\<rparr>"
  have "quiet 5 ?s" "sleepers_wait (InodeSleep 3) ?s"
    by (simp_all add: ksync_idle_def quiet_def sleepers_wait_def ptable_zero_def proc_zero_def)
  from sleeplock_correct [OF this] show ?thesis by (auto simp: ksync_idle_def)
qed



end
