(* ===== verification/Pipe.thy ===== *)
theory Pipe
  imports Byte_Queue Proc_Table "HOL-Library.Sublist"
begin

text \<open>
  Pipes (\<open>pipe.c\<close>): a ring buffer of 512 bytes with free-running 32-bit counters. The operations
  work on one pipe, number \<open>a\<close>, and the process table, in which they put the calling process
  to sleep and wake others. The code between two sleeps runs under the lock of the pipe and is
  one atomic action; a result \<open>WSleep\<close> or \<open>RSleep\<close> says that the caller went to sleep, and for a
  writer which bytes are left. When it wakes up, the loop is entered again with them.
\<close>

section \<open>Operations\<close>

definition PIPESIZE :: nat where "PIPESIZE = 512"

record pipe =
  pp_data :: "nat \<Rightarrow> u8"
  nread :: u32
  nwrite :: u32
  readopen :: bool
  writeopen :: bool

text \<open>The fields that \<open>pipealloc\<close> sets; the buffer holds what the page held.\<close>

definition pipe_init :: "(nat \<Rightarrow> u8) \<Rightarrow> pipe" where
  "pipe_init d = \<lparr>pp_data = d, nread = 0, nwrite = 0, readopen = True, writeopen = True\<rparr>"

definition pipe_put :: "u8 \<Rightarrow> pipe \<Rightarrow> pipe" where
  "pipe_put b p = p\<lparr>pp_data := (pp_data p)(unat (nwrite p) mod PIPESIZE := b), nwrite := nwrite p + 1\<rparr>"

definition pipe_get :: "pipe \<Rightarrow> u8 \<times> pipe" where
  "pipe_get p = (pp_data p (unat (nread p) mod PIPESIZE), p\<lparr>nread := nread p + 1\<rparr>)"

definition pipe_full :: "pipe \<Rightarrow> bool" where
  "pipe_full p \<longleftrightarrow> nwrite p = nread p + of_nat PIPESIZE"

definition sleep_on :: "nat \<Rightarrow> chan \<Rightarrow> ptable \<Rightarrow> ptable" where
  "sleep_on cur c = upd_proc cur (\<lambda>x. x\<lparr>p_chan := Some c, p_state := SLEEPING\<rparr>)"

datatype write_result = WRet int | WSleep "u8 list"
datatype read_result = RRet int "u8 list" | RSleep

fun pipewrite_loop :: "nat \<Rightarrow> nat \<Rightarrow> int \<Rightarrow> u8 list \<Rightarrow> pipe \<Rightarrow> ptable \<Rightarrow> write_result \<times> pipe \<times> ptable" where
  "pipewrite_loop a cur n [] p t = (WRet n, p, wakeup1 (PipeReadChan a) t)"
| "pipewrite_loop a cur n (b # bs) p t =
     (if pipe_full p then
        (if \<not> readopen p \<or> p_killed (pt_proc t cur) then (WRet (- 1), p, t)
         else (WSleep (b # bs), p, sleep_on cur (PipeWriteChan a) (wakeup1 (PipeReadChan a) t)))
      else pipewrite_loop a cur n bs (pipe_put b p) t)"

definition pipewrite :: "nat \<Rightarrow> nat \<Rightarrow> u8 list \<Rightarrow> pipe \<Rightarrow> ptable \<Rightarrow> write_result \<times> pipe \<times> ptable" where
  "pipewrite a cur addr p t = pipewrite_loop a cur (int (length addr)) addr p t"

fun piperead_copy :: "nat \<Rightarrow> pipe \<Rightarrow> u8 list \<times> pipe" where
  "piperead_copy 0 p = ([], p)"
| "piperead_copy (Suc n) p =
     (if nread p = nwrite p then ([], p)
      else let (b, q) = pipe_get p; (bs, r) = piperead_copy n q in (b # bs, r))"

definition piperead :: "nat \<Rightarrow> nat \<Rightarrow> int \<Rightarrow> pipe \<Rightarrow> ptable \<Rightarrow> read_result \<times> pipe \<times> ptable" where
  "piperead a cur n p t =
     (if nread p = nwrite p \<and> writeopen p then
        (if p_killed (pt_proc t cur) then (RRet (- 1) [], p, t)
         else (RSleep, p, sleep_on cur (PipeReadChan a) t))
      else let (bs, q) = piperead_copy (nat n) p
           in (RRet (int (length bs)) bs, q, wakeup1 (PipeWriteChan a) t))"

text \<open>The first component of \<open>pipeclose\<close> says whether the page of the pipe is freed.\<close>

definition pipeclose :: "nat \<Rightarrow> bool \<Rightarrow> pipe \<Rightarrow> ptable \<Rightarrow> bool \<times> pipe \<times> ptable" where
  "pipeclose a writable p t =
     (let (q, u) = (if writable then (p\<lparr>writeopen := False\<rparr>, wakeup1 (PipeReadChan a) t)
                    else (p\<lparr>readopen := False\<rparr>, wakeup1 (PipeWriteChan a) t))
      in (\<not> readopen q \<and> \<not> writeopen q, q, u))"

section \<open>The pipe as a byte queue\<close>

definition pipe_contents :: "pipe \<Rightarrow> u8 list" where
  "pipe_contents p = ring PIPESIZE (pp_data p) (nread p) (nwrite p)"

definition pipe_ok :: "pipe \<Rightarrow> bool" where
  "pipe_ok p \<longleftrightarrow> unat (nwrite p - nread p) \<le> PIPESIZE"

lemma PIPESIZE_dvd: "PIPESIZE dvd 2 ^ 32"
  by (simp add: PIPESIZE_def)

lemma pipe_ok_iff: "pipe_ok p \<longleftrightarrow> length (pipe_contents p) \<le> PIPESIZE"
  by (simp add: pipe_contents_def pipe_ok_def)

interpretation pipe_queue: byte_queue pipe_put pipe_get pipe_contents pipe_ok PIPESIZE
proof unfold_locales
  show "length (pipe_contents p) \<le> PIPESIZE" if "pipe_ok p" for p
    using that by (simp add: pipe_contents_def pipe_ok_def)
  show "pipe_ok (pipe_put b p) \<and> pipe_contents (pipe_put b p) = pipe_contents p @ [b]"
    if "pipe_ok p" "length (pipe_contents p) < PIPESIZE" for p b
  proof -
    have "unat (nwrite p - nread p) < PIPESIZE" using that(2) by (simp add: pipe_contents_def)
    then have c: "pipe_contents (pipe_put b p) = pipe_contents p @ [b]"
      using ring_put [OF PIPESIZE_dvd, of "nwrite p" "nread p" "pp_data p" b]
      by (simp add: pipe_contents_def pipe_put_def PIPESIZE_def)
    then have "length (pipe_contents (pipe_put b p)) \<le> PIPESIZE" using that(2) by simp
    then show ?thesis using c by (simp add: pipe_contents_def pipe_ok_def)
  qed
  show "fst (pipe_get p) = b \<and> pipe_ok (snd (pipe_get p)) \<and> pipe_contents (snd (pipe_get p)) = bs"
    if "pipe_ok p" "pipe_contents p = b # bs" for p b bs
  proof -
    note g = ring_get [OF that(2) [unfolded pipe_contents_def]]
    have c: "pipe_contents (snd (pipe_get p)) = bs" using g by (simp add: pipe_contents_def pipe_get_def)
    have "length (pipe_contents p) \<le> PIPESIZE" using that(1) by (simp add: pipe_contents_def pipe_ok_def)
    then have "length (pipe_contents (snd (pipe_get p))) \<le> PIPESIZE" using c that(2) by simp
    then show ?thesis using g c by (simp add: pipe_ok_iff) (simp add: pipe_get_def)
  qed
qed

lemma pipe_full_iff:
  assumes "pipe_ok p"
  shows "pipe_full p \<longleftrightarrow> length (pipe_contents p) = PIPESIZE"
proof
  assume "pipe_full p"
  then have "nwrite p - nread p = 512" by (simp add: pipe_full_def PIPESIZE_def)
  then show "length (pipe_contents p) = PIPESIZE" by (simp add: pipe_contents_def PIPESIZE_def)
next
  assume "length (pipe_contents p) = PIPESIZE"
  then have "unat (nwrite p - nread p) = 512" by (simp add: pipe_contents_def PIPESIZE_def)
  then have "nwrite p - nread p = 512" by (simp add: word_unat_eq_iff)
  then have "nwrite p = nread p + 512" by (metis add.commute diff_add_cancel)
  then show "pipe_full p" by (simp add: pipe_full_def PIPESIZE_def)
qed

lemma pipe_empty_iff: "nread p = nwrite p \<longleftrightarrow> pipe_contents p = []"
proof -
  have "pipe_contents p = [] \<longleftrightarrow> unat (nwrite p - nread p) = 0"
    unfolding pipe_contents_def by (metis length_0_conv length_ring)
  then show ?thesis by (auto simp: unat_eq_0)
qed

section \<open>Writing and reading\<close>

lemma pipe_put_fields [simp]:
  "readopen (pipe_put b p) = readopen p" "writeopen (pipe_put b p) = writeopen p"
  by (simp_all add: pipe_put_def)

definition wakes :: "chan \<Rightarrow> ptable \<Rightarrow> bool" where
  "wakes c t \<longleftrightarrow> (\<forall>i<NPROC. \<not> (p_state (pt_proc t i) = SLEEPING \<and> p_chan (pt_proc t i) = Some c))"

lemma wakes_wakeup1: "wakes c (wakeup1 c t)"
  by (auto simp: wakes_def wakeup1_eq)

lemma wakes_sleep_on: "c \<noteq> d \<Longrightarrow> wakes c t \<Longrightarrow> wakes c (sleep_on cur d t)"
  by (auto simp: wakes_def sleep_on_def upd_proc_def)

lemma pipewrite_loop_spec:
  assumes "pipe_ok p"
  shows "let (r, q, u) = pipewrite_loop a cur n bs p t; room = PIPESIZE - length (pipe_contents p) in
     pipe_ok q \<and> pipe_contents q = pipe_contents p @ take room bs \<and>
     readopen q = readopen p \<and> writeopen q = writeopen p \<and>
     (if length bs \<le> room then r = WRet n \<and> u = wakeup1 (PipeReadChan a) t
      else if \<not> readopen p \<or> p_killed (pt_proc t cur) then r = WRet (- 1) \<and> u = t
      else r = WSleep (drop room bs) \<and> u = sleep_on cur (PipeWriteChan a) (wakeup1 (PipeReadChan a) t))"
  using assms
proof (induction bs arbitrary: p)
  case Nil
  then show ?case by simp
next
  case (Cons b bs)
  show ?case
  proof (cases "pipe_full p")
    case True
    then have "PIPESIZE - length (pipe_contents p) = 0" using pipe_full_iff [OF Cons.prems] by simp
    with True Cons.prems show ?thesis by simp
  next
    case False
    then have lt: "length (pipe_contents p) < PIPESIZE"
      using pipe_full_iff [OF Cons.prems] Cons.prems by (simp add: pipe_ok_iff)
    then have room: "PIPESIZE - length (pipe_contents p) = Suc (PIPESIZE - length (pipe_contents p @ [b]))"
      by simp
    have ok: "pipe_ok (pipe_put b p)" and c: "pipe_contents (pipe_put b p) = pipe_contents p @ [b]"
      using pipe_queue.put_ok [OF Cons.prems lt] by blast+
    from Cons.IH [OF ok] show ?thesis
      unfolding room pipewrite_loop.simps(2) by (simp add: False c Let_def split: prod.splits)
  qed
qed

lemma piperead_copy_spec:
  assumes "pipe_ok p"
  shows "let (bs, q) = piperead_copy n p in
     pipe_ok q \<and> bs = take n (pipe_contents p) \<and> pipe_contents q = drop n (pipe_contents p) \<and>
     readopen q = readopen p \<and> writeopen q = writeopen p"
  using assms
proof (induction n arbitrary: p)
  case 0
  then show ?case by simp
next
  case (Suc n)
  show ?case
  proof (cases "pipe_contents p")
    case Nil
    then show ?thesis using Suc.prems pipe_empty_iff by simp
  next
    case (Cons b bs)
    then have ne: "nread p \<noteq> nwrite p" using pipe_empty_iff by simp
    obtain c q where g: "pipe_get p = (c, q)" by fastforce
    with pipe_queue.get_ok [OF Suc.prems Cons]
    have q: "c = b" "pipe_ok q" "pipe_contents q = bs" by simp_all
    have f: "readopen q = readopen p" "writeopen q = writeopen p"
      using g by (auto simp: pipe_get_def)
    from Suc.IH [OF q(2)] show ?thesis
      by (simp add: ne g q f Cons split: prod.splits)
  qed
qed

text \<open>
  A history of a pipe: the pipe and the table with the bytes \<open>W\<close> that writes have stored since
  \<open>pipealloc\<close> and the bytes \<open>R\<close> that reads have returned. Any process may write, read or close
  next, and the table may change in between in any way.
\<close>

definition bytes_of :: "read_result \<Rightarrow> u8 list" where
  "bytes_of r = (case r of RRet n bs \<Rightarrow> bs | RSleep \<Rightarrow> [])"

definition stored :: "u8 list \<Rightarrow> write_result \<Rightarrow> pipe \<Rightarrow> u8 list" where
  "stored bs r p = (case r of
      WSleep rest \<Rightarrow> take (length bs - length rest) bs
    | WRet n \<Rightarrow> if n = - 1 then take (PIPESIZE - length (pipe_contents p)) bs else bs)"

inductive pipe_history :: "nat \<Rightarrow> pipe \<Rightarrow> u8 list \<Rightarrow> u8 list \<Rightarrow> bool" for a :: nat where
  alloc: "pipe_history a (pipe_init d) [] []"
| wr: "pipe_history a p W R \<Longrightarrow> pipewrite a cur bs p t = (r, q, u) \<Longrightarrow>
    pipe_history a q (W @ stored bs r p) R"
| wr_resume: "pipe_history a p W R \<Longrightarrow> 0 \<le> n \<Longrightarrow> pipewrite_loop a cur n bs p t = (r, q, u) \<Longrightarrow>
    pipe_history a q (W @ stored bs r p) R"
| rd: "pipe_history a p W R \<Longrightarrow> piperead a cur n p t = (r, q, u) \<Longrightarrow>
    pipe_history a q W (R @ bytes_of r)"
| cl: "pipe_history a p W R \<Longrightarrow> pipeclose a w p t = (f, q, u) \<Longrightarrow> pipe_history a q W R"

lemma stored_take:
  assumes ok: "pipe_ok p" and n: "0 \<le> n" and w: "pipewrite_loop a cur n bs p t = (r, q, u)"
  shows "stored bs r p = take (PIPESIZE - length (pipe_contents p)) bs"
  using pipewrite_loop_spec [OF ok, of a cur n bs t] n
  by (auto simp: w stored_def Let_def split: if_splits)

lemma piperead_spec:
  assumes "pipe_ok p" and "piperead a cur n p t = (r, q, u)"
  shows "pipe_ok q \<and> pipe_contents p = bytes_of r @ pipe_contents q"
  using assms piperead_copy_spec [OF assms(1), of "nat n"]
  by (auto simp: piperead_def bytes_of_def Let_def split: prod.splits if_splits)

lemma pipe_history_inv: "pipe_history a p W R \<Longrightarrow> pipe_ok p \<and> W = R @ pipe_contents p"
proof (induction rule: pipe_history.induct)
  case (alloc d)
  then show ?case using pipe_empty_iff [of "pipe_init d"] by (simp add: pipe_init_def pipe_ok_iff)
next
  case (wr p W R cur bs t r q u)
  then have ok: "pipe_ok p" and w: "pipewrite_loop a cur (int (length bs)) bs p t = (r, q, u)"
    by (simp_all add: pipewrite_def)
  from pipewrite_loop_spec [OF ok, of a cur "int (length bs)" bs t] w wr.IH stored_take [OF ok _ w]
  show ?case by (simp add: Let_def)
next
  case (wr_resume p W R n cur bs t r q u)
  then have ok: "pipe_ok p" by simp
  from pipewrite_loop_spec [OF ok, of a cur n bs t] wr_resume stored_take [OF ok wr_resume.hyps(2,3)]
  show ?case by (simp add: Let_def)
next
  case (rd p W R cur n t r q u)
  then show ?case using piperead_spec [of p a cur n t r q u] by simp
next
  case (cl p W R w t f q u)
  then have "pp_data q = pp_data p \<and> nread q = nread p \<and> nwrite q = nwrite p"
    by (auto simp: pipeclose_def split: if_splits)
  with cl show ?case by (simp add: pipe_ok_def pipe_contents_def)
qed

text \<open>
  C20. A pipe carries a byte stream. Whatever sequence of writes, resumed writes, reads and closes
  happens on it, by whatever processes, the bytes that reads have returned so far are exactly
  those that writes have stored, in the same order, up to the bytes (512 at most) still in the
  buffer; nothing is lost, repeated or reordered when the 32-bit counters wrap around.
\<close>

theorem pipe_stream_integrity:
  assumes "pipe_history a p W R"
  shows "prefix R W \<and> W = R @ pipe_contents p \<and> length (pipe_contents p) \<le> PIPESIZE"
  using pipe_history_inv [OF assms] by (auto simp: pipe_ok_iff)

theorem pipe_stream_integrity_witness:
  "\<exists>p. pipe_history 0 p [1, 2, 3] [1, 2] \<and> prefix [1, 2] [1, 2, 3::u8]
     \<and> [1, 2, 3] = [1, 2] @ pipe_contents p"
proof -
  define p1 where "p1 = pipe_put 3 (pipe_put 2 (pipe_put 1 (pipe_init (\<lambda>_. 0))))"
  have "pipewrite 0 0 [1, 2, 3] (pipe_init (\<lambda>_. 0)) ptable_zero = (WRet 3, p1, wakeup1 (PipeReadChan 0) ptable_zero)"
    by (simp add: pipewrite_def pipe_full_def pipe_put_def pipe_init_def PIPESIZE_def p1_def)
  from pipe_history.wr [OF pipe_history.alloc this]
  have h1: "pipe_history 0 p1 [1, 2, 3] []" by (simp add: stored_def)
  have p1: "nread p1 = 0" "nwrite p1 = 3" "pp_data p1 0 = 1" "pp_data p1 (Suc 0) = 2"
    by (simp_all add: p1_def pipe_put_def pipe_init_def PIPESIZE_def)
  have "piperead_copy (Suc (Suc 0)) p1 = ([1, 2], p1\<lparr>nread := 2\<rparr>)"
    by (simp add: pipe_get_def p1 PIPESIZE_def)
  then have c: "piperead_copy 2 p1 = ([1, 2], p1\<lparr>nread := 2\<rparr>)" by (simp only: numeral_2_eq_2)
  have "piperead 0 1 2 p1 ptable_zero
      = (RRet 2 [1, 2], p1\<lparr>nread := 2\<rparr>, wakeup1 (PipeWriteChan 0) ptable_zero)"
    by (simp add: piperead_def c p1)
  from pipe_history.rd [OF h1 this]
  have h: "pipe_history 0 (p1\<lparr>nread := 2\<rparr>) [1, 2, 3] [1, 2]" by (simp add: bytes_of_def)
  with pipe_stream_integrity [OF h] show ?thesis by blast
qed

section \<open>Sleeping and waking\<close>

definition sleeps_on :: "ptable \<Rightarrow> nat \<Rightarrow> chan \<Rightarrow> bool" where
  "sleeps_on t i c \<longleftrightarrow> p_state (pt_proc t i) = SLEEPING \<and> p_chan (pt_proc t i) = Some c"

text \<open>Nobody sleeps on a pipe that would serve it.\<close>

definition pipe_waits :: "nat \<Rightarrow> pipe \<Rightarrow> ptable \<Rightarrow> bool" where
  "pipe_waits a p t \<longleftrightarrow>
     (\<forall>i<NPROC. sleeps_on t i (PipeReadChan a) \<longrightarrow> pipe_contents p = [] \<and> writeopen p) \<and>
     (\<forall>i<NPROC. sleeps_on t i (PipeWriteChan a) \<longrightarrow> pipe_full p \<and> readopen p)"

lemma sleeps_on_wakeup1:
  "i < NPROC \<Longrightarrow> sleeps_on (wakeup1 c t) i d \<longleftrightarrow> sleeps_on t i d \<and> d \<noteq> c"
  by (auto simp: sleeps_on_def wakeup1_eq)

lemma sleeps_on_sleep_on:
  "sleeps_on (sleep_on cur c t) i d \<longleftrightarrow> (if i = cur then d = c else sleeps_on t i d)"
  by (auto simp: sleeps_on_def sleep_on_def upd_proc_def)

lemmas sleeps_simps = sleeps_on_wakeup1 sleeps_on_sleep_on pipe_waits_def

lemma pipewrite_waits:
  assumes ok: "pipe_ok p" and wt: "pipe_waits a p t"
    and w: "pipewrite_loop a cur n bs p t = (r, q, u)" and r: "r = WRet (- 1) \<Longrightarrow> pipe_full p" and n: "0 \<le> n"
  shows "pipe_waits a q u"
proof -
  let ?room = "PIPESIZE - length (pipe_contents p)"
  have q: "pipe_ok q" "pipe_contents q = pipe_contents p @ take ?room bs"
    "readopen q = readopen p" "writeopen q = writeopen p"
    and c: "if length bs \<le> ?room then r = WRet n \<and> u = wakeup1 (PipeReadChan a) t
      else if \<not> readopen p \<or> p_killed (pt_proc t cur) then r = WRet (- 1) \<and> u = t
      else r = WSleep (drop ?room bs) \<and> u = sleep_on cur (PipeWriteChan a) (wakeup1 (PipeReadChan a) t)"
    using pipewrite_loop_spec [OF ok, of a cur n bs t] by (simp_all add: w Let_def)
  have full: "pipe_full q" if "pipe_full p \<or> \<not> length bs \<le> ?room"
    using that q ok by (auto simp: pipe_full_iff pipe_ok_iff)
  consider "length bs \<le> ?room" "u = wakeup1 (PipeReadChan a) t"
    | "r = WRet (- 1)" "u = t" "pipe_full p"
    | "\<not> length bs \<le> ?room" "readopen p" "u = sleep_on cur (PipeWriteChan a) (wakeup1 (PipeReadChan a) t)"
    using c r by (auto split: if_splits)
  then show ?thesis
  proof cases
    case 1
    then show ?thesis using wt full q by (auto simp: sleeps_simps)
  next
    case 2
    then have "length (pipe_contents p) = PIPESIZE" using pipe_full_iff [OF ok] by simp
    with 2 show ?thesis using wt full q by (auto simp: sleeps_simps)
  next
    case 3
    then show ?thesis using wt full q by (auto simp: sleeps_simps)
  qed
qed

lemma pipe_empty_not_full: "pipe_ok p \<Longrightarrow> pipe_contents p = [] \<Longrightarrow> \<not> pipe_full p"
  by (simp add: pipe_full_iff PIPESIZE_def)

lemma piperead_waits:
  assumes ok: "pipe_ok p" and wt: "pipe_waits a p t" and w: "piperead a cur n p t = (r, q, u)"
  shows "pipe_waits a q u"
proof (cases "nread p = nwrite p \<and> writeopen p")
  case True
  then have e: "pipe_contents p = []" using pipe_empty_iff by blast
  have "q = p" "u = t \<or> u = sleep_on cur (PipeReadChan a) t"
    using w True by (auto simp: piperead_def split: if_splits)
  then show ?thesis using wt True e pipe_empty_not_full [OF ok e]
    by (auto simp: sleeps_simps split: if_splits)
next
  case False
  then have "pipe_contents p \<noteq> [] \<or> \<not> writeopen p" using pipe_empty_iff by blast
  moreover obtain bs where "piperead_copy (nat n) p = (bs, q)" "u = wakeup1 (PipeWriteChan a) t"
    using w False by (auto simp: piperead_def split: prod.splits)
  moreover have "writeopen q = writeopen p" using piperead_copy_spec [OF ok, of "nat n"] calculation(2) by simp
  ultimately show ?thesis using wt by (auto simp: sleeps_simps)
qed

lemma pipeclose_waits:
  assumes ok: "pipe_ok p" and wt: "pipe_waits a p t" and w: "pipeclose a wr p t = (f, q, u)"
  shows "pipe_waits a q u"
proof -
  have "pipe_contents q = pipe_contents p" "pipe_full q = pipe_full p"
    using w by (auto simp: pipeclose_def pipe_contents_def pipe_full_def split: if_splits)
  then show ?thesis using wt w by (auto simp: pipeclose_def sleeps_simps split: if_splits)
qed

text \<open>
  C21. No wakeup is lost on a pipe: a process asleep in \<open>piperead\<close> faces an empty pipe with an open
  write end and one asleep in \<open>pipewrite\<close> a full pipe with an open read end, and every operation
  keeps it so: a read, a close, and a write (or the rest of one, after a sleep) that either
  succeeds, goes to sleep, or fails without having stored a byte.
\<close>

theorem pipe_no_lost_wakeup:
  assumes "pipe_history a p W R" and "pipe_waits a p t"
  shows "(\<forall>cur n. case piperead a cur n p t of (r, q, u) \<Rightarrow> pipe_waits a q u) \<and>
     (\<forall>w. case pipeclose a w p t of (f, q, u) \<Rightarrow> pipe_waits a q u) \<and>
     (\<forall>cur n bs. case pipewrite_loop a cur (int n) bs p t of
        (r, q, u) \<Rightarrow> r \<noteq> WRet (- 1) \<or> pipe_full p \<longrightarrow> pipe_waits a q u)"
  using pipe_history_inv [OF assms(1)] assms(2)
  by (auto intro: piperead_waits pipeclose_waits pipewrite_waits split: prod.splits)

text \<open>A reader asleep on an empty pipe and, in slot 2, a writer about to write 513 bytes.\<close>

definition pipe_table :: "bool \<Rightarrow> ptable" where
  "pipe_table k = ptable_zero\<lparr>pt_proc := (\<lambda>_. proc_zero)
     (1 := proc_zero\<lparr>p_state := SLEEPING, p_chan := Some (PipeReadChan 0)\<rparr>,
      2 := proc_zero\<lparr>p_state := RUNNING, p_killed := k\<rparr>)\<rparr>"

lemma pipe_init_empty: "pipe_contents (pipe_init d) = []"
  using pipe_empty_iff [of "pipe_init d"] by (simp add: pipe_init_def)

lemma pipe_init_waits: "pipe_waits 0 (pipe_init d) (pipe_table k)"
  unfolding pipe_waits_def pipe_init_empty
  by (simp add: pipe_init_def sleeps_on_def pipe_table_def ptable_zero_def proc_zero_def)

theorem pipe_no_lost_wakeup_witness:
  "case pipewrite_loop 0 2 1 [7] (pipe_init (\<lambda>_. 0)) (pipe_table False) of
     (r, q, u) \<Rightarrow> r = WRet 1 \<and> pipe_waits 0 q u"
proof -
  have r: "fst (pipewrite_loop 0 2 1 [7] (pipe_init (\<lambda>_. 0)) (pipe_table False)) = WRet 1"
    by (simp add: pipe_init_def pipe_full_def PIPESIZE_def)
  note pipe_no_lost_wakeup [OF pipe_history.alloc pipe_init_waits, of "\<lambda>_. 0" False,
      THEN conjunct2, THEN conjunct2, THEN spec, THEN spec, THEN spec, of 2 1 "[7]"]
  with r show ?thesis by (simp del: pipewrite_loop.simps split: prod.splits)
qed

text \<open>
  The remaining case does lose a wakeup: a killed writer that has filled the pipe returns
  without waking the reader, which stays asleep in front of 512 bytes.
\<close>

theorem pipewrite_killed_strands_reader:
  "case pipewrite 0 2 (replicate 513 7) (pipe_init d) (pipe_table True) of
     (r, q, u) \<Rightarrow> r = WRet (- 1) \<and> length (pipe_contents q) = 512 \<and> sleeps_on u 1 (PipeReadChan 0)"
proof -
  have ok: "pipe_ok (pipe_init d)" by (simp add: pipe_ok_iff pipe_init_empty)
  have k: "p_killed (pt_proc (pipe_table True) 2)" "sleeps_on (pipe_table True) 1 (PipeReadChan 0)"
    by (simp_all add: pipe_table_def sleeps_on_def)
  show ?thesis
    using pipewrite_loop_spec [OF ok, of 0 2 513 "replicate 513 7" "pipe_table True"] k
    by (simp add: pipewrite_def pipe_init_empty PIPESIZE_def Let_def split: prod.splits)
qed

end
