(* ===== verification/Console.thy ===== *)
theory Console
  imports Byte_Queue Proc_Table
begin

text \<open>
  The console (\<open>console.c\<close>): formatted output, the cursor and the memory of the display, and
  the line discipline of the input buffer. Output to the serial line is the list of characters
  sent. \<open>getc\<close> of \<open>consoleintr\<close> is the list of the characters that the device delivers before
  its first negative answer. A reader that goes to sleep returns \<open>CSleep\<close> with what it has
  copied; when it wakes up its loop goes on from there.
\<close>

section \<open>Output\<close>

definition BACKSPACE :: int where "BACKSPACE = 256"

record screen =
  crt :: "nat \<Rightarrow> u16"
  cursor :: int
  uart :: "int list"
  panicked :: bool

text \<open>\<open>(c & 0xff) | 0x0700\<close>: a character in black on white.\<close>

definition glyph :: "int \<Rightarrow> u16" where
  "glyph c = word_of_int (c mod 256 + 0x0700)"

definition cgaputc :: "int \<Rightarrow> (screen, unit) K" where
  "cgaputc c =
     bindK (getK cursor) (\<lambda>pos.
     bindK (if c = 10 then retK (pos + (80 - pos mod 80))
            else if c = BACKSPACE then retK (if 0 < pos then pos - 1 else pos)
            else bindK (modK (\<lambda>s. s\<lparr>crt := (crt s)(nat pos := glyph c)\<rparr>)) (\<lambda>_. retK (pos + 1))) (\<lambda>pos.
     if pos < 0 \<or> 25 * 80 < pos then panicK ''pos under/overflow''
     else
       bindK (if 24 \<le> pos div 80
         then bindK (modK (\<lambda>s. s\<lparr>crt := (\<lambda>i. if i < 23 * 80 then crt s (i + 80) else crt s i)\<rparr>)) (\<lambda>_.
              bindK (modK (\<lambda>s. s\<lparr>crt := (\<lambda>i. if nat (pos - 80) \<le> i \<and> i < 24 * 80 then 0 else crt s i)\<rparr>)) (\<lambda>_.
              retK (pos - 80)))
         else retK pos) (\<lambda>pos.
       modK (\<lambda>s. s\<lparr>cursor := pos, crt := (crt s)(nat pos := glyph 32)\<rparr>))))"

definition uartputc :: "int \<Rightarrow> screen \<Rightarrow> screen" where
  "uartputc c s = s\<lparr>uart := uart s @ [c]\<rparr>"

text \<open>A processor that finds \<open>panicked\<close> set spins for ever.\<close>

definition consputc :: "int \<Rightarrow> (screen, unit) K" where
  "consputc c =
     bindK (getK panicked) (\<lambda>panicked.
     if panicked then stopK Spin
     else
       bindK (modK (if c = BACKSPACE then uartputc 8 \<circ> uartputc 32 \<circ> uartputc 8 else uartputc c)) (\<lambda>_.
       cgaputc c))"

text \<open>
  \<open>printint\<close>: the digits come out lowest first and are printed in reverse. The digit table is
  a parameter, as the kernel prints hexadecimal digits in lower case and \<open>printf.c\<close> in upper case.
\<close>

definition digits_lower :: "nat \<Rightarrow> int" where
  "digits_lower d = (if d < 10 then 48 + int d else 87 + int d)"

function digits_loop :: "(nat \<Rightarrow> int) \<Rightarrow> nat \<Rightarrow> nat \<Rightarrow> int list" where
  "digits_loop digits base x =
     digits (x mod base) # (if base \<le> 1 \<or> x div base = 0 then [] else digits_loop digits base (x div base))"
  by auto
termination
proof (relation "measure (\<lambda>(ds, b, x). x)", simp)
  fix digits :: "nat \<Rightarrow> int" and base x :: nat
  assume "\<not> (base \<le> 1 \<or> x div base = 0)"
  then have "1 < base" "0 < x" by (auto intro: Nat.gr0I)
  then show "((digits, base, x div base), digits, base, x) \<in> measure (\<lambda>(ds, b, x). x)" by simp
qed

definition printint_chars :: "(nat \<Rightarrow> int) \<Rightarrow> u32 \<Rightarrow> nat \<Rightarrow> bool \<Rightarrow> int list" where
  "printint_chars digits xx base sign =
     (let neg = (sign \<and> sint xx < 0); x = (if neg then - xx else xx)
      in rev (digits_loop digits base (unat x) @ (if neg then [45] else [])))"

definition printint :: "u32 \<Rightarrow> nat \<Rightarrow> bool \<Rightarrow> (screen, unit) K" where
  "printint xx base sign = forK (printint_chars digits_lower xx base sign) consputc"

text \<open>
  \<open>cprintf\<close>: the format is the list of its characters before the terminating 0, \<open>argp\<close> the words
  on the stack after it. An argument for \<open>%s\<close> is the address of a string, which \<open>str\<close> reads
  (\<open>None\<close> for the null pointer).
\<close>

fun cprintf_loop :: "(u32 \<Rightarrow> int list option) \<Rightarrow> int list \<Rightarrow> u32 list \<Rightarrow> (screen, unit) K" where
  "cprintf_loop str [] argp = retK ()"
| "cprintf_loop str [c] argp = (if c \<noteq> 37 then consputc c else retK ())"
| "cprintf_loop str (c # d # fmt) argp =
     (if c \<noteq> 37 then bindK (consputc c) (\<lambda>_. cprintf_loop str (d # fmt) argp)
      else if d = 100 then
        (case argp of [] \<Rightarrow> stopK OutOfBounds
         | a # argp \<Rightarrow> bindK (printint a 10 True) (\<lambda>_. cprintf_loop str fmt argp))
      else if d = 120 \<or> d = 112 then
        (case argp of [] \<Rightarrow> stopK OutOfBounds
         | a # argp \<Rightarrow> bindK (printint a 16 False) (\<lambda>_. cprintf_loop str fmt argp))
      else if d = 115 then
        (case argp of [] \<Rightarrow> stopK OutOfBounds
         | a # argp \<Rightarrow>
             bindK (forK (case str a of None \<Rightarrow> [40, 110, 117, 108, 108, 41] | Some s \<Rightarrow> s) consputc)
               (\<lambda>_. cprintf_loop str fmt argp))
      else if d = 37 then bindK (consputc 37) (\<lambda>_. cprintf_loop str fmt argp)
      else bindK (consputc 37) (\<lambda>_. bindK (consputc d) (\<lambda>_. cprintf_loop str fmt argp)))"


declare digits_loop.simps [simp del]

section \<open>The input buffer\<close>

definition INPUT_BUF :: nat where "INPUT_BUF = 128"

record input =
  in_buf :: "nat \<Rightarrow> u8"
  in_r :: u32
  in_w :: u32
  in_e :: u32

text \<open>\<open>input.buf[input.e++ % INPUT_BUF] = c\<close> and \<open>c = input.buf[input.r++ % INPUT_BUF]\<close>.\<close>

definition input_put :: "u8 \<Rightarrow> input \<Rightarrow> input" where
  "input_put c i = i\<lparr>in_buf := (in_buf i)(unat (in_e i) mod INPUT_BUF := c), in_e := in_e i + 1\<rparr>"

definition input_get :: "input \<Rightarrow> u8 \<times> input" where
  "input_get i = (in_buf i (unat (in_r i) mod INPUT_BUF), i\<lparr>in_r := in_r i + 1\<rparr>)"

definition control :: "nat \<Rightarrow> int" where "control x = int x - 64"

text \<open>
  The echo of the characters goes to the screen, see \<^term>\<open>consputc\<close>; here it is the list of the
  characters echoed. The inner loop of \<open>C('U')\<close> moves \<open>e\<close> down to \<open>w\<close> at most.
\<close>

function kill_line :: "input \<Rightarrow> int list \<times> input" where
  "kill_line i =
     (if in_e i \<noteq> in_w i \<and> in_buf i (unat (in_e i - 1) mod INPUT_BUF) \<noteq> 10
      then let (out, j) = kill_line (i\<lparr>in_e := in_e i - 1\<rparr>) in (BACKSPACE # out, j)
      else ([], i))"
  by auto
termination
proof (relation "measure (\<lambda>i. unat (in_e i - in_w i))", simp)
  fix i :: input
  assume "in_e i \<noteq> in_w i \<and> in_buf i (unat (in_e i - 1) mod INPUT_BUF) \<noteq> 10"
  then have "in_e i - in_w i \<noteq> 0" by simp
  then have "unat (in_e i - in_w i - 1) < unat (in_e i - in_w i)"
    by (simp add: unat_minus_one unat_gt_0)
  moreover have eq: "in_e i - 1 - in_w i = in_e i - in_w i - 1" by (simp add: algebra_simps)
  ultimately have "unat (in_e i - 1 - in_w i) < unat (in_e i - in_w i)" by (simp only: eq)
  then show "(i\<lparr>in_e := in_e i - 1\<rparr>, i) \<in> measure (\<lambda>i. unat (in_e i - in_w i))"
    by simp
qed

declare kill_line.simps [simp del]

text \<open>One turn of the loop of \<open>consoleintr\<close>: the echo, whether to dump the processes, the state.\<close>

definition consoleintr_char :: "int \<Rightarrow> input \<Rightarrow> ptable \<Rightarrow> int list \<times> bool \<times> input \<times> ptable" where
  "consoleintr_char c i t =
     (if c = control 80 then ([], True, i, t)
      else if c = control 85 then (let (out, j) = kill_line i in (out, False, j, t))
      else if c = control 72 \<or> c = 127 then
        (if in_e i \<noteq> in_w i then ([BACKSPACE], False, i\<lparr>in_e := in_e i - 1\<rparr>, t) else ([], False, i, t))
      else if c \<noteq> 0 \<and> unat (in_e i - in_r i) < INPUT_BUF then
        let c = (if c = 13 then 10 else c);
            j = input_put (word_of_int c) i
        in if c = 10 \<or> c = control 68 \<or> in_e j = in_r j + of_nat INPUT_BUF
           then ([c], False, j\<lparr>in_w := in_e j\<rparr>, wakeup1 InputChan t)
           else ([c], False, j, t)
      else ([], False, i, t))"

fun consoleintr :: "int list \<Rightarrow> input \<Rightarrow> ptable \<Rightarrow> int list \<times> bool \<times> input \<times> ptable" where
  "consoleintr [] i t = ([], False, i, t)"
| "consoleintr (c # cs) i t =
     (let (o1, d1, i1, t1) = consoleintr_char c i t; (o2, d2, i2, t2) = consoleintr cs i1 t1
      in (o1 @ o2, d1 \<or> d2, i2, t2))"

datatype cons_result = CRet int "u8 list" | CSleep nat "u8 list"

fun consoleread_loop :: "nat \<Rightarrow> nat \<Rightarrow> nat \<Rightarrow> u8 list \<Rightarrow> input \<Rightarrow> ptable \<Rightarrow> cons_result \<times> input \<times> ptable" where
  "consoleread_loop cur target 0 dst i t = (CRet (int target) dst, i, t)"
| "consoleread_loop cur target (Suc n) dst i t =
     (if in_r i = in_w i then
        (if p_killed (pt_proc t cur) then (CRet (- 1) dst, i, t)
         else (CSleep (Suc n) dst, i, upd_proc cur (\<lambda>x. x\<lparr>p_chan := Some InputChan, p_state := SLEEPING\<rparr>) t))
      else
        let (c, j) = input_get i
        in if c = 4 then (CRet (int target - int (Suc n)) dst, if Suc n < target then i else j, t)
           else if c = 10 then (CRet (int target - int n) (dst @ [c]), j, t)
           else consoleread_loop cur target n (dst @ [c]) j t)"

definition consoleread :: "nat \<Rightarrow> int \<Rightarrow> input \<Rightarrow> ptable \<Rightarrow> cons_result \<times> input \<times> ptable" where
  "consoleread cur n i t = consoleread_loop cur (nat n) (nat n) [] i t"

section \<open>Output never leaves the display\<close>







section \<open>Numbers\<close>








section \<open>The line discipline\<close>

lemma ring_unput:
  assumes "e \<noteq> r"
  shows "ring sz d r (e - 1) = butlast (ring sz d r e)"
    and "last (ring sz d r e) = d (unat (e - 1) mod sz)"
proof -
  let ?n = "unat (e - r)"
  have "e - r \<noteq> 0" using assms by simp
  then have n: "unat (e - r - 1) = ?n - 1" "0 < ?n" by (simp_all add: unat_minus_one unat_gt_0)
  have e: "e - 1 - r = e - r - 1" by (simp add: algebra_simps)
  obtain k where k: "?n = Suc k" using n(2) by (cases ?n) auto
  show "ring sz d r (e - 1) = butlast (ring sz d r e)"
    unfolding ring_def e n(1) k by simp
  have "e = r + of_nat ?n" by simp
  then have "e - 1 = r + of_nat k" unfolding k by simp
  then show "last (ring sz d r e) = d (unat (e - 1) mod sz)" unfolding ring_def k by simp
qed

text \<open>The characters between \<open>r\<close> and \<open>e\<close>; those before \<open>w\<close> are lines that readers may take.\<close>

definition input_contents :: "input \<Rightarrow> u8 list" where
  "input_contents i = ring INPUT_BUF (in_buf i) (in_r i) (in_e i)"

definition input_room :: "input \<Rightarrow> bool" where
  "input_room i \<longleftrightarrow> unat (in_e i - in_r i) \<le> INPUT_BUF"

lemma input_room_iff: "input_room i \<longleftrightarrow> length (input_contents i) \<le> INPUT_BUF"
  by (simp add: input_contents_def input_room_def)

interpretation input_queue: byte_queue input_put input_get input_contents input_room INPUT_BUF
proof unfold_locales
  show "length (input_contents i) \<le> INPUT_BUF" if "input_room i" for i
    using that by (simp add: input_room_iff)
  show "input_room (input_put b i) \<and> input_contents (input_put b i) = input_contents i @ [b]"
    if "input_room i" "length (input_contents i) < INPUT_BUF" for i b
  proof -
    have "unat (in_e i - in_r i) < INPUT_BUF" using that(2) by (simp add: input_contents_def)
    then have c: "input_contents (input_put b i) = input_contents i @ [b]"
      using ring_put [of INPUT_BUF "in_e i" "in_r i" "in_buf i" b]
      by (simp add: input_contents_def input_put_def INPUT_BUF_def)
    then show ?thesis using that(2) by (simp add: input_room_iff)
  qed
  show "fst (input_get i) = b \<and> input_room (snd (input_get i)) \<and> input_contents (snd (input_get i)) = bs"
    if "input_room i" "input_contents i = b # bs" for i b bs
  proof -
    note g = ring_get [OF that(2) [unfolded input_contents_def]]
    have c: "input_contents (snd (input_get i)) = bs"
      using g by (simp add: input_contents_def input_get_def)
    then have "length (input_contents (snd (input_get i))) \<le> INPUT_BUF"
      using that by (simp add: input_room_iff)
    then show ?thesis using g(1) c by (simp add: input_room_iff) (simp add: input_get_def)
  qed
qed

definition ready_count :: "input \<Rightarrow> nat" where
  "ready_count i = unat (in_w i - in_r i)"

definition ready :: "input \<Rightarrow> u8 list" where
  "ready i = take (ready_count i) (input_contents i)"

definition editing :: "input \<Rightarrow> u8 list" where
  "editing i = drop (ready_count i) (input_contents i)"

definition input_ok :: "input \<Rightarrow> bool" where
  "input_ok i \<longleftrightarrow> input_room i \<and> ready_count i \<le> length (input_contents i) \<and> 10 \<notin> set (editing i)"

text \<open>What the line discipline means, on the lines ready and the line being edited.\<close>

definition line_char :: "int \<Rightarrow> u8 list \<times> u8 list \<Rightarrow> u8 list \<times> u8 list" where
  "line_char c = (\<lambda>(rd, ed).
     if c = control 80 then (rd, ed)
     else if c = control 85 then (rd, [])
     else if c = control 72 \<or> c = 127 then (rd, butlast ed)
     else if c = 0 \<or> INPUT_BUF \<le> length rd + length ed then (rd, ed)
     else let b = (if c = 13 then 10 else word_of_int c) in
       if b = 10 \<or> b = 4 \<or> length rd + length ed + 1 = INPUT_BUF then (rd @ ed @ [b], [])
       else (rd, ed @ [b]))"

lemma ready_editing: "ready i @ editing i = input_contents i"
  by (simp add: ready_def editing_def)

lemma length_ready: "input_ok i \<Longrightarrow> length (ready i) = ready_count i"
  by (simp add: ready_def input_ok_def)

lemma e_eq_w:
  assumes "input_ok i"
  shows "in_e i = in_w i \<longleftrightarrow> editing i = []"
proof -
  have "editing i = [] \<longleftrightarrow> unat (in_e i - in_r i) \<le> unat (in_w i - in_r i)"
    by (simp add: editing_def input_contents_def ready_count_def)
  also have "\<dots> \<longleftrightarrow> unat (in_e i - in_r i) = unat (in_w i - in_r i)"
    using assms by (auto simp: input_ok_def input_contents_def ready_count_def)
  also have "\<dots> \<longleftrightarrow> in_e i = in_w i" by (simp add: word_unat_eq_iff [symmetric])
  finally show ?thesis by simp
qed

lemma backspace_step:
  assumes ok: "input_ok i" and ne: "editing i \<noteq> []"
  defines "j \<equiv> i\<lparr>in_e := in_e i - 1\<rparr>"
  shows "input_ok j" "ready j = ready i" "editing j = butlast (editing i)"
    "in_buf i (unat (in_e i - 1) mod INPUT_BUF) = last (editing i)"
proof -
  let ?c = "input_contents i" and ?k = "ready_count i"
  have lt: "?k < length ?c" using ok ne by (auto simp: editing_def input_ok_def)
  then have "0 < unat (in_e i - in_r i)" by (simp add: input_contents_def)
  then have er: "in_e i \<noteq> in_r i" by auto
  have c: "input_contents j = butlast ?c"
    using ring_unput(1) [OF er] by (simp add: j_def input_contents_def)
  have k: "ready_count j = ?k" by (simp add: j_def ready_count_def)
  show r: "ready j = ready i"
    using lt by (auto simp: ready_def c k butlast_conv_take min_def)
  show e: "editing j = butlast (editing i)"
    by (simp add: editing_def c k butlast_drop)
  show "input_ok j"
    using ok lt e in_set_butlastD [of 10 "editing i"]
    by (auto simp: input_ok_def input_room_iff c k)
  show "in_buf i (unat (in_e i - 1) mod INPUT_BUF) = last (editing i)"
    using ring_unput(2) [OF er] lt by (simp add: editing_def input_contents_def last_drop)
qed

lemma kill_line_spec:
  assumes "input_ok i"
  shows "input_ok (snd (kill_line i)) \<and> ready (snd (kill_line i)) = ready i \<and> editing (snd (kill_line i)) = []"
  using assms
proof (induction i rule: kill_line.induct)
  case (1 i)
  show ?case
  proof (cases "editing i = []")
    case True
    then show ?thesis using e_eq_w [OF "1.prems"] "1.prems" by (subst (1 2 3) kill_line.simps) simp
  next
    case False
    note b = backspace_step [OF "1.prems" False]
    have nl: "last (editing i) \<noteq> 10" using "1.prems" last_in_set [OF False] by (auto simp: input_ok_def)
    have cond: "in_e i \<noteq> in_w i \<and> in_buf i (unat (in_e i - 1) mod INPUT_BUF) \<noteq> 10"
      using e_eq_w [OF "1.prems"] False b(4) nl by simp
    have "kill_line i = (BACKSPACE # fst (kill_line (i\<lparr>in_e := in_e i - 1\<rparr>)),
        snd (kill_line (i\<lparr>in_e := in_e i - 1\<rparr>)))"
      by (subst kill_line.simps) (simp add: cond split: prod.splits)
    then show ?thesis using "1.IH" [OF cond b(1)] b(2) by simp
  qed
qed

lemma put_step:
  fixes b :: u8
  assumes ok: "input_ok i" and lt: "length (input_contents i) < INPUT_BUF"
  defines "j \<equiv> input_put b i"
  shows "input_room j" "input_contents j = input_contents i @ [b]" "ready_count j = ready_count i"
    "ready j = ready i" "editing j = editing i @ [b]"
proof -
  have "input_room i" and k: "ready_count i \<le> length (input_contents i)" using ok by (simp_all add: input_ok_def)
  from input_queue.put_ok [OF this(1) lt, of b]
  show "input_room j" and c: "input_contents j = input_contents i @ [b]" by (simp_all add: j_def)
  show r: "ready_count j = ready_count i" by (simp add: j_def ready_count_def input_put_def)
  show "ready j = ready i" "editing j = editing i @ [b]" using k by (simp_all add: ready_def editing_def c r)
qed

lemma commit_step:
  fixes i :: input
  assumes "input_room i"
  defines "j \<equiv> i\<lparr>in_w := in_e i\<rparr>"
  shows "input_ok j" "ready j = input_contents i" "editing j = []"
proof -
  have c: "input_contents j = input_contents i" by (simp add: j_def input_contents_def)
  have k: "ready_count j = length (input_contents i)" by (simp add: j_def ready_count_def input_contents_def)
  show "ready j = input_contents i" "editing j = []" by (simp_all add: ready_def editing_def c k)
  then show "input_ok j" using assms(1) by (simp add: input_ok_def input_room_iff c k)
qed

lemma full_iff:
  assumes "input_room i"
  shows "in_e i = in_r i + of_nat INPUT_BUF \<longleftrightarrow> length (input_contents i) = INPUT_BUF"
proof -
  have "in_e i = in_r i + of_nat INPUT_BUF \<longleftrightarrow> in_e i - in_r i = 128"
    by (auto simp: INPUT_BUF_def algebra_simps)
  also have "\<dots> \<longleftrightarrow> unat (in_e i - in_r i) = 128" by (simp add: word_unat_eq_iff)
  finally show ?thesis by (simp add: input_contents_def INPUT_BUF_def)
qed

definition line_of :: "input \<Rightarrow> u8 list \<times> u8 list" where
  "line_of i = (ready i, editing i)"

lemma byte_of_char:
  assumes "0 \<le> c" "c < 256" "0 \<le> k" "k < 256"
  shows "(word_of_int c :: u8) = word_of_int k \<longleftrightarrow> c = k"
  using assms by (simp add: word_of_int_eq_iff take_bit_int_eq_self)

lemma consoleintr_char_refines:
  assumes ok: "input_ok i" and c: "0 \<le> c" "c < 256"
    and s: "consoleintr_char c i t = (out, dump, j, u)"
  shows "input_ok j \<and> line_of j = line_char c (line_of i)"
proof -
  have len: "length (ready i) + length (editing i) = length (input_contents i)"
    by (metis length_append ready_editing)
  have rm: "unat (in_e i - in_r i) = length (input_contents i)" by (simp add: input_contents_def)
  have "fst (snd (snd (consoleintr_char c i t))) = (if c = control 80 then i else if c = control 85 then snd (kill_line i)
      else if c = control 72 \<or> c = 127 then (if editing i \<noteq> [] then i\<lparr>in_e := in_e i - 1\<rparr> else i)
      else if c \<noteq> 0 \<and> length (input_contents i) < INPUT_BUF then
        let b = (if c = 13 then 10 else c); p = input_put (word_of_int b) i in
           if b = 10 \<or> b = control 68 \<or> in_e p = in_r p + of_nat INPUT_BUF then p\<lparr>in_w := in_e p\<rparr> else p
      else i)"
    unfolding consoleintr_char_def Let_def split_def
    by (simp only: if_distrib [of fst] if_distrib [of snd] fst_conv snd_conv rm e_eq_w [OF ok])
  note js = this [unfolded s fst_conv snd_conv]
  consider (noop) "c = control 80 \<or> (c \<noteq> control 85 \<and> c \<noteq> control 72 \<and> c \<noteq> 127 \<and>
        \<not> (c \<noteq> 0 \<and> length (input_contents i) < INPUT_BUF))"
    | (kl) "c = control 85"
    | (bs) "c = control 72 \<or> c = 127" "editing i \<noteq> []"
    | (bs0) "c = control 72 \<or> c = 127" "editing i = []"
    | (put) "c \<notin> {control 80, control 85, control 72, 127, 0}" "length (input_contents i) < INPUT_BUF"
    by blast
  then show ?thesis
  proof cases
    case noop
    then have "j = i" unfolding js by auto
    then show ?thesis using noop ok len by (auto simp: line_char_def line_of_def control_def)
  next
    case kl
    then have "j = snd (kill_line i)" unfolding js by (simp add: control_def)
    then show ?thesis using kl kill_line_spec [OF ok] by (simp add: line_char_def line_of_def control_def)
  next
    case bs
    then have "j = i\<lparr>in_e := in_e i - 1\<rparr>" unfolding js by (auto simp: control_def)
    then show ?thesis using bs backspace_step [OF ok bs(2)] by (auto simp: line_char_def line_of_def control_def)
  next
    case bs0
    then have "j = i" unfolding js by (auto simp: control_def)
    then show ?thesis using bs0 ok by (auto simp: line_char_def line_of_def control_def)
  next
    case put
    define b where "b = (if c = 13 then 10 else c)"
    define p where "p = input_put (word_of_int b) i"
    have b: "0 \<le> b" "b < 256" using c by (simp_all add: b_def)
    note st = put_step [OF ok put(2), of "word_of_int b", folded p_def]
    have w: "(word_of_int b :: u8) = 10 \<longleftrightarrow> b = 10" "(word_of_int b :: u8) = 4 \<longleftrightarrow> b = 4"
      using byte_of_char [OF b, of 10] byte_of_char [OF b, of 4] by simp_all
    have bb: "(if c = 13 then 10 else word_of_int c) = (word_of_int b :: u8)" by (simp add: b_def)
    have spec: "line_char c (line_of i) =
        (if b = 10 \<or> b = 4 \<or> length (input_contents p) = INPUT_BUF then (input_contents p, [])
         else (ready i, editing i @ [word_of_int b]))"
      using put(1,2) len st(2) ready_editing [of i]
      by (auto simp: line_char_def line_of_def control_def bb w Let_def)
    have "j = (if b = 10 \<or> b = control 68 \<or> in_e p = in_r p + of_nat INPUT_BUF then p\<lparr>in_w := in_e p\<rparr> else p)"
      unfolding js using put by (simp add: b_def [symmetric] p_def [symmetric] Let_def)
    then have "j = (if b = 10 \<or> b = 4 \<or> length (input_contents p) = INPUT_BUF then p\<lparr>in_w := in_e p\<rparr> else p)"
      using full_iff [OF st(1)] by (simp add: control_def)
    then show ?thesis unfolding spec
      using commit_step [OF st(1)] st ok w by (auto simp: line_of_def input_ok_def)
  qed
qed

lemma consoleintr_refines:
  assumes "input_ok i" and "\<forall>c\<in>set cs. 0 \<le> c \<and> c < 256"
    and "consoleintr cs i t = (out, dump, j, u)"
  shows "input_ok j \<and> line_of j = fold line_char cs (line_of i)"
  using assms
proof (induction cs arbitrary: i t out dump)
  case (Cons c cs)
  obtain o1 d1 i1 t1 where s: "consoleintr_char c i t = (o1, d1, i1, t1)" by (metis prod_cases4)
  have "0 \<le> c" "c < 256" using Cons.prems(2) by auto
  note st = consoleintr_char_refines [OF Cons.prems(1) this s]
  obtain o2 d2 where "consoleintr cs i1 t1 = (o2, d2, j, u)"
    using Cons.prems(3) s by (auto split: prod.splits)
  then show ?case using Cons.IH [of i1] st Cons.prems(2) by simp
qed simp

lemma get_step:
  assumes ok: "input_ok i" and r: "ready i = b # bs"
  obtains j where "input_get i = (b, j)" "input_ok j" "ready j = bs" "editing j = editing i"
proof -
  have c: "input_contents i = b # bs @ editing i" using ready_editing [of i] r by simp
  have room: "input_room i" using ok by (simp add: input_ok_def)
  obtain j where j: "input_get i = (b, j)" "input_room j" "input_contents j = bs @ editing i"
    using input_queue.get_ok [OF room c] by (cases "input_get i") auto
  have n: "ready_count i = Suc (length bs)" using length_ready [OF ok] r by simp
  then have "in_w i - in_r i \<noteq> 0" by (auto simp: ready_count_def)
  then have "unat (in_w i - in_r i - 1) = length bs" using n by (simp add: ready_count_def unat_minus_one)
  then have k: "ready_count j = length bs"
    using j(1) by (auto simp: input_get_def ready_count_def diff_diff_add)
  have "ready j = bs" "editing j = editing i" by (simp_all add: ready_def editing_def j(3) k)
  moreover have "input_ok j" using j ok k calculation by (simp add: input_ok_def)
  ultimately show thesis using j(1) that by blast
qed

lemma r_eq_w: "input_ok i \<Longrightarrow> in_r i = in_w i \<longleftrightarrow> ready i = []"
proof -
  assume ok: "input_ok i"
  have "in_r i = in_w i \<longleftrightarrow> ready_count i = 0" by (auto simp: ready_count_def unat_eq_0)
  then show ?thesis using length_ready [OF ok] by auto
qed

text \<open>
  The answer to a reader that wants \<open>n\<close> more bytes of \<open>target\<close> and has \<open>dst\<close>, on the bytes \<open>rd\<close> ready: the
  result and the bytes that stay ready.
\<close>

fun line_read :: "bool \<Rightarrow> nat \<Rightarrow> nat \<Rightarrow> u8 list \<Rightarrow> u8 list \<Rightarrow> cons_result \<times> u8 list" where
  "line_read killed target 0 dst rd = (CRet (int target) dst, rd)"
| "line_read killed target (Suc n) dst [] = (if killed then CRet (- 1) dst else CSleep (Suc n) dst, [])"
| "line_read killed target (Suc n) dst (c # rd) =
     (if c = 4 then (CRet (int target - int (Suc n)) dst, if Suc n < target then c # rd else rd)
      else if c = 10 then (CRet (int target - int n) (dst @ [c]), rd)
      else line_read killed target n (dst @ [c]) rd)"

lemma consoleread_loop_refines:
  assumes "input_ok i"
  shows "case consoleread_loop cur target n dst i t of (r, j, u) \<Rightarrow>
     input_ok j \<and> editing j = editing i \<and>
     (r, ready j) = line_read (p_killed (pt_proc t cur)) target n dst (ready i)"
  using assms
proof (induction n arbitrary: dst i)
  case (Suc n)
  show ?case
  proof (cases "ready i")
    case Nil
    then show ?thesis using r_eq_w [OF Suc.prems] Suc.prems by simp
  next
    case (Cons c rd)
    then have ne: "in_r i \<noteq> in_w i" using r_eq_w [OF Suc.prems] by simp
    obtain j where j: "input_get i = (c, j)" "input_ok j" "ready j = rd" "editing j = editing i"
      by (rule get_step [OF Suc.prems Cons])
    then show ?thesis using Suc.IH [OF j(2), of "dst @ [c]"] Suc.prems by (simp add: ne Cons)
  qed
qed simp

text \<open>
  C22. The console is a line discipline. On the lines ready for readers and the line being edited,
  the interrupt handler does what \<^const>\<open>line_char\<close> says for each character: \<open>^H\<close> and DEL
  erase one character of the edited line only, \<open>^U\<close> erases all of it, carriage return becomes
  newline, and newline, \<open>^D\<close> or a full buffer hand the line over; characters beyond 128 are
  dropped. A read takes bytes of the lines ready up to and including a newline, stops before a
  \<open>^D\<close>, and never disturbs the line being edited.
\<close>

theorem console_line_discipline:
  assumes "input_ok i"
  shows "((\<forall>c\<in>set cs. 0 \<le> c \<and> c < 256) \<longrightarrow>
      (case consoleintr cs i t of (out, dump, j, u) \<Rightarrow>
         input_ok j \<and> line_of j = fold line_char cs (line_of i))) \<and>
    (case consoleread cur n i t of (r, j, u) \<Rightarrow>
      input_ok j \<and> editing j = editing i \<and>
      (r, ready j) = line_read (p_killed (pt_proc t cur)) (nat n) (nat n) [] (ready i))"
  using consoleintr_refines [OF assms] consoleread_loop_refines [OF assms]
  by (auto simp: consoleread_def split: prod.splits)

text \<open>Typing \<open>h\<close>, backspace, \<open>o\<close>, \<open>k\<close>, return and reading at most ten bytes gives \<open>ok\<close> and a newline.\<close>

theorem console_line_discipline_witness:
  "let i0 = \<lparr>in_buf = \<lambda>_. 0, in_r = 0, in_w = 0, in_e = 0\<rparr> in
   case consoleintr [104, 8, 111, 107, 13] i0 ptable_zero of (out, dump, i1, t1) \<Rightarrow>
   case consoleread 0 10 i1 t1 of (r, i2, t2) \<Rightarrow> r = CRet 3 [111, 107, 10] \<and> line_of i2 = ([], [])"
proof -
  define i0 where "i0 = \<lparr>in_buf = \<lambda>_. 0, in_r = 0, in_w = 0, in_e = 0\<rparr>"
  have c0: "input_contents i0 = []" by (simp add: input_contents_def i0_def ring_def)
  then have l0: "line_of i0 = ([], [])" by (simp add: line_of_def ready_def editing_def)
  have ok0: "input_ok i0"
    using c0 by (simp add: input_ok_def input_room_iff editing_def) (simp add: ready_count_def i0_def)
  obtain out dump i1 t1 where s: "consoleintr [104, 8, 111, 107, 13] i0 ptable_zero = (out, dump, i1, t1)"
    by (metis prod_cases4)
  have "input_ok i1 \<and> line_of i1 = fold line_char [104, 8, 111, 107, 13] ([], [])"
    using console_line_discipline [OF ok0, of "[104, 8, 111, 107, 13]" ptable_zero 0 0]
    by (simp add: s l0 del: consoleintr.simps)
  then have i1: "input_ok i1" "line_of i1 = ([111, 107, 10], [])"
    by (simp_all add: line_char_def control_def INPUT_BUF_def)
  obtain r i2 t2 where r: "consoleread 0 10 i1 t1 = (r, i2, t2)" by (metis prod_cases3)
  have lr: "line_read k 10 10 [] [111, 107, 10] = (CRet 3 [111, 107, 10], [])" for k
    by code_simp
  have "editing i2 = [] \<and> (r, ready i2) = line_read (p_killed (pt_proc t1 0)) (nat 10) (nat 10) [] [111, 107, 10]"
    using console_line_discipline [OF i1(1), of "[]" t1 0 10] i1(2) r by (simp add: line_of_def del: line_read.simps)
  then have "r = CRet 3 [111, 107, 10] \<and> line_of i2 = ([], [])"
    by (simp add: line_of_def lr)
  then show ?thesis unfolding i0_def [symmetric] Let_def s by (simp add: r)
qed

end
