(* ===== verification/Vm.thy ===== *)
theory Vm
  imports Kalloc
begin

text \<open>
  Virtual memory (\<open>vm.c\<close>): two-level page tables in kernel memory, the kernel's own mappings,
  and the operations that grow, shrink, copy and free the user part of an address space. Page
  directories and tables are read and written in the byte memory of the allocator, at the
  addresses the code uses; a null pointer is 0. \<open>kend\<close> and \<open>kdata\<close> are the linker symbols
  \<open>end\<close> and \<open>data\<close>. The messages that \<open>allocuvm\<close> prints are left out.

  A loop whose address wraps around never ends in the code and stops with \<^const>\<open>Spin\<close> here.
\<close>

unbundle bit_operations_syntax

section \<open>Page table entries\<close>

definition PTE_P :: u32 where "PTE_P = 1"
definition PTE_W :: u32 where "PTE_W = 2"
definition PTE_U :: u32 where "PTE_U = 4"
definition NPDENTRIES :: nat where "NPDENTRIES = 1024"
definition EXTMEM :: u32 where "EXTMEM = 0x100000"
definition DEVSPACE :: u32 where "DEVSPACE = 0xFE000000"
definition KERNLINK :: u32 where "KERNLINK = KERNBASE + EXTMEM"

definition PDX :: "u32 \<Rightarrow> u32" where "PDX va = drop_bit 22 va AND 0x3FF"
definition PTX :: "u32 \<Rightarrow> u32" where "PTX va = drop_bit 12 va AND 0x3FF"

definition PGADDR :: "u32 \<Rightarrow> u32 \<Rightarrow> u32 \<Rightarrow> u32" where
  "PGADDR d t off = push_bit 22 d OR push_bit 12 t OR off"

definition PTE_ADDR :: "u32 \<Rightarrow> u32" where "PTE_ADDR pte = pte AND NOT 0xFFF"
definition PTE_FLAGS :: "u32 \<Rightarrow> u32" where "PTE_FLAGS pte = pte AND 0xFFF"

definition rd32 :: "u32 \<Rightarrow> (kmem, u32) K" where
  "rd32 a = getK (\<lambda>s. load32 (km_mem s) a)"

definition upd_mem :: "(mem \<Rightarrow> mem) \<Rightarrow> (kmem, unit) K" where
  "upd_mem f = modK (\<lambda>s. s\<lparr>km_mem := f (km_mem s)\<rparr>)"

section \<open>Walking and mapping\<close>

definition walkpgdir :: "u32 \<Rightarrow> u32 \<Rightarrow> bool \<Rightarrow> (kmem, u32) K" where
  "walkpgdir pgdir va alloc =
     (let pde = pgdir + 4 * PDX va in
      bindK (rd32 pde) (\<lambda>e.
      if e AND PTE_P \<noteq> 0 then retK (P2V (PTE_ADDR e) + 4 * PTX va)
      else if \<not> alloc then retK 0
      else
        bindK kalloc (\<lambda>pgtab.
        if pgtab = 0 then retK 0
        else
          bindK (upd_mem (memset pgtab 0 PGSIZE)) (\<lambda>_.
          bindK (upd_mem (store32 pde (V2P pgtab OR PTE_P OR PTE_W OR PTE_U))) (\<lambda>_.
          retK (pgtab + 4 * PTX va))))))"

lemma unat_sub_page:
  fixes a l :: "32 word"
  assumes "\<not> unat (l - a) < 4096"
  shows "unat (l - (a + PGSIZE)) = unat (l - a) - 4096"
proof -
  have "PGSIZE \<le> l - a" using assms by (simp add: PGSIZE_def word_le_nat_alt)
  then have "unat (l - a - PGSIZE) = unat (l - a) - unat PGSIZE" by (rule unat_sub)
  then show ?thesis by (simp add: diff_diff_add PGSIZE_def)
qed

text \<open>
  The loop of \<open>mappages\<close> ends at \<open>a == last\<close>. Both are page aligned, so the second test never
  decides; it makes the recursion well-founded for the other arguments.
\<close>

function mappages_loop :: "u32 \<Rightarrow> u32 \<Rightarrow> u32 \<Rightarrow> u32 \<Rightarrow> u32 \<Rightarrow> (kmem, int) K" where
  "mappages_loop pgdir a lst pa perm s =
     bindK (walkpgdir pgdir a True) (\<lambda>pte.
     if pte = 0 then retK (- 1)
     else
       bindK (rd32 pte) (\<lambda>e.
       if e AND PTE_P \<noteq> 0 then panicK ''remap''
       else
         bindK (upd_mem (store32 pte (pa OR perm OR PTE_P))) (\<lambda>_ t.
         if a = lst \<or> unat (lst - a) < 4096 then (Inr 0, t)
         else mappages_loop pgdir (a + PGSIZE) lst (pa + PGSIZE) perm t))) s"
  by pat_completeness auto
termination
  by (relation "measure (\<lambda>(_, a, lst, _, _, _). unat (lst - a))") (auto simp: unat_sub_page)

declare mappages_loop.simps [simp del]

definition mappages :: "u32 \<Rightarrow> u32 \<Rightarrow> u32 \<Rightarrow> u32 \<Rightarrow> u32 \<Rightarrow> (kmem, int) K" where
  "mappages pgdir va sz pa perm =
     mappages_loop pgdir (PGROUNDDOWN va) (PGROUNDDOWN (va + sz - 1)) pa perm"

section \<open>The kernel part\<close>

record kmap_entry =
  k_virt :: u32
  k_phys_start :: u32
  k_phys_end :: u32
  k_perm :: u32

definition kmap :: "u32 \<Rightarrow> kmap_entry list" where
  "kmap kdata =
     [\<lparr>k_virt = KERNBASE, k_phys_start = 0, k_phys_end = EXTMEM, k_perm = PTE_W\<rparr>,
      \<lparr>k_virt = KERNLINK, k_phys_start = V2P KERNLINK, k_phys_end = V2P kdata, k_perm = 0\<rparr>,
      \<lparr>k_virt = kdata, k_phys_start = V2P kdata, k_phys_end = PHYSTOP, k_perm = PTE_W\<rparr>,
      \<lparr>k_virt = DEVSPACE, k_phys_start = DEVSPACE, k_phys_end = 0, k_perm = PTE_W\<rparr>]"

fun kmap_loop :: "u32 \<Rightarrow> kmap_entry list \<Rightarrow> (kmem, u32) K" where
  "kmap_loop pgdir [] = retK pgdir"
| "kmap_loop pgdir (k # ks) =
     bindK (mappages pgdir (k_virt k) (k_phys_end k - k_phys_start k) (k_phys_start k) (k_perm k)) (\<lambda>r.
     if r < 0 then retK 0 else kmap_loop pgdir ks)"

definition setupkvm :: "u32 \<Rightarrow> (kmem, u32) K" where
  "setupkvm kdata =
     bindK kalloc (\<lambda>pgdir.
     if pgdir = 0 then retK 0
     else
       bindK (upd_mem (memset pgdir 0 PGSIZE)) (\<lambda>_.
       if P2V PHYSTOP > DEVSPACE then panicK ''PHYSTOP too high''
       else kmap_loop pgdir (kmap kdata)))"

section \<open>The user part\<close>

definition inituvm :: "u32 \<Rightarrow> u32 \<Rightarrow> u32 \<Rightarrow> (kmem, unit) K" where
  "inituvm pgdir init sz =
     (if sz \<ge> PGSIZE then panicK ''inituvm: more than a page''
      else
        bindK kalloc (\<lambda>mem.
        bindK (upd_mem (memset mem 0 PGSIZE)) (\<lambda>_.
        bindK (mappages pgdir 0 PGSIZE (V2P mem) (PTE_W OR PTE_U)) (\<lambda>_.
        upd_mem (memmove mem init sz)))))"

function deallocuvm_loop :: "u32 \<Rightarrow> u32 \<Rightarrow> u32 \<Rightarrow> u32 \<Rightarrow> (kmem, unit) K" where
  "deallocuvm_loop kend pgdir a oldsz s =
     (if a < oldsz then
        bindK (walkpgdir pgdir a False) (\<lambda>pte.
        bindK
          (if pte = 0 then retK (PGADDR (PDX a + 1) 0 0 - PGSIZE)
           else
             bindK (rd32 pte) (\<lambda>e.
             if e AND PTE_P \<noteq> 0 then
               (if PTE_ADDR e = 0 then panicK ''kfree''
                else
                  bindK (kfree kend (P2V (PTE_ADDR e))) (\<lambda>_.
                  bindK (upd_mem (store32 pte 0)) (\<lambda>_. retK a)))
             else retK a)) (\<lambda>b t.
        if a < b + PGSIZE then deallocuvm_loop kend pgdir (b + PGSIZE) oldsz t else (Inl Spin, t))) s
      else (Inr (), s))"
  by pat_completeness auto
termination
  by (relation "measure (\<lambda>(_, _, a, _, _). 2 ^ 32 - unat a)")
    (auto simp: word_less_nat_alt intro!: diff_less_mono2 unsigned_less [where ?'a = nat, where 'b = 32, simplified])

declare deallocuvm_loop.simps [simp del]

definition deallocuvm :: "u32 \<Rightarrow> u32 \<Rightarrow> u32 \<Rightarrow> u32 \<Rightarrow> (kmem, u32) K" where
  "deallocuvm kend pgdir oldsz newsz =
     (if newsz \<ge> oldsz then retK oldsz
      else bindK (deallocuvm_loop kend pgdir (PGROUNDUP newsz) oldsz) (\<lambda>_. retK newsz))"

function allocuvm_loop :: "u32 \<Rightarrow> u32 \<Rightarrow> u32 \<Rightarrow> u32 \<Rightarrow> u32 \<Rightarrow> (kmem, u32) K" where
  "allocuvm_loop kend pgdir oldsz newsz a s =
     (if a < newsz then
        bindK kalloc (\<lambda>mem.
        if mem = 0 then bindK (deallocuvm kend pgdir newsz oldsz) (\<lambda>_. retK 0)
        else
          bindK (upd_mem (memset mem 0 PGSIZE)) (\<lambda>_.
          bindK (mappages pgdir a PGSIZE (V2P mem) (PTE_W OR PTE_U)) (\<lambda>r t.
          if r < 0 then
            bindK (deallocuvm kend pgdir newsz oldsz) (\<lambda>_. bindK (kfree kend mem) (\<lambda>_. retK 0)) t
          else if a < a + PGSIZE then allocuvm_loop kend pgdir oldsz newsz (a + PGSIZE) t
          else (Inl Spin, t)))) s
      else (Inr newsz, s))"
  by pat_completeness auto
termination
  by (relation "measure (\<lambda>(_, _, _, _, a, _). 2 ^ 32 - unat a)")
    (auto simp: word_less_nat_alt intro!: diff_less_mono2 unsigned_less [where ?'a = nat, where 'b = 32, simplified])

declare allocuvm_loop.simps [simp del]

definition allocuvm :: "u32 \<Rightarrow> u32 \<Rightarrow> u32 \<Rightarrow> u32 \<Rightarrow> (kmem, u32) K" where
  "allocuvm kend pgdir oldsz newsz =
     (if newsz \<ge> KERNBASE then retK 0
      else if newsz < oldsz then retK oldsz
      else allocuvm_loop kend pgdir oldsz newsz (PGROUNDUP oldsz))"

definition freevm_entry :: "u32 \<Rightarrow> u32 \<Rightarrow> nat \<Rightarrow> (kmem, unit) K" where
  "freevm_entry kend pgdir i =
     bindK (rd32 (pgdir + 4 * of_nat i)) (\<lambda>e.
     whenK (e AND PTE_P \<noteq> 0) (kfree kend (P2V (PTE_ADDR e))))"

definition freevm :: "u32 \<Rightarrow> u32 \<Rightarrow> (kmem, unit) K" where
  "freevm kend pgdir =
     (if pgdir = 0 then panicK ''freevm: no pgdir''
      else
        bindK (deallocuvm kend pgdir KERNBASE 0) (\<lambda>_.
        bindK (forK [0..<NPDENTRIES] (freevm_entry kend pgdir)) (\<lambda>_.
        kfree kend pgdir)))"

definition clearpteu :: "u32 \<Rightarrow> u32 \<Rightarrow> (kmem, unit) K" where
  "clearpteu pgdir uva =
     bindK (walkpgdir pgdir uva False) (\<lambda>pte.
     if pte = 0 then panicK ''clearpteu''
     else bindK (rd32 pte) (\<lambda>e. upd_mem (store32 pte (e AND NOT PTE_U))))"

text \<open>The loop of \<open>copyuvm\<close>; \<open>False\<close> is the jump to \<open>bad\<close>.\<close>

function copyuvm_loop :: "u32 \<Rightarrow> u32 \<Rightarrow> u32 \<Rightarrow> u32 \<Rightarrow> (kmem, bool) K" where
  "copyuvm_loop pgdir d sz i s =
     (if i < sz then
        bindK (walkpgdir pgdir i False) (\<lambda>pte.
        if pte = 0 then panicK ''copyuvm: pte should exist''
        else
          bindK (rd32 pte) (\<lambda>e.
          if e AND PTE_P = 0 then panicK ''copyuvm: page not present''
          else
            bindK kalloc (\<lambda>mem.
            if mem = 0 then retK False
            else
              bindK (upd_mem (memmove mem (P2V (PTE_ADDR e)) PGSIZE)) (\<lambda>_.
              bindK (mappages d i PGSIZE (V2P mem) (PTE_FLAGS e)) (\<lambda>r t.
              if r < 0 then (Inr False, t)
              else if i < i + PGSIZE then copyuvm_loop pgdir d sz (i + PGSIZE) t
              else (Inl Spin, t)))))) s
      else (Inr True, s))"
  by pat_completeness auto
termination
  by (relation "measure (\<lambda>(_, _, _, i, _). 2 ^ 32 - unat i)")
    (auto simp: word_less_nat_alt intro!: diff_less_mono2 unsigned_less [where ?'a = nat, where 'b = 32, simplified])

declare copyuvm_loop.simps [simp del]

definition copyuvm :: "u32 \<Rightarrow> u32 \<Rightarrow> u32 \<Rightarrow> u32 \<Rightarrow> (kmem, u32) K" where
  "copyuvm kend kdata pgdir sz =
     bindK (setupkvm kdata) (\<lambda>d.
     if d = 0 then retK 0
     else
       bindK (copyuvm_loop pgdir d sz 0) (\<lambda>ok.
       if ok then retK d else bindK (freevm kend d) (\<lambda>_. retK 0)))"

text \<open>\<open>uva2ka\<close> reads through the pointer that \<open>walkpgdir\<close> returns without testing it.\<close>

definition uva2ka :: "u32 \<Rightarrow> u32 \<Rightarrow> (kmem, u32) K" where
  "uva2ka pgdir uva =
     bindK (walkpgdir pgdir uva False) (\<lambda>pte.
     if pte = 0 then stopK NullPtr
     else
       bindK (rd32 pte) (\<lambda>e.
       if e AND PTE_P = 0 then retK 0
       else if e AND PTE_U = 0 then retK 0
       else retK (P2V (PTE_ADDR e))))"

lemma PGROUNDDOWN_div: "PGROUNDDOWN va = va div 4096 * 4096"
proof -
  have m: "PGSIZE - 1 = (mask 12 :: 32 word)" by (simp add: PGSIZE_def mask_eq_exp_minus_1)
  have "PGROUNDDOWN va = push_bit 12 (drop_bit 12 va)"
    unfolding PGROUNDDOWN_def m by (rule bit_word_eqI) (auto simp: bit_simps)
  then show ?thesis by (simp add: push_bit_eq_mult drop_bit_eq_div)
qed

lemma unat_PGROUNDDOWN: "unat (PGROUNDDOWN va) = unat va div 4096 * 4096"
proof -
  have "unat va div 4096 * 4096 \<le> unat va" by simp
  then have "unat va div 4096 * 4096 < 2 ^ 32" using unsigned_less [of va, where ?'a = nat] by simp
  then show ?thesis by (simp add: PGROUNDDOWN_div unat_word_ariths unat_div)
qed

lemma unat_page_offset: "unat (va - PGROUNDDOWN va) = unat va mod 4096"
proof -
  have "PGROUNDDOWN va \<le> va" by (simp add: word_le_nat_alt unat_PGROUNDDOWN)
  then show ?thesis by (simp add: unat_sub unat_PGROUNDDOWN minus_div_mult_eq_mod)
qed

text \<open>\<open>copyout\<close>: each turn copies up to the end of a page.\<close>

definition copyout_count :: "u32 \<Rightarrow> u32 \<Rightarrow> u32" where
  "copyout_count va len =
     (let n = PGSIZE - (va - PGROUNDDOWN va) in if n > len then len else n)"

lemma copyout_count: "unat (copyout_count va len) = min (unat len) (4096 - unat va mod 4096)"
proof -
  have "va - PGROUNDDOWN va \<le> PGSIZE"
    by (simp add: word_le_nat_alt unat_page_offset PGSIZE_def less_imp_le)
  then have "unat (PGSIZE - (va - PGROUNDDOWN va)) = 4096 - unat va mod 4096"
    by (simp add: unat_sub unat_page_offset) (simp add: PGSIZE_def)
  then show ?thesis by (simp add: copyout_count_def Let_def word_less_nat_alt min_def)
qed

function copyout :: "u32 \<Rightarrow> u32 \<Rightarrow> u32 \<Rightarrow> u32 \<Rightarrow> (kmem, int) K" where
  "copyout pgdir va buf len s =
     (if len > 0 then
        let va0 = PGROUNDDOWN va; n = copyout_count va len in
        bindK (uva2ka pgdir va0) (\<lambda>pa0.
        if pa0 = 0 then retK (- 1)
        else
          bindK (upd_mem (memmove (pa0 + (va - va0)) buf n)) (\<lambda>_ t.
          copyout pgdir (va0 + PGSIZE) (buf + n) (len - n) t)) s
      else (Inr 0, s))"
  by pat_completeness auto
termination
proof (relation "measure (\<lambda>(_, _, _, len, _). unat len)", simp)
  fix pgdir va buf len t s and va0 n :: u32
  assume "0 < len" and n: "n = copyout_count va len"
  then have "0 < unat len" by (simp add: word_less_nat_alt)
  moreover have "unat va mod 4096 < 4096" by simp
  ultimately have "0 < unat n" "unat n \<le> unat len" unfolding n copyout_count by linarith+
  then have "unat (len - n) < unat len" by (simp add: unat_sub word_le_nat_alt)
  then show "((pgdir, va0 + PGSIZE, buf + n, len - n, t), pgdir, va, buf, len, s)
      \<in> measure (\<lambda>(_, _, _, len, _). unat len)" by simp
qed

declare copyout.simps [simp del]

end
