(* ===== verification/Vm_Inv.thy ===== *)
theory Vm_Inv
  imports Vm
begin

text \<open>
  The invariant of the page tables of \<open>vm.c\<close>. Each page of kernel memory that an address space
  reaches has a role in it: the directory, the table of a directory slot, or the frame of an entry
  below \<open>KERNBASE\<close>. The invariant says that no page has two roles, in one address space or in two, and
  that none of them is on the free list. It is shown to survive the elementary changes: allocating
  and freeing a page, writing to a page without a role, installing a table, setting an entry.
\<close>

unbundle bit_operations_syntax

declare mod_0_imp_dvd [rule del]

lemma aligned_nat: "(p :: 32 word) mod PGSIZE = 0 \<longleftrightarrow> unat p mod 4096 = 0"
proof -
  have "unat (p mod PGSIZE) = unat p mod 4096" by (simp add: unat_mod PGSIZE_def)
  then show ?thesis by (metis unat_eq_0)
qed

lemma page_index_unat:
  assumes "(p :: 32 word) mod PGSIZE = 0" "x < 4096"
  shows "unat (p + of_nat x) = unat p + x"
proof -
  have "4096 dvd unat p" using assms(1) by (simp only: aligned_nat mod_eq_0_iff_dvd)
  then obtain k where k: "unat p = 4096 * k" by (rule dvdE)
  have "unat p < 2 ^ 32" using unsigned_less [of p, where ?'a = nat] by simp
  then have "4096 * k < 4096 * 2 ^ 20" using k by simp
  then have "k < 2 ^ 20" by (simp only: nat_mult_less_cancel_disj)
  then have "unat p + x < 2 ^ 32" using k assms(2) by simp
  then show ?thesis using assms(2) by (simp add: unat_word_ariths unat_of_nat)
qed

lemma in_page_index: "x < 4096 \<Longrightarrow> in_page p (p + of_nat x)"
  by (simp add: in_page_def unat_of_nat)

lemma word_addr: "p + 4 * of_nat i + of_nat k = p + (of_nat (4 * i + k) :: 32 word)"
  by simp

lemma store32_frame:
  assumes "i < 1024" "\<not> in_page p a"
  shows "store32 (p + 4 * of_nat i) w m a = m a"
proof -
  have "a \<noteq> p + 4 * of_nat i + of_nat k" if "k < 4" for k
    using assms in_page_index [of "4 * i + k" p] that unfolding word_addr by auto
  from this [of 0] this [of 1] this [of 2] this [of 3] show ?thesis by (simp add: store32_def)
qed

lemma store32_other_word:
  assumes p: "p mod PGSIZE = 0" and ij: "i < 1024" "j < 1024" "i \<noteq> j"
  shows "load32 (store32 (p + 4 * of_nat i) w m) (p + 4 * of_nat j) = load32 m (p + 4 * of_nat j)"
proof -
  have ne: "p + 4 * of_nat j + of_nat l \<noteq> p + 4 * of_nat i + of_nat k" if "k < 4" "l < 4" for k l
  proof
    assume "p + 4 * of_nat j + of_nat l = p + 4 * of_nat i + of_nat k"
    then have "p + of_nat (4 * j + l) = p + of_nat (4 * i + k)" by (simp only: word_addr)
    then have "unat p + (4 * j + l) = unat p + (4 * i + k)"
      using page_index_unat [OF p, of "4 * j + l"] page_index_unat [OF p, of "4 * i + k"] ij that by simp
    then show False using that ij by presburger
  qed
  have "store32 (p + 4 * of_nat i) w m (p + 4 * of_nat j + of_nat l) = m (p + 4 * of_nat j + of_nat l)" if "l < 4" for l
    using ne [of 0 l] ne [of 1 l] ne [of 2 l] ne [of 3 l] that by (simp add: store32_def)
  from this [of 0] this [of 1] this [of 2] this [of 3] show ?thesis by (intro load32_cong) simp_all
qed

lemma load32_page_cong:
  assumes "\<And>a. in_page p a \<Longrightarrow> m' a = m a" "i < 1024"
  shows "load32 m' (p + 4 * of_nat i) = load32 m (p + 4 * of_nat i)"
proof -
  have "m' (p + 4 * of_nat i + of_nat k) = m (p + 4 * of_nat i + of_nat k)" if "k < 4" for k
    unfolding word_addr using assms that by (intro assms(1) in_page_index) simp
  from this [of 0] this [of 1] this [of 2] this [of 3] show ?thesis by (intro load32_cong) simp_all
qed

lemma load32_memset_page:
  assumes "i < 1024"
  shows "load32 (memset p 0 PGSIZE m) (p + 4 * of_nat i) = 0"
proof -
  have "memset p 0 PGSIZE m (p + 4 * of_nat i + of_nat k) = 0" if "k < 4" for k
    unfolding word_addr using in_page_index [of "4 * i + k" p] assms that
    by (simp add: memset_apply in_page_def PGSIZE_def)
  from this [of 0] this [of 1] this [of 2] this [of 3] show ?thesis by (simp add: load32_def)
qed

lemma memset_frame: "\<not> in_page p a \<Longrightarrow> memset p c PGSIZE m a = m a"
  by (simp add: memset_apply in_page_def PGSIZE_def)

section \<open>Page table entries\<close>

definition present :: "u32 \<Rightarrow> bool" where "present e \<longleftrightarrow> e AND PTE_P \<noteq> 0"

definition frame_of :: "u32 \<Rightarrow> u32" where "frame_of e = P2V (PTE_ADDR e)"

lemma low_ten: "x AND 0x3FF = (x :: u32) mod 1024"
proof -
  have "x AND 0x3FF = take_bit 10 x" by (simp add: take_bit_eq_mask mask_eq_exp_minus_1)
  then show ?thesis by (simp add: take_bit_eq_mod)
qed

lemma PDX_unat: "unat (PDX va) = unat va div 2 ^ 22" and PTX_unat: "unat (PTX va) = unat va div 2 ^ 12 mod 1024"
proof -
  have "unat va < 2 ^ 32" using unsigned_less [of va, where ?'a = nat] by simp
  then have "unat va div 2 ^ 22 < 2 ^ 10" by (simp add: less_mult_imp_div_less)
  then show "unat (PDX va) = unat va div 2 ^ 22"
    by (simp add: PDX_def low_ten unat_mod drop_bit_eq_div unat_div)
  show "unat (PTX va) = unat va div 2 ^ 12 mod 1024"
    by (simp add: PTX_def low_ten unat_mod drop_bit_eq_div unat_div)
qed

lemma PDX_less: "unat (PDX va) < 1024" and PTX_less: "unat (PTX va) < 1024"
  by (simp_all add: PDX_def PTX_def low_ten unat_mod)

lemma aligned_low_bits:
  assumes "(p :: 32 word) mod PGSIZE = 0" "n < 12"
  shows "\<not> bit p n"
proof -
  have "take_bit 12 p = 0" using assms(1) by (simp add: PGSIZE_def take_bit_eq_mod)
  then have "\<not> bit (take_bit 12 p) n" by simp
  then show ?thesis using assms(2) by (simp add: bit_simps)
qed

lemma NOT_FFF: "NOT (0xFFF :: 32 word) = NOT (mask 12)"
  by (simp add: mask_eq_exp_minus_1)

lemma PTE_ADDR_shift: "PTE_ADDR e = push_bit 12 (drop_bit 12 e)"
  unfolding PTE_ADDR_def NOT_FFF by (rule bit_word_eqI) (auto simp: bit_simps)

lemma PTE_ADDR_or:
  assumes "(p :: 32 word) mod PGSIZE = 0" "f = take_bit 12 f"
  shows "PTE_ADDR (p OR f) = p"
proof (rule bit_word_eqI)
  fix n assume n: "n < LENGTH(32)"
  have "bit f n \<Longrightarrow> n < 12" using assms(2) by (metis bit_take_bit_iff)
  then show "bit (PTE_ADDR (p OR f)) n = bit p n"
    using aligned_low_bits [OF assms(1), of n] n by (cases "n < 12") (auto simp: PTE_ADDR_shift bit_simps)
qed

lemma PTE_ADDR_aligned: "PTE_ADDR e mod PGSIZE = 0"
proof -
  have "take_bit 12 (PTE_ADDR e) = 0" unfolding PTE_ADDR_shift by (rule bit_word_eqI) (simp add: bit_simps)
  then show ?thesis by (simp add: PGSIZE_def take_bit_eq_mod)
qed

lemma V2P_aligned: "p mod PGSIZE = 0 \<Longrightarrow> V2P p mod PGSIZE = 0"
proof -
  assume "p mod PGSIZE = 0"
  then have "unat p mod 4096 = 0" by (simp only: aligned_nat)
  then have "(unat p + 0x80000000) mod 4096 = 0" by (simp add: mod_add_eq [symmetric])
  moreover have "V2P p = p + 0x80000000" by (simp add: V2P_def KERNBASE_def)
  moreover have "(unat p + 0x80000000) mod 2 ^ 32 mod 4096 = (unat p + 0x80000000) mod 4096"
    by (rule mod_mod_cancel) simp
  ultimately show ?thesis by (simp add: aligned_nat unat_word_ariths)
qed

lemma P2V_V2P [simp]: "P2V (V2P p) = p" and V2P_P2V [simp]: "V2P (P2V p) = p"
  by (simp_all add: V2P_def P2V_def)

lemma frame_of_entry:
  assumes "p mod PGSIZE = 0" "f = take_bit 12 f"
  shows "frame_of (V2P p OR f) = p"
  by (simp only: frame_of_def PTE_ADDR_or [OF V2P_aligned [OF assms(1)] assms(2)] P2V_V2P)

lemma present_bit: "present e \<longleftrightarrow> bit e 0"
proof -
  have "e AND PTE_P = of_bool (bit e 0)" unfolding PTE_P_def by (simp add: and_one_eq bit_0 odd_iff_mod_2_eq_one)
  then show ?thesis by (simp add: present_def)
qed

lemma present_or [simp]: "present (x OR PTE_P)" "present (x OR PTE_P OR y)" "present (x OR y OR PTE_P)"
  by (simp_all add: present_bit bit_simps PTE_P_def)

lemma not_present_0 [simp]: "\<not> present 0"
  by (simp add: present_def)

section \<open>Roles of pages\<close>

definition pde_of :: "mem \<Rightarrow> u32 \<Rightarrow> nat \<Rightarrow> u32" where
  "pde_of m D d = load32 m (D + 4 * of_nat d)"

definition tab :: "mem \<Rightarrow> u32 \<Rightarrow> nat \<Rightarrow> u32 option" where
  "tab m D d = (if d < 1024 \<and> present (pde_of m D d) then Some (frame_of (pde_of m D d)) else None)"

text \<open>The entry for an address; an address without a table counts as not mapped.\<close>

definition pte_of :: "mem \<Rightarrow> u32 \<Rightarrow> nat \<Rightarrow> nat \<Rightarrow> u32" where
  "pte_of m D d t = (case tab m D d of None \<Rightarrow> 0 | Some p \<Rightarrow> load32 m (p + 4 * of_nat t))"

datatype role = Dir | Tab nat | Frm nat nat

fun owns :: "mem \<Rightarrow> u32 \<Rightarrow> role \<Rightarrow> u32 option" where
  "owns m D Dir = Some D"
| "owns m D (Tab d) = tab m D d"
| "owns m D (Frm d t) =
     (if d < 512 \<and> t < 1024 \<and> present (pte_of m D d t) then Some (frame_of (pte_of m D d t)) else None)"

definition vm_inv :: "u32 \<Rightarrow> kmem \<Rightarrow> u32 set \<Rightarrow> u32 list \<Rightarrow> bool" where
  "vm_inv kend s Ds free \<longleftrightarrow> kmem_inv kend s free \<and> KERNBASE < kend \<and>
     (\<forall>D\<in>Ds. \<forall>r p. owns (km_mem s) D r = Some p \<longrightarrow> page_ok kend p \<and> p \<notin> set free) \<and>
     (\<forall>D\<in>Ds. \<forall>D'\<in>Ds. \<forall>r r' p. owns (km_mem s) D r = Some p \<longrightarrow> owns (km_mem s) D' r' = Some p \<longrightarrow>
        D = D' \<and> r = r')"

definition owned :: "mem \<Rightarrow> u32 set \<Rightarrow> u32 set" where
  "owned m Ds = {p. \<exists>D\<in>Ds. \<exists>r. owns m D r = Some p}"

lemma vm_inv_owned: "vm_inv kend s Ds free \<Longrightarrow> p \<in> owned (km_mem s) Ds \<Longrightarrow> page_ok kend p \<and> p \<notin> set free"
  by (auto simp: vm_inv_def owned_def)

lemma vm_inv_ownsD:
  "vm_inv kend s Ds free \<Longrightarrow> D \<in> Ds \<Longrightarrow> owns (km_mem s) D r = Some p \<Longrightarrow> page_ok kend p \<and> p \<notin> set free"
  unfolding vm_inv_def by blast

lemma vm_inv_unique:
  "vm_inv kend s Ds free \<Longrightarrow> D \<in> Ds \<Longrightarrow> D' \<in> Ds \<Longrightarrow> owns (km_mem s) D r = Some p \<Longrightarrow>
    owns (km_mem s) D' r' = Some p \<Longrightarrow> D = D' \<and> r = r'"
  unfolding vm_inv_def by blast

lemma vm_inv_free: "vm_inv kend s Ds free \<Longrightarrow> x \<in> set free \<Longrightarrow> page_ok kend x"
  by (simp add: vm_inv_def kmem_inv_def)

text \<open>A page in nobody's use: just allocated, or about to be freed.\<close>

definition fresh :: "u32 \<Rightarrow> mem \<Rightarrow> u32 set \<Rightarrow> u32 list \<Rightarrow> u32 \<Rightarrow> bool" where
  "fresh kend m Ds free p \<longleftrightarrow> page_ok kend p \<and> p \<notin> set free \<and> p \<notin> owned m Ds"

lemma page_ok_aligned: "page_ok kend p \<Longrightarrow> p mod PGSIZE = 0"
  by (simp add: page_ok_def)

text \<open>Memory that agrees on the directory and its tables gives the same roles.\<close>

lemma tab_cong:
  assumes "\<And>a. in_page D a \<Longrightarrow> m' a = m a"
  shows "tab m' D d = tab m D d"
proof (cases "d < 1024")
  case True
  then have "pde_of m' D d = pde_of m D d" unfolding pde_of_def by (intro load32_page_cong assms)
  then show ?thesis by (simp add: tab_def)
qed (simp add: tab_def)

lemma pte_cong:
  assumes "\<And>a. in_page D a \<Longrightarrow> m' a = m a" "\<And>p a. tab m D d = Some p \<Longrightarrow> in_page p a \<Longrightarrow> m' a = m a" "t < 1024"
  shows "pte_of m' D d t = pte_of m D d t"
proof -
  have t: "tab m' D d = tab m D d" by (rule tab_cong) (rule assms(1))
  show ?thesis
  proof (cases "tab m D d")
    case (Some p)
    have "load32 m' (p + 4 * of_nat t) = load32 m (p + 4 * of_nat t)"
      by (rule load32_page_cong) (use assms(2,3) Some in auto)
    then show ?thesis by (simp add: pte_of_def t Some)
  qed (simp add: pte_of_def t)
qed

lemma owns_cong:
  assumes "\<And>a. in_page D a \<Longrightarrow> m' a = m a" "\<And>d p a. tab m D d = Some p \<Longrightarrow> in_page p a \<Longrightarrow> m' a = m a"
  shows "owns m' D r = owns m D r"
proof (cases r)
  case (Frm d t)
  have "t < 1024 \<Longrightarrow> pte_of m' D d t = pte_of m D d t" by (rule pte_cong) (auto intro: assms)
  then show ?thesis using Frm by auto
next
  case (Tab d)
  have "tab m' D d = tab m D d" by (rule tab_cong) (rule assms(1))
  then show ?thesis using Tab by simp
qed simp

text \<open>Writing outside the directories and tables.\<close>

lemma outside_same:
  assumes inv: "vm_inv kend s Ds free" and x: "x mod PGSIZE = 0"
    and x_not: "x \<noteq> D" "\<And>d. tab (km_mem s) D d \<noteq> Some x"
    and fr: "\<And>a. \<not> in_page x a \<Longrightarrow> m' a = km_mem s a" and D: "D \<in> Ds"
  shows "in_page D a \<Longrightarrow> m' a = km_mem s a" "tab (km_mem s) D d = Some p \<Longrightarrow> in_page p a \<Longrightarrow> m' a = km_mem s a"
proof -
  have ok: "page_ok kend q" if "owns (km_mem s) D r = Some q" for q r
    using vm_inv_owned [OF inv] that D by (auto simp: owned_def)
  show "m' a = km_mem s a" if "in_page D a"
    using fr in_page_unique [OF x page_ok_aligned] ok [of Dir D] x_not D that by (metis owns.simps(1))
  show "m' a = km_mem s a" if "tab (km_mem s) D d = Some p" "in_page p a"
    using fr in_page_unique [OF x page_ok_aligned] ok [of "Tab d" p] x_not D that by (metis owns.simps(2))
qed

lemma outside_owns:
  assumes inv: "vm_inv kend s Ds free" and x: "x mod PGSIZE = 0"
    and x_not: "x \<noteq> D" "\<And>d. tab (km_mem s) D d \<noteq> Some x"
    and fr: "\<And>a. \<not> in_page x a \<Longrightarrow> m' a = km_mem s a" and D: "D \<in> Ds"
  shows "owns m' D r = owns (km_mem s) D r" "tab m' D d = tab (km_mem s) D d"
    "t < 1024 \<Longrightarrow> pte_of m' D d t = pte_of (km_mem s) D d t"
proof -
  note o = outside_same [OF inv x x_not fr D]
  show "owns m' D r = owns (km_mem s) D r" by (rule owns_cong) (auto intro: o)
  show "tab m' D d = tab (km_mem s) D d" by (rule tab_cong) (rule o(1))
  show "t < 1024 \<Longrightarrow> pte_of m' D d t = pte_of (km_mem s) D d t" by (rule pte_cong) (auto intro: o)
qed

lemma kmem_inv_frame:
  assumes "kmem_inv kend s free" "x mod PGSIZE = 0" "x \<notin> set free" "\<And>a. \<not> in_page x a \<Longrightarrow> m' a = km_mem s a"
  shows "kmem_inv kend (s\<lparr>km_mem := m'\<rparr>) free"
proof -
  have "load32 m' y = load32 (km_mem s) y" if "y \<in> set free" for y
    using assms that by (intro load32_frame [of x]) (auto simp: kmem_inv_def page_ok_def)
  then show ?thesis using assms(1) is_free_list_cong [of free m' "km_mem s"] by (simp add: kmem_inv_def)
qed

lemma fresh_write:
  assumes inv: "vm_inv kend s Ds free" and x: "fresh kend (km_mem s) Ds free x"
    and frame: "\<forall>a. \<not> in_page x a \<longrightarrow> m' a = km_mem s a"
  shows "vm_inv kend (s\<lparr>km_mem := m'\<rparr>) Ds free" "fresh kend m' Ds free x"
    "\<And>D r. D \<in> Ds \<Longrightarrow> owns m' D r = owns (km_mem s) D r"
    "\<And>D d t. D \<in> Ds \<Longrightarrow> t < 1024 \<Longrightarrow> pte_of m' D d t = pte_of (km_mem s) D d t"
    "\<And>D d. D \<in> Ds \<Longrightarrow> tab m' D d = tab (km_mem s) D d"
proof -
  have fr: "\<And>a. \<not> in_page x a \<Longrightarrow> m' a = km_mem s a" using frame by blast
  have xa: "x mod PGSIZE = 0" using x by (simp add: fresh_def page_ok_def)
  have xn: "x \<noteq> D" "tab (km_mem s) D d \<noteq> Some x" if "D \<in> Ds" for D d
    using x that unfolding fresh_def owned_def by (metis (mono_tags, lifting) mem_Collect_eq owns.simps(1,2))+
  show o: "owns m' D r = owns (km_mem s) D r" if "D \<in> Ds" for D r
    using that by (intro outside_owns(1) [OF inv xa _ _ fr]) (auto simp: xn)
  show "pte_of m' D d t = pte_of (km_mem s) D d t" if "D \<in> Ds" "t < 1024" for D d t
    using that by (intro outside_owns(3) [OF inv xa _ _ fr]) (auto simp: xn)
  show "tab m' D d = tab (km_mem s) D d" if "D \<in> Ds" for D d
    using that by (intro outside_owns(2) [OF inv xa _ _ fr]) (auto simp: xn)
  have "kmem_inv kend (s\<lparr>km_mem := m'\<rparr>) free"
    using inv x by (intro kmem_inv_frame [OF _ xa _ fr]) (auto simp: vm_inv_def fresh_def)
  then show "vm_inv kend (s\<lparr>km_mem := m'\<rparr>) Ds free"
    using inv unfolding vm_inv_def by (simp add: o)
  show "fresh kend m' Ds free x" using x o by (auto simp: fresh_def owned_def)
qed

lemma kalloc_fresh:
  assumes inv: "vm_inv kend s Ds (x # free)"
  obtains t where "kalloc s = (Inr x, t)" "km_mem t = km_mem s" "vm_inv kend t Ds free"
    "fresh kend (km_mem s) Ds free x" "x \<noteq> 0"
proof -
  have k: "kmem_inv kend s (x # free)" using inv by (simp add: vm_inv_def)
  from kalloc_ok [OF k] obtain t where t: "kalloc s = (Inr x, t)" "kmem_inv kend t free" "km_mem t = km_mem s" by auto
  have "vm_inv kend t Ds free" using inv t unfolding vm_inv_def by auto
  moreover have "fresh kend (km_mem s) Ds free x"
    using k vm_inv_owned [OF inv] by (auto simp: fresh_def kmem_inv_def)
  moreover have "x \<noteq> 0" using k by (simp add: kmem_inv_def)
  ultimately show thesis using t that by blast
qed

lemma kalloc_empty: "vm_inv kend s Ds [] \<Longrightarrow> kalloc s = (Inr 0, s)"
  using kalloc_ok [of kend s "[]"] by (simp add: vm_inv_def)

lemma kfree_fresh:
  assumes inv: "vm_inv kend s Ds free" and x: "fresh kend (km_mem s) Ds free x"
  obtains t where "kfree kend x s = (Inr (), t)" "vm_inv kend t Ds (x # free)"
    "\<And>a. \<not> in_page x a \<Longrightarrow> km_mem t a = km_mem s a"
    "\<And>D r. D \<in> Ds \<Longrightarrow> owns (km_mem t) D r = owns (km_mem s) D r"
    "\<And>D d t'. D \<in> Ds \<Longrightarrow> t' < 1024 \<Longrightarrow> pte_of (km_mem t) D d t' = pte_of (km_mem s) D d t'"
    "\<And>D d. D \<in> Ds \<Longrightarrow> tab (km_mem t) D d = tab (km_mem s) D d"
proof -
  have k: "kmem_inv kend s free" using inv by (simp add: vm_inv_def)
  have xp: "page_ok kend x" "x \<notin> set free" using x by (simp_all add: fresh_def)
  from kfree_ok [OF k xp] obtain t where t: "kfree kend x s = (Inr (), t)" "kmem_inv kend t (x # free)"
    and fr: "\<forall>a. \<not> in_page x a \<longrightarrow> km_mem t a = km_mem s a" by blast
  note w = fresh_write [OF inv x fr]
  have "vm_inv kend t Ds (x # free)"
    using w(1,2) t(2) unfolding vm_inv_def fresh_def owned_def by auto
  then show thesis using t(1) fr w(3-5) that by blast
qed
section \<open>Changing one entry\<close>

lemma table_facts:
  assumes inv: "vm_inv kend s Ds free" and D: "D \<in> Ds" and q: "tab (km_mem s) D d = Some q"
  shows "q mod PGSIZE = 0" "q \<noteq> D" "q \<notin> set free" "\<And>D' d'. D' \<in> Ds \<Longrightarrow> tab (km_mem s) D' d' = Some q \<Longrightarrow> D' = D \<and> d' = d"
    "\<And>D'. D' \<in> Ds \<Longrightarrow> q \<noteq> D'"
proof -
  have o: "owns (km_mem s) D (Tab d) = Some q" using q by simp
  show "q mod PGSIZE = 0" "q \<notin> set free"
    using vm_inv_ownsD [OF inv D o] page_ok_aligned by blast+
  show "q \<noteq> D" using vm_inv_unique [OF inv D D o, of Dir] by auto
  show "D' = D \<and> d' = d" if "D' \<in> Ds" "tab (km_mem s) D' d' = Some q" for D' d'
    using vm_inv_unique [OF inv D that(1) o, of "Tab d'"] that(2) by auto
  show "q \<noteq> D'" if "D' \<in> Ds" for D' using vm_inv_unique [OF inv D that o, of Dir] by auto
qed

lemma dir_facts:
  assumes inv: "vm_inv kend s Ds free" and D: "D \<in> Ds"
  shows "D mod PGSIZE = 0" "D \<notin> set free" "\<And>D' d'. D' \<in> Ds \<Longrightarrow> tab (km_mem s) D' d' \<noteq> Some D"
proof -
  have o: "owns (km_mem s) D Dir = Some D" by simp
  show "D mod PGSIZE = 0" "D \<notin> set free"
    using vm_inv_ownsD [OF inv D o] page_ok_aligned by blast+
  show "tab (km_mem s) D' d' \<noteq> Some D" if "D' \<in> Ds" for D' d'
    using vm_inv_unique [OF inv D that o, of "Tab d'"] by auto
qed

definition table_entry :: "u32 \<Rightarrow> u32" where
  "table_entry x = V2P x OR PTE_P OR PTE_W OR PTE_U"

lemma table_entry: "x mod PGSIZE = 0 \<Longrightarrow> frame_of (table_entry x) = x" "present (table_entry x)"
proof -
  have f: "(PTE_P OR PTE_W OR PTE_U) = take_bit 12 (PTE_P OR PTE_W OR PTE_U)"
    by (simp add: PTE_P_def PTE_W_def PTE_U_def)
  show "frame_of (table_entry x) = x" if "x mod PGSIZE = 0"
    using frame_of_entry [OF that f] by (simp add: table_entry_def or.assoc)
  have "present (V2P x OR PTE_P OR (PTE_W OR PTE_U))" by simp
  then show "present (table_entry x)" by (simp only: table_entry_def or.assoc)
qed

lemma install_table:
  assumes inv: "vm_inv kend s Ds free" and D: "D \<in> Ds" and d: "d < 1024" "tab (km_mem s) D d = None"
    and x: "fresh kend (km_mem s) Ds free x" and z: "\<forall>t<1024. load32 (km_mem s) (x + 4 * of_nat t) = 0"
  defines "m' \<equiv> store32 (D + 4 * of_nat d) (table_entry x) (km_mem s)"
  shows "vm_inv kend (s\<lparr>km_mem := m'\<rparr>) Ds free"
    "tab m' D d = Some x"
    "\<And>D' d'. D' \<in> Ds \<Longrightarrow> D' \<noteq> D \<or> d' \<noteq> d \<Longrightarrow> tab m' D' d' = tab (km_mem s) D' d'"
    "\<And>D' d' t. D' \<in> Ds \<Longrightarrow> t < 1024 \<Longrightarrow> pte_of m' D' d' t = pte_of (km_mem s) D' d' t"
    "\<And>a. \<not> in_page D a \<Longrightarrow> m' a = km_mem s a"
proof -
  let ?m = "km_mem s"
  note df = dir_facts [OF inv D]
  have xp: "page_ok kend x" "x \<notin> set free" "x mod PGSIZE = 0" using x by (auto simp: fresh_def page_ok_aligned)
  show fr: "m' a = ?m a" if "\<not> in_page D a" for a
    unfolding m'_def using d(1) that by (rule store32_frame)
  have other: "owns m' D' r = owns ?m D' r" "tab m' D' d' = tab ?m D' d'"
    "t < 1024 \<Longrightarrow> pte_of m' D' d' t = pte_of ?m D' d' t" if "D' \<in> Ds" "D' \<noteq> D" for D' r d' t
    using that df(3) by (auto intro!: outside_owns [OF inv df(1) _ _ fr])
  have pd: "pde_of m' D d' = (if d' = d then table_entry x else pde_of ?m D d')" if "d' < 1024" for d'
    unfolding pde_of_def m'_def using store32_other_word [OF df(1) d(1) that] by auto
  show tx: "tab m' D d = Some x" using d(1) pd [OF d(1)] table_entry [of x] xp by (simp add: tab_def)
  have td: "tab m' D d' = tab ?m D d'" if "d' \<noteq> d" for d'
    using that pd [of d'] by (cases "d' < 1024") (simp_all add: tab_def)
  show tabs: "tab m' D' d' = tab ?m D' d'" if "D' \<in> Ds" "D' \<noteq> D \<or> d' \<noteq> d" for D' d'
    using that other(2) td by blast
  have xD: "x \<noteq> D" using x D unfolding fresh_def owned_def by (metis (mono_tags, lifting) mem_Collect_eq owns.simps(1))
  have pg: "load32 m' (q + 4 * of_nat t) = load32 ?m (q + 4 * of_nat t)" if "q mod PGSIZE = 0" "q \<noteq> D" "t < 1024" for q t
    using that fr in_page_unique [OF that(1) df(1)] by (intro load32_page_cong) auto
  have ptD: "pte_of m' D d' t = pte_of ?m D d' t" if "t < 1024" for d' t
  proof (cases "d' = d")
    case True
    then show ?thesis using tx d(2) pg [OF xp(3) xD that] z that by (simp add: pte_of_def)
  next
    case False
    show ?thesis
    proof (cases "tab ?m D d'")
      case (Some q)
      note tf = table_facts [OF inv D Some]
      show ?thesis using pg [OF tf(1,2) that] td [OF False] Some by (simp add: pte_of_def)
    qed (simp add: pte_of_def td [OF False])
  qed
  show pt: "pte_of m' D' d' t = pte_of ?m D' d' t" if "D' \<in> Ds" "t < 1024" for D' d' t
    using that other(3) ptD by (cases "D' = D") auto
  have ow: "owns m' D' r = (if D' = D \<and> r = Tab d then Some x else owns ?m D' r)" if "D' \<in> Ds" for D' r
  proof (cases r)
    case (Frm d' t)
    then show ?thesis using pt [OF that, of t d'] by auto
  next
    case (Tab d')
    then show ?thesis using tabs [OF that, of d'] tx by auto
  qed simp
  have xn: "owns ?m D' r \<noteq> Some x" if "D' \<in> Ds" for D' r using x that by (auto simp: fresh_def owned_def)
  have "kmem_inv kend (s\<lparr>km_mem := m'\<rparr>) free"
    using inv df by (intro kmem_inv_frame [OF _ df(1) _ fr]) (auto simp: vm_inv_def)
  moreover have "page_ok kend p \<and> p \<notin> set free" if "D' \<in> Ds" "owns m' D' r = Some p" for D' r p
    using that ow [OF that(1)] xp vm_inv_owned [OF inv, of p] by (auto simp: owned_def split: if_splits)
  moreover have "D1 = D2 \<and> r1 = r2"
    if "D1 \<in> Ds" "D2 \<in> Ds" "owns m' D1 r1 = Some p" "owns m' D2 r2 = Some p" for D1 D2 r1 r2 p
    using that ow [OF that(1)] ow [OF that(2)] xn vm_inv_unique [OF inv that(1,2)] by (auto split: if_splits)
  ultimately show "vm_inv kend (s\<lparr>km_mem := m'\<rparr>) Ds free"
    using inv unfolding vm_inv_def by simp
qed

lemma set_entry:
  assumes inv: "vm_inv kend s Ds free" and D: "D \<in> Ds" and q: "tab (km_mem s) D d = Some q" and t: "t < 1024"
    and e: "d < 512 \<longrightarrow> present e \<longrightarrow>
      fresh kend (km_mem s) Ds free (frame_of e) \<or> owns (km_mem s) D (Frm d t) = Some (frame_of e)"
  defines "m' \<equiv> store32 (q + 4 * of_nat t) e (km_mem s)"
  shows "vm_inv kend (s\<lparr>km_mem := m'\<rparr>) Ds free"
    "\<And>D' d'. D' \<in> Ds \<Longrightarrow> tab m' D' d' = tab (km_mem s) D' d'"
    "\<And>D' d' t'. D' \<in> Ds \<Longrightarrow> t' < 1024 \<Longrightarrow>
       pte_of m' D' d' t' = (if D' = D \<and> d' = d \<and> t' = t then e else pte_of (km_mem s) D' d' t')"
    "\<And>a. \<not> in_page q a \<Longrightarrow> m' a = km_mem s a"
proof -
  let ?m = "km_mem s"
  note tf = table_facts [OF inv D q]
  show fr: "m' a = ?m a" if "\<not> in_page q a" for a
    unfolding m'_def using t that by (rule store32_frame)
  have dir: "m' a = ?m a" if "D' \<in> Ds" "in_page D' a" for D' a
    using fr in_page_unique [OF tf(1) dir_facts(1) [OF inv that(1)]] tf(5) that by metis
  show tb: "tab m' D' d' = tab ?m D' d'" if "D' \<in> Ds" for D' d'
    by (rule tab_cong) (use dir that in blast)
  show pt: "pte_of m' D' d' t' = (if D' = D \<and> d' = d \<and> t' = t then e else pte_of ?m D' d' t')"
    if "D' \<in> Ds" "t' < 1024" for D' d' t'
  proof (cases "tab ?m D' d'")
    case None
    then show ?thesis using q by (auto simp: pte_of_def tb [OF that(1)])
  next
    case (Some p)
    note pf = table_facts [OF inv that(1) Some]
    show ?thesis
    proof (cases "p = q")
      case True
      then have "D' = D" "d' = d" using tf(4) [OF that(1)] Some by auto
      moreover have "pte_of m' D d t' = load32 m' (q + 4 * of_nat t')" "pte_of ?m D d t' = load32 ?m (q + 4 * of_nat t')"
        using q by (simp_all add: pte_of_def tb [OF D])
      ultimately show ?thesis using store32_other_word [OF tf(1) t that(2)] by (auto simp: m'_def)
    next
      case False
      then have "load32 m' (p + 4 * of_nat t') = load32 ?m (p + 4 * of_nat t')"
        using fr in_page_unique [OF tf(1) pf(1)] that(2) by (intro load32_page_cong) auto
      moreover have "\<not> (D' = D \<and> d' = d)" using False q Some by auto
      ultimately show ?thesis using Some by (auto simp: pte_of_def tb [OF that(1)])
    qed
  qed
  have ow: "owns m' D' r = (if D' = D \<and> r = Frm d t
      then (if d < 512 \<and> present e then Some (frame_of e) else None) else owns ?m D' r)" if "D' \<in> Ds" for D' r
  proof (cases r)
    case (Frm d' t')
    then show ?thesis using pt [OF that, of t' d'] t by auto
  qed (simp_all add: tb [OF that])
  have owD: "(D' = D \<and> r = Frm d t \<and> d < 512 \<and> present e \<and> p = frame_of e) \<or>
      (\<not> (D' = D \<and> r = Frm d t) \<and> owns ?m D' r = Some p)" if "D' \<in> Ds" "owns m' D' r = Some p" for D' r p
    using that(2) unfolding ow [OF that(1)] by (simp split: if_splits del: owns.simps)
  have old: "owns ?m D (Frm d t) = Some (frame_of e) \<Longrightarrow> frame_of e \<in> owned ?m Ds"
    unfolding owned_def using D by blast
  have kept: "p \<in> owned ?m Ds \<or> fresh kend ?m Ds free p" if "D' \<in> Ds" "owns m' D' r = Some p" for D' r p
    using owD [OF that] that(1) e old unfolding owned_def by blast
  have "kmem_inv kend (s\<lparr>km_mem := m'\<rparr>) free"
    using inv tf by (intro kmem_inv_frame [OF _ tf(1) _ fr]) (auto simp: vm_inv_def)
  moreover have "page_ok kend p \<and> p \<notin> set free" if "D' \<in> Ds" "owns m' D' r = Some p" for D' r p
    using kept [OF that] vm_inv_owned [OF inv, of p] by (auto simp: fresh_def)
  moreover have "D1 = D2 \<and> r1 = r2"
    if a: "D1 \<in> Ds" "D2 \<in> Ds" "owns m' D1 r1 = Some p" "owns m' D2 r2 = Some p" for D1 D2 r1 r2 p
  proof -
    have new: "D' = D \<and> r = Frm d t" if "D' \<in> Ds" "owns ?m D' r = Some (frame_of e)" "d < 512" "present e" for D' r
      using e that(3,4) vm_inv_unique [OF inv that(1) D that(2)] that(1,2)
      unfolding fresh_def owned_def by blast
    show ?thesis using owD [OF a(1,3)] owD [OF a(2,4)] new [OF a(1)] new [OF a(2)] vm_inv_unique [OF inv a(1,2)]
      by blast
  qed
  ultimately show "vm_inv kend (s\<lparr>km_mem := m'\<rparr>) Ds free"
    using inv unfolding vm_inv_def by simp
qed

end
