(* ===== verification/Vm_Walk.thy ===== *)
theory Vm_Walk
  imports Vm_Inv
begin

text \<open>
  \<open>walkpgdir\<close> and \<open>mappages\<close> against the invariant: what a walk returns, which tables it may
  allocate, and the effect of mapping one page.
\<close>

unbundle bit_operations_syntax

section \<open>Walking\<close>

definition dx :: "u32 \<Rightarrow> nat" where "dx va = unat (PDX va)"
definition tx :: "u32 \<Rightarrow> nat" where "tx va = unat (PTX va)"

lemma dx_less [simp]: "dx va < 1024" and tx_less [simp]: "tx va < 1024"
  by (simp_all add: dx_def tx_def PDX_less PTX_less)

definition entry :: "mem \<Rightarrow> u32 \<Rightarrow> u32 \<Rightarrow> u32" where
  "entry m D va = pte_of m D (dx va) (tx va)"

lemma PDX_of_dx: "4 * PDX va = 4 * of_nat (dx va)" and PTX_of_tx: "4 * PTX va = 4 * of_nat (tx va)"
  by (simp_all add: dx_def tx_def)

lemma slot_nonzero:
  assumes "page_ok kend q" "i < 1024"
  shows "q + 4 * of_nat i \<noteq> 0"
proof -
  have "unat (q + of_nat (4 * i)) = unat q + 4 * i"
    using assms by (intro page_index_unat page_ok_aligned) auto
  moreover have "unat q \<noteq> 0" using page_ok_pos [OF assms(1)] by (simp add: unat_eq_0)
  ultimately have "unat (q + 4 * of_nat i) \<noteq> 0" by simp
  then show ?thesis by auto
qed

lemma tab_page_ok: "vm_inv kend s Ds free \<Longrightarrow> D \<in> Ds \<Longrightarrow> tab (km_mem s) D d = Some q \<Longrightarrow> page_ok kend q"
  using vm_inv_ownsD [of kend s Ds free D "Tab d" q] by simp

lemma walk_lookup:
  "walkpgdir D va False s = (Inr (case tab (km_mem s) D (dx va) of None \<Rightarrow> 0 | Some q \<Rightarrow> q + 4 * of_nat (tx va)), s)"
  by (simp add: walkpgdir_def Let_def rd32_def tab_def pde_of_def present_def frame_of_def PDX_of_dx PTX_of_tx)

lemma walk_present:
  "tab (km_mem s) D (dx va) = Some q \<Longrightarrow> walkpgdir D va al s = (Inr (q + 4 * of_nat (tx va)), s)"
  by (auto simp: walkpgdir_def Let_def rd32_def tab_def pde_of_def present_def frame_of_def PDX_of_dx PTX_of_tx
      split: if_splits)

text \<open>The contents of mapped frames, and pages in nobody's use, stay as they are.\<close>

definition keeps :: "u32 \<Rightarrow> u32 set \<Rightarrow> kmem \<Rightarrow> u32 list \<Rightarrow> kmem \<Rightarrow> u32 list \<Rightarrow> bool" where
  "keeps kend Ds s free t free' \<longleftrightarrow>
     (\<forall>D\<in>Ds. \<forall>d i p a. owns (km_mem s) D (Frm d i) = Some p \<longrightarrow> in_page p a \<longrightarrow> km_mem t a = km_mem s a) \<and>
     (\<forall>x. fresh kend (km_mem s) Ds free x \<longrightarrow> (\<forall>a. in_page x a \<longrightarrow> km_mem t a = km_mem s a)) \<and>
     set free' \<subseteq> set free"

definition same_entries :: "u32 set \<Rightarrow> mem \<Rightarrow> mem \<Rightarrow> bool" where
  "same_entries Ds m m' \<longleftrightarrow> (\<forall>D\<in>Ds. \<forall>d i. i < 1024 \<longrightarrow> pte_of m' D d i = pte_of m D d i)"

lemma page_diff:
  assumes "in_page p a" "p mod PGSIZE = 0" "q mod PGSIZE = 0" "p \<noteq> q"
  shows "\<not> in_page q a"
  using in_page_unique [OF assms(2,3,1)] assms(4) by blast

lemma walk_alloc:
  assumes inv: "vm_inv kend s Ds free" and D: "D \<in> Ds"
  obtains (full) "free = []" "tab (km_mem s) D (dx va) = None" "walkpgdir D va True s = (Inr 0, s)"
  | (found) q t free' where "walkpgdir D va True s = (Inr (q + 4 * of_nat (tx va)), t)"
      "tab (km_mem t) D (dx va) = Some q" "vm_inv kend t Ds free'" "keeps kend Ds s free t free'"
      "same_entries Ds (km_mem s) (km_mem t)" "free' = free \<or> free = q # free'"
      "\<And>x. fresh kend (km_mem s) Ds free x \<Longrightarrow> fresh kend (km_mem t) Ds free' x"
proof (cases "tab (km_mem s) D (dx va)")
  case (Some q)
  show thesis
    by (rule found [OF walk_present [OF Some] Some inv]) (auto simp: keeps_def same_entries_def)
next
  case None
  let ?m = "km_mem s"
  have np: "\<not> present (load32 ?m (D + 4 * of_nat (dx va)))"
    using None by (simp add: tab_def pde_of_def split: if_splits)
  show thesis
  proof (cases free)
    case Nil
    then have "kalloc s = (Inr 0, s)" using kalloc_empty inv by blast
    then have "walkpgdir D va True s = (Inr 0, s)"
      using np by (simp add: walkpgdir_def Let_def rd32_def PDX_of_dx present_def)
    then show thesis using full Nil None by blast
  next
    case (Cons x fs)
    obtain t where t: "kalloc s = (Inr x, t)" "km_mem t = ?m" "vm_inv kend t Ds fs" "fresh kend ?m Ds fs x" "x \<noteq> 0"
      using kalloc_fresh inv unfolding Cons by blast
    let ?z = "memset x 0 PGSIZE ?m"
    let ?t1 = "t\<lparr>km_mem := ?z\<rparr>"
    have fz: "\<forall>a. \<not> in_page x a \<longrightarrow> ?z a = km_mem t a" by (simp add: memset_frame t(2))
    note fw = fresh_write [OF t(3) t(4) [folded t(2)] fz, unfolded t(2)]
    let ?u = "?t1\<lparr>km_mem := store32 (D + 4 * of_nat (dx va)) (table_entry x) ?z\<rparr>"
    have n1: "tab (km_mem ?t1) D (dx va) = None" using fw(5) [OF D] None by simp
    have f1: "fresh kend (km_mem ?t1) Ds fs x" using fw(2) by simp
    have z1: "\<forall>i<1024. load32 (km_mem ?t1) (x + 4 * of_nat i) = 0"
      by (simp add: load32_memset_page)
    note it = install_table [OF fw(1) D dx_less n1 f1 z1]
    have run: "walkpgdir D va True s = (Inr (x + 4 * of_nat (tx va)), ?u)"
      using np t by (simp add: walkpgdir_def Let_def rd32_def upd_mem_def PDX_of_dx PTX_of_tx present_def table_entry_def)
    have al: "x mod PGSIZE = 0" using t(4) by (simp add: fresh_def page_ok_def)
    have Dl: "D mod PGSIZE = 0" by (rule dir_facts(1) [OF inv D])
    have outside: "km_mem ?u a = ?m a" if "\<not> in_page x a" "\<not> in_page D a" for a
      using it(5) [OF that(2)] that(1) by (simp add: memset_frame)
    show thesis
    proof (rule found [OF run])
      show "tab (km_mem ?u) D (dx va) = Some x" using it(2) by simp
      show "vm_inv kend ?u Ds fs" using it(1) by simp
      show "fs = free \<or> free = x # fs" using Cons by simp
      show se: "same_entries Ds ?m (km_mem ?u)" using it(4) fw(4) by (simp add: same_entries_def)
      have frm: "km_mem ?u a = ?m a" if "D' \<in> Ds" "owns ?m D' (Frm d i) = Some p" "in_page p a" for D' d i p a
      proof (rule outside)
        have p: "page_ok kend p" "p \<notin> set free" using vm_inv_ownsD [OF inv that(1,2)] by auto
        then show "\<not> in_page x a" using page_diff [OF that(3) page_ok_aligned [OF p(1)] al] Cons by auto
        have "p \<noteq> D" using vm_inv_unique [OF inv that(1) D that(2), of Dir] by auto
        then show "\<not> in_page D a" using page_diff [OF that(3) page_ok_aligned [OF p(1)] Dl] by auto
      qed
      have fsh: "km_mem ?u a = ?m a" if "fresh kend ?m Ds free y" "in_page y a" for y a
      proof (rule outside)
        have y: "y mod PGSIZE = 0" "y \<noteq> x" using that(1) Cons by (auto simp: fresh_def page_ok_aligned)
        then show "\<not> in_page x a" using page_diff [OF that(2) y(1) al] by simp
        have "y \<noteq> D" using that(1) D unfolding fresh_def owned_def by (metis (mono_tags, lifting) mem_Collect_eq owns.simps(1))
        then show "\<not> in_page D a" using page_diff [OF that(2) y(1) Dl] by simp
      qed
      show "keeps kend Ds s free ?u fs" unfolding keeps_def using frm fsh Cons by (intro conjI ballI allI impI) auto
      show "fresh kend (km_mem ?u) Ds fs y" if y: "fresh kend ?m Ds free y" for y
      proof -
        have "owns (km_mem ?u) D' r \<noteq> Some y" if "D' \<in> Ds" for D' r
        proof
          assume o: "owns (km_mem ?u) D' r = Some y"
          have "y \<noteq> x" using y Cons by (auto simp: fresh_def)
          then have "owns ?m D' r = Some y"
          proof (cases r)
            case (Tab d')
            then show ?thesis using o it(2,3) fw(5) [OF that] that \<open>y \<noteq> x\<close> by (cases "D' = D \<and> d' = dx va") auto
          next
            case (Frm d' i)
            then show ?thesis using o se that by (auto simp: same_entries_def split: if_splits)
          qed (use o in simp)
          then show False using y that by (auto simp: fresh_def owned_def)
        qed
        then show ?thesis using y Cons by (auto simp: fresh_def owned_def)
      qed
    qed
  qed
qed

section \<open>Mapping pages\<close>

lemma PGROUNDDOWN_aligned: "a mod PGSIZE = 0 \<Longrightarrow> PGROUNDDOWN a = a"
  and PGROUNDDOWN_last: "a mod PGSIZE = 0 \<Longrightarrow> PGROUNDDOWN (a + PGSIZE - 1) = a"
proof -
  assume a: "a mod PGSIZE = 0"
  then have "4096 dvd unat a" by (simp only: aligned_nat mod_eq_0_iff_dvd)
  then obtain k where k: "unat a = 4096 * k" by (rule dvdE)
  show "PGROUNDDOWN a = a" by (simp add: word_unat_eq_iff unat_PGROUNDDOWN k)
  have "unat (a + PGSIZE - 1) = unat a + 4095" using page_index_unat [OF a, of 4095] by (simp add: PGSIZE_def add.commute)
  then show "PGROUNDDOWN (a + PGSIZE - 1) = a" by (simp only: word_unat_eq_iff unat_PGROUNDDOWN) (simp add: k)
qed

definition set_pte :: "u32 set \<Rightarrow> mem \<Rightarrow> mem \<Rightarrow> u32 \<Rightarrow> u32 \<Rightarrow> u32 \<Rightarrow> bool" where
  "set_pte Ds m m' D a e \<longleftrightarrow> (\<forall>D'\<in>Ds. \<forall>d i. i < 1024 \<longrightarrow>
     pte_of m' D' d i = (if D' = D \<and> d = dx a \<and> i = tx a then e else pte_of m D' d i))"

lemma keeps_trans:
  assumes "keeps kend Ds s f t f'" "keeps kend Ds t f' u f''" "same_entries Ds (km_mem s) (km_mem t)"
    and "\<And>x. fresh kend (km_mem s) Ds f x \<Longrightarrow> fresh kend (km_mem t) Ds f' x"
  shows "keeps kend Ds s f u f''"
proof -
  have o: "owns (km_mem t) D (Frm d i) = owns (km_mem s) D (Frm d i)" if "D \<in> Ds" for D d i
  proof (cases "i < 1024")
    case True
    then have "pte_of (km_mem t) D d i = pte_of (km_mem s) D d i" using assms(3) that by (simp add: same_entries_def)
    then show ?thesis by simp
  qed simp
  show ?thesis unfolding keeps_def
  proof (intro conjI ballI allI impI)
    fix D d i p a assume a: "D \<in> Ds" "owns (km_mem s) D (Frm d i) = Some p" "in_page p a"
    then show "km_mem u a = km_mem s a"
      using assms(1,2) o [OF a(1), of d i] unfolding keeps_def by metis
  next
    fix x a assume a: "fresh kend (km_mem s) Ds f x" "in_page x a"
    then show "km_mem u a = km_mem s a"
      using assms(1,2) assms(4) [OF a(1)] unfolding keeps_def by metis
  qed (use assms(1,2) in \<open>auto simp: keeps_def\<close>)
qed

lemma map_entry:
  assumes inv: "vm_inv kend s Ds free" and D: "D \<in> Ds"
    and e: "dx a < 512 \<Longrightarrow> fresh kend (km_mem s) Ds free (frame_of e)"
  obtains (full) "free = []" "walkpgdir D a True s = (Inr 0, s)"
  | (found) pte t u free' where "walkpgdir D a True s = (Inr pte, t)" "pte \<noteq> 0"
      "load32 (km_mem t) pte = entry (km_mem s) D a" "u = t\<lparr>km_mem := store32 pte e (km_mem t)\<rparr>"
      "vm_inv kend u Ds free'" "set_pte Ds (km_mem s) (km_mem u) D a e" "keeps kend Ds s free u free'"
      "\<And>y. fresh kend (km_mem s) Ds free y \<Longrightarrow> y \<noteq> frame_of e \<or> 512 \<le> dx a \<Longrightarrow> fresh kend (km_mem u) Ds free' y"
proof (rule walk_alloc [OF inv D, of a])
  assume "free = []" "walkpgdir D a True s = (Inr 0, s)"
  then show thesis by (rule full)
next
  fix q t free'
  assume w: "walkpgdir D a True s = (Inr (q + 4 * of_nat (tx a)), t)" and q: "tab (km_mem t) D (dx a) = Some q"
    and vt: "vm_inv kend t Ds free'" and k: "keeps kend Ds s free t free'"
    and se: "same_entries Ds (km_mem s) (km_mem t)" and "free' = free \<or> free = q # free'"
    and ft: "\<And>x. fresh kend (km_mem s) Ds free x \<Longrightarrow> fresh kend (km_mem t) Ds free' x"
  let ?pte = "q + 4 * of_nat (tx a)"
  let ?m' = "store32 ?pte e (km_mem t)"
  let ?u = "t\<lparr>km_mem := ?m'\<rparr>"
  have e': "dx a < 512 \<longrightarrow> present e \<longrightarrow> fresh kend (km_mem t) Ds free' (frame_of e) \<or>
      owns (km_mem t) D (Frm (dx a) (tx a)) = Some (frame_of e)" using e ft by blast
  note st = set_entry [OF vt D q tx_less e']
  have l: "load32 (km_mem t) ?pte = entry (km_mem s) D a"
  proof -
    have "load32 (km_mem t) ?pte = pte_of (km_mem t) D (dx a) (tx a)" using q by (simp add: pte_of_def)
    then show ?thesis using se D by (simp add: entry_def same_entries_def)
  qed
  have nz: "?pte \<noteq> 0" by (rule slot_nonzero [OF tab_page_ok [OF vt D q] tx_less])
  have sp: "set_pte Ds (km_mem s) ?m' D a e"
    using st(3) se by (simp add: set_pte_def same_entries_def)
  note tf = table_facts [OF vt D q]
  have qo: "owns (km_mem t) D (Tab (dx a)) = Some q" using q by simp
  have ku: "keeps kend Ds t free' ?u free'" unfolding keeps_def
  proof (intro conjI ballI allI impI)
    fix D' d i p b assume b: "D' \<in> Ds" "owns (km_mem t) D' (Frm d i) = Some p" "in_page p b"
    have "p mod PGSIZE = 0" using vm_inv_ownsD [OF vt b(1,2)] page_ok_aligned by blast
    moreover have "p \<noteq> q" using vm_inv_unique [OF vt D b(1) qo, of "Frm d i"] b(2) by auto
    ultimately have "\<not> in_page q b" by (rule page_diff [OF b(3) _ tf(1)])
    then show "km_mem ?u b = km_mem t b" using st(4) by simp
  next
    fix x b assume b: "fresh kend (km_mem t) Ds free' x" "in_page x b"
    have "x mod PGSIZE = 0" using b(1) page_ok_aligned unfolding fresh_def by blast
    moreover have "x \<noteq> q" using b(1) D qo unfolding fresh_def owned_def by blast
    ultimately have "\<not> in_page q b" by (rule page_diff [OF b(2) _ tf(1)])
    then show "km_mem ?u b = km_mem t b" using st(4) by simp
  qed simp
  have fu: "fresh kend ?m' Ds free' y" if y: "fresh kend (km_mem s) Ds free y" "y \<noteq> frame_of e \<or> 512 \<le> dx a" for y
  proof -
    have f: "fresh kend (km_mem t) Ds free' y" by (rule ft [OF y(1)])
    have "owns ?m' D' r \<noteq> Some y" if "D' \<in> Ds" for D' r
    proof (cases "D' = D \<and> r = Frm (dx a) (tx a)")
      case True
      then show ?thesis using y(2) st(3) [OF D tx_less, of "dx a"] by auto
    next
      case False
      then have "owns ?m' D' r = owns (km_mem t) D' r"
        using st(2,3) that by (cases r) auto
      then show ?thesis using f that unfolding fresh_def owned_def by auto
    qed
    then show ?thesis using f unfolding fresh_def owned_def by blast
  qed
  show thesis
  proof (rule found [OF w nz l refl])
    show "vm_inv kend ?u Ds free'" by (rule st(1))
    show "set_pte Ds (km_mem s) (km_mem ?u) D a e" using sp by simp
    show "keeps kend Ds s free ?u free'" by (rule keeps_trans [OF k ku se ft])
    show "fresh kend (km_mem ?u) Ds free' y"
      if "fresh kend (km_mem s) Ds free y" "y \<noteq> frame_of e \<or> 512 \<le> dx a" for y
      using fu [OF that] by simp
  qed
qed

lemma mappages_page:
  assumes inv: "vm_inv kend s Ds free" and D: "D \<in> Ds" and a: "a mod PGSIZE = 0"
    and np: "\<not> present (entry (km_mem s) D a)"
    and e: "dx a < 512 \<Longrightarrow> fresh kend (km_mem s) Ds free (frame_of (pa OR perm OR PTE_P))"
  obtains (full) "free = []" "mappages D a PGSIZE pa perm s = (Inr (- 1), s)"
  | (found) u free' where "mappages D a PGSIZE pa perm s = (Inr 0, u)"
      "vm_inv kend u Ds free'" "set_pte Ds (km_mem s) (km_mem u) D a (pa OR perm OR PTE_P)"
      "keeps kend Ds s free u free'"
      "\<And>y. fresh kend (km_mem s) Ds free y \<Longrightarrow> y \<noteq> frame_of (pa OR perm OR PTE_P) \<or> 512 \<le> dx a \<Longrightarrow>
        fresh kend (km_mem u) Ds free' y"
proof (rule map_entry [OF inv D e])
  assume f: "free = []" "walkpgdir D a True s = (Inr 0, s)"
  then have "mappages D a PGSIZE pa perm s = (Inr (- 1), s)"
    unfolding mappages_def PGROUNDDOWN_aligned [OF a] PGROUNDDOWN_last [OF a]
    by (subst mappages_loop.simps) simp
  with f show thesis by (intro full)
next
  fix pte t u free'
  assume w: "walkpgdir D a True s = (Inr pte, t)" "pte \<noteq> 0"
      "load32 (km_mem t) pte = entry (km_mem s) D a" "u = t\<lparr>km_mem := store32 pte (pa OR perm OR PTE_P) (km_mem t)\<rparr>"
    and r: "vm_inv kend u Ds free'" "set_pte Ds (km_mem s) (km_mem u) D a (pa OR perm OR PTE_P)"
      "keeps kend Ds s free u free'"
      "\<And>y. fresh kend (km_mem s) Ds free y \<Longrightarrow> y \<noteq> frame_of (pa OR perm OR PTE_P) \<or> 512 \<le> dx a \<Longrightarrow>
        fresh kend (km_mem u) Ds free' y"
  have "mappages D a PGSIZE pa perm s = (Inr 0, u)"
    unfolding mappages_def PGROUNDDOWN_aligned [OF a] PGROUNDDOWN_last [OF a]
    using w np by (subst mappages_loop.simps) (simp add: rd32_def upd_mem_def present_def)
  then show thesis using r by (rule found)
qed

end
