(* ===== verification/Vm_Free.thy ===== *)
theory Vm_Free
  imports Vm_Walk
begin

text \<open>
  \<open>deallocuvm\<close> and \<open>freevm\<close>: the pages of an address range, or of a whole address space, go back to
  the free list, each one once, and no other address space is touched.
\<close>

unbundle bit_operations_syntax

section \<open>Unmapping pages\<close>

text \<open>The address of an entry, as a number.\<close>

definition vaddr :: "nat \<Rightarrow> nat \<Rightarrow> nat" where "vaddr d i = d * 2 ^ 22 + i * 4096"

lemma vaddr_dx_tx: "a mod PGSIZE = 0 \<Longrightarrow> vaddr (dx a) (tx a) = unat a"
proof -
  assume a: "a mod PGSIZE = 0"
  then have "4096 dvd unat a" by (simp only: aligned_nat mod_eq_0_iff_dvd)
  then obtain k where k: "unat a = 4096 * k" by (rule dvdE)
  have "unat a div 2 ^ 22 = k div 1024" "unat a div 2 ^ 12 mod 1024 = k mod 1024"
    by (simp_all add: k div_mult2_eq [symmetric])
  moreover have "x * 2 ^ 22 + y * 4096 = 4096 * (x * 1024 + y)" for x y :: nat by simp
  ultimately show ?thesis by (simp only: vaddr_def dx_def tx_def PDX_unat PTX_unat k div_mult_mod_eq)
qed

lemma vaddr_inj:
  assumes "i < 1024" "j < 1024" "vaddr d i = vaddr e j"
  shows "d = e \<and> i = j"
proof -
  have "vaddr d i = 4096 * (d * 1024 + i)" for d i by (simp add: vaddr_def)
  then have "d * 1024 + i = e * 1024 + j" using assms(3) by simp
  then have "(d * 1024 + i) div 1024 = (e * 1024 + j) div 1024" "(d * 1024 + i) mod 1024 = (e * 1024 + j) mod 1024"
    by simp_all
  then show ?thesis using assms(1,2) by simp
qed

lemma vaddr_step:
  assumes a: "a mod PGSIZE = 0" "unat a + 4096 \<le> 2 ^ 31" and i: "i < 1024"
  shows "unat a \<le> vaddr d i \<longleftrightarrow> vaddr d i = unat a \<or> unat (a + PGSIZE) \<le> vaddr d i"
proof -
  have "4096 dvd unat a" using a(1) by (simp only: aligned_nat mod_eq_0_iff_dvd)
  then obtain k where k: "unat a = 4096 * k" by (rule dvdE)
  obtain w where v: "vaddr d i = 4096 * w" by (rule that [of "d * 1024 + i"]) (simp add: vaddr_def)
  have "unat (a + PGSIZE) = unat a + 4096" using a(2) by (simp add: PGSIZE_def unat_word_ariths)
  then show ?thesis unfolding v k by auto
qed

lemma next_table:
  assumes "dx a < 1023"
  shows "unat (PGADDR (PDX a + 1) 0 0 - PGSIZE + PGSIZE) = (dx a + 1) * 2 ^ 22"
    "(PGADDR (PDX a + 1) 0 0 - PGSIZE + PGSIZE) mod PGSIZE = 0"
    "a < PGADDR (PDX a + 1) 0 0 - PGSIZE + PGSIZE"
proof -
  have "PGADDR (PDX a + 1) 0 0 = of_nat (dx a + 1) * 2 ^ 22"
    by (simp add: PGADDR_def push_bit_eq_mult dx_def)
  moreover have "(dx a + 1) * 2 ^ 22 < 2 ^ 32" using assms by simp
  ultimately show u: "unat (PGADDR (PDX a + 1) 0 0 - PGSIZE + PGSIZE) = (dx a + 1) * 2 ^ 22"
    by (simp add: unat_word_ariths unat_of_nat)
  show "(PGADDR (PDX a + 1) 0 0 - PGSIZE + PGSIZE) mod PGSIZE = 0"
    unfolding aligned_nat u by (simp add: mod_mult_eq [symmetric])
  have "unat a div 2 ^ 22 < dx a + 1" by (simp add: dx_def PDX_unat)
  then have "unat a < (dx a + 1) * 2 ^ 22" by (simp add: dx_def PDX_unat div_less_iff_less_mult)
  then show "a < PGADDR (PDX a + 1) 0 0 - PGSIZE + PGSIZE" unfolding word_less_nat_alt u .
qed

lemma dx_user: "unat a < 2 ^ 31 \<longleftrightarrow> dx a < 512"
  by (simp add: dx_def PDX_unat div_less_iff_less_mult)

text \<open>
  \<open>kfree\<close> comes before the entry is cleared. The two writes touch different pages and commute,
  so the state after both is that of clearing first, for which the invariant holds throughout.
\<close>

lemma unmap_step:
  assumes inv: "vm_inv kend s Ds free" and D: "D \<in> Ds" and q: "tab (km_mem s) D (dx a) = Some q"
    and x: "owns (km_mem s) D (Frm (dx a) (tx a)) = Some x"
  obtains t u where "kfree kend x s = (Inr (), t)" "u = t\<lparr>km_mem := store32 (q + 4 * of_nat (tx a)) 0 (km_mem t)\<rparr>"
    "vm_inv kend u Ds (x # free)" "set_pte Ds (km_mem s) (km_mem u) D a 0"
    "\<And>D' d. D' \<in> Ds \<Longrightarrow> tab (km_mem u) D' d = tab (km_mem s) D' d"
    "\<And>b. \<not> in_page x b \<Longrightarrow> \<not> in_page q b \<Longrightarrow> km_mem u b = km_mem s b"
proof -
  let ?pte = "q + 4 * of_nat (tx a)"
  let ?c = "s\<lparr>km_mem := store32 ?pte 0 (km_mem s)\<rparr>"
  have "dx a < 512 \<longrightarrow> present 0 \<longrightarrow> fresh kend (km_mem s) Ds free (frame_of 0) \<or>
     owns (km_mem s) D (Frm (dx a) (tx a)) = Some (frame_of 0)" by simp
  note st = set_entry [OF inv D q tx_less this]
  have xp: "page_ok kend x" "x \<notin> set free" using vm_inv_ownsD [OF inv D x] by auto
  have fx: "fresh kend (km_mem ?c) Ds free x"
  proof -
    have "owns (km_mem ?c) D' r \<noteq> Some x" if "D' \<in> Ds" for D' r
    proof (cases "D' = D \<and> r = Frm (dx a) (tx a)")
      case True
      then show ?thesis using st(3) [OF D tx_less, of "dx a"] by auto
    next
      case False
      then have "owns (km_mem ?c) D' r = owns (km_mem s) D' r"
        using st(2,3) that by (cases r) auto
      then show ?thesis using vm_inv_unique [OF inv that D _ x, of r] False by metis
    qed
    then show ?thesis using xp unfolding fresh_def owned_def by blast
  qed
  obtain u where u: "kfree kend x ?c = (Inr (), u)" "vm_inv kend u Ds (x # free)"
    "\<And>b. \<not> in_page x b \<Longrightarrow> km_mem u b = km_mem ?c b"
    "\<And>D d t'. D \<in> Ds \<Longrightarrow> t' < 1024 \<Longrightarrow> pte_of (km_mem u) D d t' = pte_of (km_mem ?c) D d t'"
    "\<And>D d. D \<in> Ds \<Longrightarrow> tab (km_mem u) D d = tab (km_mem ?c) D d"
    by (rule kfree_fresh [OF st(1) fx]) blast
  have qo: "owns (km_mem s) D (Tab (dx a)) = Some q" using q by simp
  have qx: "q \<noteq> x" using vm_inv_unique [OF inv D D qo, of "Frm (dx a) (tx a)"] x by auto
  note tf = table_facts [OF inv D q]
  have disj: "\<not> in_page x b" if "in_page q b" for b
    using page_diff [OF that tf(1) page_ok_aligned [OF xp(1)] qx] .
  define t where "t = s\<lparr>km_mem := store32 x (km_freelist s) (memset x 1 PGSIZE (km_mem s)), km_freelist := x\<rparr>"
  have "\<not> (x mod PGSIZE \<noteq> 0 \<or> x < kend \<or> PHYSTOP \<le> V2P x)" using xp(1) by (auto simp: page_ok_def)
  then have kf: "kfree kend x v = (Inr (), v\<lparr>km_mem := store32 x (km_freelist v) (memset x 1 PGSIZE (km_mem v)), km_freelist := x\<rparr>)" for v
    unfolding kfree_def by (simp only: if_False)
  have t: "kfree kend x s = (Inr (), t)" unfolding kf t_def ..
  have um: "u = ?c\<lparr>km_mem := store32 x (km_freelist s) (memset x 1 PGSIZE (km_mem ?c)), km_freelist := x\<rparr>"
    using u(1) unfolding kf by simp
  have comm: "store32 ?pte 0 (store32 x fl (memset x 1 PGSIZE m)) = store32 x fl (memset x 1 PGSIZE (store32 ?pte 0 m))"
    for m fl
  proof
    fix b
    have cong: "store32 ?pte 0 m1 b = store32 ?pte 0 m2 b" if "m1 b = m2 b" for m1 m2 :: mem
      using that by (simp add: store32_def)
    have page: "store32 x fl (memset x 1 PGSIZE m1) b = store32 x fl (memset x 1 PGSIZE m2) b" if "in_page x b" for m1 m2
      using that by (simp add: store32_def memset_apply in_page_def PGSIZE_def)
    show "store32 ?pte 0 (store32 x fl (memset x 1 PGSIZE m)) b = store32 x fl (memset x 1 PGSIZE (store32 ?pte 0 m)) b"
    proof (cases "in_page x b")
      case True
      then have "\<not> in_page q b" using disj by blast
      then have "store32 ?pte 0 (store32 x fl (memset x 1 PGSIZE m)) b = store32 x fl (memset x 1 PGSIZE m) b"
        by (rule store32_frame [OF tx_less])
      then show ?thesis using page [OF True] by metis
    next
      case False
      then show ?thesis by (simp add: kfree_frame) (intro cong, simp add: kfree_frame)
    qed
  qed
  have ueq: "u = t\<lparr>km_mem := store32 ?pte 0 (km_mem t)\<rparr>" unfolding t_def um by (simp add: comm)
  show thesis
  proof (rule that [OF t ueq u(2)])
    show "set_pte Ds (km_mem s) (km_mem u) D a 0" using u(4) st(3) by (simp add: set_pte_def)
    show "tab (km_mem u) D' d = tab (km_mem s) D' d" if "D' \<in> Ds" for D' d using u(5) st(2) that by simp
    show "km_mem u b = km_mem s b" if "\<not> in_page x b" "\<not> in_page q b" for b
      using u(3) [OF that(1)] st(4) [OF that(2)] by simp
  qed
qed

definition in_range :: "nat \<Rightarrow> nat \<Rightarrow> nat \<Rightarrow> nat \<Rightarrow> bool" where
  "in_range lo hi d i \<longleftrightarrow> lo \<le> vaddr d i \<and> vaddr d i < hi"

text \<open>What freeing the pages of \<open>D\<close> between two addresses does to every address space.\<close>

definition unmapped :: "u32 set \<Rightarrow> mem \<Rightarrow> mem \<Rightarrow> u32 \<Rightarrow> nat \<Rightarrow> nat \<Rightarrow> bool" where
  "unmapped Ds m m' D lo hi \<longleftrightarrow> (\<forall>D'\<in>Ds. \<forall>d i. i < 1024 \<longrightarrow>
     pte_of m' D' d i = (if D' = D \<and> in_range lo hi d i \<and> present (pte_of m D d i) then 0 else pte_of m D' d i))"

definition frames_in :: "mem \<Rightarrow> u32 \<Rightarrow> nat \<Rightarrow> nat \<Rightarrow> u32 set" where
  "frames_in m D lo hi = {x. \<exists>d i. in_range lo hi d i \<and> owns m D (Frm d i) = Some x}"

definition dealloc_post ::
  "u32 \<Rightarrow> u32 set \<Rightarrow> kmem \<Rightarrow> u32 list \<Rightarrow> kmem \<Rightarrow> u32 list \<Rightarrow> u32 \<Rightarrow> nat \<Rightarrow> nat \<Rightarrow> bool" where
  "dealloc_post kend Ds s free t xs D lo hi \<longleftrightarrow>
     vm_inv kend t Ds (xs @ free) \<and> unmapped Ds (km_mem s) (km_mem t) D lo hi \<and>
     (\<forall>D'\<in>Ds. \<forall>d. tab (km_mem t) D' d = tab (km_mem s) D' d) \<and>
     set xs = frames_in (km_mem s) D lo hi \<and>
     (\<forall>p a. p mod PGSIZE = 0 \<longrightarrow> p \<notin> set xs \<longrightarrow> (\<forall>d. tab (km_mem s) D d \<noteq> Some p) \<longrightarrow> in_page p a \<longrightarrow>
        km_mem t a = km_mem s a)"

lemma owns_Frm_present: "owns m D (Frm d i) = Some x \<Longrightarrow> i < 1024 \<and> present (pte_of m D d i)"
  by (simp split: if_splits)

lemma dealloc_none:
  assumes inv: "vm_inv kend s Ds free" and D: "D \<in> Ds"
    and e: "\<And>d i. i < 1024 \<Longrightarrow> in_range lo hi d i \<Longrightarrow> in_range lo' hi d i \<or> \<not> present (pte_of (km_mem s) D d i)"
    and sub: "\<And>d i. in_range lo' hi d i \<Longrightarrow> in_range lo hi d i"
    and p: "dealloc_post kend Ds s free t xs D lo' hi"
  shows "dealloc_post kend Ds s free t xs D lo hi"
proof -
  have "frames_in (km_mem s) D lo hi = frames_in (km_mem s) D lo' hi"
    unfolding frames_in_def using e sub owns_Frm_present by blast
  moreover have "unmapped Ds (km_mem s) (km_mem t) D lo hi"
    using p e sub unfolding dealloc_post_def unmapped_def by (metis (no_types, lifting))
  ultimately show ?thesis using p unfolding dealloc_post_def by simp
qed

lemma dealloc_cons:
  assumes inv: "vm_inv kend s Ds free" and D: "D \<in> Ds" and a: "a mod PGSIZE = 0" "a < oldsz" "unat oldsz \<le> 2 ^ 31"
    and q: "tab (km_mem s) D (dx a) = Some q" and x: "owns (km_mem s) D (Frm (dx a) (tx a)) = Some x"
    and u: "set_pte Ds (km_mem s) (km_mem u) D a 0" "\<forall>D'\<in>Ds. \<forall>d. tab (km_mem u) D' d = tab (km_mem s) D' d"
      "\<forall>b. \<not> in_page x b \<longrightarrow> \<not> in_page q b \<longrightarrow> km_mem u b = km_mem s b"
    and p: "dealloc_post kend Ds u (x # free) t xs D (unat (a + PGSIZE)) (unat oldsz)"
  shows "dealloc_post kend Ds s free t (xs @ [x]) D (unat a) (unat oldsz)"
proof -
  let ?lo = "unat a" and ?lo' = "unat (a + PGSIZE)" and ?hi = "unat oldsz"
  have lt: "unat a < ?hi" using a(2) by (simp add: word_less_nat_alt)
  have va: "vaddr (dx a) (tx a) = ?lo" by (rule vaddr_dx_tx [OF a(1)])
  have "unat a + 4096 \<le> 2 ^ 31"
  proof -
    have "4096 dvd unat a" using a(1) by (simp only: aligned_nat mod_eq_0_iff_dvd)
    then obtain k where k: "unat a = 4096 * k" by (rule dvdE)
    have "4096 * k < 4096 * 2 ^ 19" using lt a(3) k by simp
    then have "k < 2 ^ 19" by (simp only: nat_mult_less_cancel_disj)
    then show ?thesis using k by simp
  qed
  note vs = vaddr_step [OF a(1) this]
  have lo': "?lo' = ?lo + 4096" using \<open>unat a + 4096 \<le> 2 ^ 31\<close> by (simp add: PGSIZE_def unat_word_ariths)
  have rng: "in_range ?lo ?hi d i \<longleftrightarrow> (d = dx a \<and> i = tx a) \<or> in_range ?lo' ?hi d i" if "i < 1024" for d i
  proof (cases "vaddr d i = ?lo")
    case True
    then have "d = dx a \<and> i = tx a" using vaddr_inj [OF that tx_less [of a], of d "dx a"] va by simp
    then show ?thesis using True lt by (simp add: in_range_def)
  next
    case False
    then have "\<not> (d = dx a \<and> i = tx a)" using va by auto
    then show ?thesis using vs [OF that, of d] False unfolding in_range_def by blast
  qed
  have here: "\<not> in_range ?lo' ?hi (dx a) (tx a)" unfolding in_range_def va using lo' by linarith
  have pu: "pte_of (km_mem u) D' d i = (if D' = D \<and> d = dx a \<and> i = tx a then 0 else pte_of (km_mem s) D' d i)"
    if "D' \<in> Ds" "i < 1024" for D' d i using u(1) that by (simp add: set_pte_def)
  have un: "pte_of (km_mem t) D' d i = (if D' = D \<and> in_range ?lo' ?hi d i \<and> present (pte_of (km_mem u) D d i) then 0
      else pte_of (km_mem u) D' d i)" if "D' \<in> Ds" "i < 1024" for D' d i
    using p that by (simp add: dealloc_post_def unmapped_def)
  have px: "present (pte_of (km_mem s) D (dx a) (tx a))" using owns_Frm_present [OF x] by blast
  have "unmapped Ds (km_mem s) (km_mem t) D ?lo ?hi" unfolding unmapped_def
  proof (intro ballI allI impI)
    fix D' d i assume "D' \<in> Ds" and i: "i < (1024::nat)"
    then show "pte_of (km_mem t) D' d i = (if D' = D \<and> in_range ?lo ?hi d i \<and> present (pte_of (km_mem s) D d i) then 0
      else pte_of (km_mem s) D' d i)"
      using un [of D' i d] pu [of D' i d] pu [OF D i, of d] rng [OF i, of d] px here by auto
  qed
  moreover have "frames_in (km_mem s) D ?lo ?hi = insert x (frames_in (km_mem u) D ?lo' ?hi)"
  proof -
    have ow: "owns (km_mem u) D (Frm d i) = (if d = dx a \<and> i = tx a then None else owns (km_mem s) D (Frm d i))" for d i
      using pu [OF D, of i d] by auto
    have "y \<in> frames_in (km_mem s) D ?lo ?hi \<longleftrightarrow> y = x \<or> y \<in> frames_in (km_mem u) D ?lo' ?hi" for y
    proof
      assume "y \<in> frames_in (km_mem s) D ?lo ?hi"
      then obtain d i where di: "in_range ?lo ?hi d i" "owns (km_mem s) D (Frm d i) = Some y"
        unfolding frames_in_def by blast
      then have "(d = dx a \<and> i = tx a) \<or> in_range ?lo' ?hi d i" using rng owns_Frm_present by blast
      moreover have "y = x" if "d = dx a \<and> i = tx a" using that di(2) x by simp
      moreover have "y \<in> frames_in (km_mem u) D ?lo' ?hi" if "in_range ?lo' ?hi d i" "\<not> (d = dx a \<and> i = tx a)"
      proof -
        have "owns (km_mem u) D (Frm d i) = Some y" unfolding ow using that(2) di(2) by (simp del: owns.simps)
        then show ?thesis using that(1) unfolding frames_in_def by blast
      qed
      ultimately show "y = x \<or> y \<in> frames_in (km_mem u) D ?lo' ?hi" by blast
    next
      assume "y = x \<or> y \<in> frames_in (km_mem u) D ?lo' ?hi"
      then show "y \<in> frames_in (km_mem s) D ?lo ?hi"
      proof
        assume "y = x"
        moreover have "in_range ?lo ?hi (dx a) (tx a)" by (simp add: in_range_def va lt)
        ultimately show ?thesis using x unfolding frames_in_def by blast
      next
        assume "y \<in> frames_in (km_mem u) D ?lo' ?hi"
        then obtain d i where di: "in_range ?lo' ?hi d i" "owns (km_mem u) D (Frm d i) = Some y"
          unfolding frames_in_def by blast
        then have "owns (km_mem s) D (Frm d i) = Some y" unfolding ow by (simp split: if_splits del: owns.simps)
        moreover have "in_range ?lo ?hi d i" using di(1) lo' by (simp add: in_range_def)
        ultimately show ?thesis unfolding frames_in_def by blast
      qed
    qed
    then show ?thesis by blast
  qed
  moreover have "km_mem t b = km_mem s b"
    if "r mod PGSIZE = 0" "r \<notin> set (xs @ [x])" "\<forall>d. tab (km_mem s) D d \<noteq> Some r" "in_page r b" for r b
  proof -
    have xp: "x mod PGSIZE = 0" using vm_inv_ownsD [OF inv D x] page_ok_aligned by blast
    have "\<not> in_page x b" using that by (intro page_diff [OF that(4,1) xp]) auto
    moreover have "\<not> in_page q b" using that q by (intro page_diff [OF that(4,1) table_facts(1) [OF inv D q]]) auto
    ultimately have "km_mem u b = km_mem s b" using u(3) by blast
    moreover have "km_mem t b = km_mem u b" using p that u(2) D unfolding dealloc_post_def by auto
    ultimately show ?thesis by simp
  qed
  ultimately show ?thesis using p u(2) unfolding dealloc_post_def by auto
qed

lemma in_range_mono: "lo \<le> lo' \<Longrightarrow> in_range lo' hi d i \<Longrightarrow> in_range lo hi d i"
  by (simp add: in_range_def)

lemma deallocuvm_loop_ok:
  assumes "vm_inv kend s Ds free" "D \<in> Ds" "a mod PGSIZE = 0" "unat oldsz \<le> 2 ^ 31"
  shows "\<exists>t xs. deallocuvm_loop kend D a oldsz s = (Inr (), t) \<and>
     dealloc_post kend Ds s free t xs D (unat a) (unat oldsz)"
  using assms
proof (induction "2 ^ 32 - unat a" arbitrary: a s free rule: less_induct)
  case less
  note inv = less.prems(1) and D = less.prems(2) and al = less.prems(3)
  let ?m = "km_mem s"
  show ?case
  proof (cases "a < oldsz")
    case False
    then have "\<not> in_range (unat a) (unat oldsz) d i" for d i
      by (auto simp: in_range_def word_less_nat_alt)
    then have "dealloc_post kend Ds s free s [] D (unat a) (unat oldsz)"
      using inv unfolding dealloc_post_def unmapped_def frames_in_def by simp
    then show ?thesis using False by (subst deallocuvm_loop.simps) auto
  next
    case True
    then have lt: "unat a < unat oldsz" by (simp add: word_less_nat_alt)
    have dxa: "dx a < 512" using lt less.prems(4) dx_user [of a] by simp
    show ?thesis
    proof (cases "tab ?m D (dx a)")
      case None
      let ?b = "PGADDR (PDX a + 1) 0 0 - PGSIZE + PGSIZE"
      have "dx a < 1023" using dxa by simp
      note nt = next_table [OF this]
      have "unat a < unat ?b" using nt(3) by (simp only: word_less_nat_alt)
      then have "2 ^ 32 - unat ?b < 2 ^ 32 - unat a" using unsigned_less [of a, where ?'a = nat] by simp
      from less.hyps [OF this inv D nt(2) less.prems(4)] obtain t xs where
        t: "deallocuvm_loop kend D ?b oldsz s = (Inr (), t)" "dealloc_post kend Ds s free t xs D (unat ?b) (unat oldsz)"
        by blast
      have "deallocuvm_loop kend D a oldsz s = (Inr (), t)"
        using True None nt(3) t(1) by (subst deallocuvm_loop.simps) (simp add: walk_lookup)
      moreover have "dealloc_post kend Ds s free t xs D (unat a) (unat oldsz)"
      proof (rule dealloc_none [OF inv D _ _ t(2)])
        fix d i assume i: "i < (1024::nat)" and r: "in_range (unat a) (unat oldsz) d i"
        show "in_range (unat ?b) (unat oldsz) d i \<or> \<not> present (pte_of ?m D d i)"
        proof (cases "unat ?b \<le> vaddr d i")
          case True
          then show ?thesis using r by (simp add: in_range_def)
        next
          case False
          then have "d * 2 ^ 22 < (dx a + 1) * 2 ^ 22" unfolding nt(1) vaddr_def by linarith
          then have "d \<le> dx a" by simp
          moreover have "dx a * 2 ^ 22 \<le> unat a" by (simp add: dx_def PDX_unat)
          then have "dx a * 2 ^ 22 < (d + 1) * 2 ^ 22" using r i unfolding in_range_def vaddr_def by simp
          then have "dx a \<le> d" by simp
          ultimately show ?thesis using None by (simp add: pte_of_def)
        qed
      next
        show "in_range (unat ?b) (unat oldsz) d i \<Longrightarrow> in_range (unat a) (unat oldsz) d i" for d i
          using \<open>unat a < unat ?b\<close> by (simp add: in_range_def)
      qed
      ultimately show ?thesis by blast
    next
      case (Some q)
      let ?pte = "q + 4 * of_nat (tx a)"
      have nz: "?pte \<noteq> 0" by (rule slot_nonzero [OF tab_page_ok [OF inv D Some] tx_less])
      have le: "load32 ?m ?pte = pte_of ?m D (dx a) (tx a)" using Some by (simp add: pte_of_def)
      have "unat a < 2 ^ 31" using lt less.prems(4) by simp
      then have na: "unat (a + PGSIZE) = unat a + 4096" by (simp add: PGSIZE_def unat_word_ariths)
      then have aa: "a < a + PGSIZE" "2 ^ 32 - unat (a + PGSIZE) < 2 ^ 32 - unat a"
        using \<open>unat a < 2 ^ 31\<close> by (auto simp: word_less_nat_alt)
      have al': "(a + PGSIZE) mod PGSIZE = 0" using al unfolding aligned_nat na by simp
      show ?thesis
      proof (cases "present (pte_of ?m D (dx a) (tx a))")
        case False
        from less.hyps [OF aa(2) inv D al' less.prems(4)] obtain t xs where
          t: "deallocuvm_loop kend D (a + PGSIZE) oldsz s = (Inr (), t)"
            "dealloc_post kend Ds s free t xs D (unat (a + PGSIZE)) (unat oldsz)" by blast
        have "deallocuvm_loop kend D a oldsz s = (Inr (), t)"
          using True Some nz le aa(1) t(1) False
          by (subst deallocuvm_loop.simps) (simp add: walk_lookup rd32_def present_def)
        moreover have "dealloc_post kend Ds s free t xs D (unat a) (unat oldsz)"
        proof (rule dealloc_none [OF inv D _ _ t(2)])
          fix d i assume i: "i < (1024::nat)" and r: "in_range (unat a) (unat oldsz) d i"
          have k: "4096 dvd unat a" using al by (simp only: aligned_nat mod_eq_0_iff_dvd)
          show "in_range (unat (a + PGSIZE)) (unat oldsz) d i \<or> \<not> present (pte_of ?m D d i)"
          proof (cases "vaddr d i = unat a")
            case True
            then have "d = dx a \<and> i = tx a" using vaddr_inj [OF i tx_less [of a], of d "dx a"] vaddr_dx_tx [OF al] by simp
            then show ?thesis using False by simp
          next
            case False
            obtain w where w: "vaddr d i = 4096 * w"
              by (rule that [of "d * 1024 + i"]) (simp add: vaddr_def)
            obtain k where k: "unat a = 4096 * k" using k by (rule dvdE)
            have "unat a + 4096 \<le> vaddr d i" using False r unfolding in_range_def w k by simp
            then show ?thesis using r by (simp add: in_range_def na)
          qed
        next
          show "in_range (unat (a + PGSIZE)) (unat oldsz) d i \<Longrightarrow> in_range (unat a) (unat oldsz) d i" for d i
            using na by (simp add: in_range_def)
        qed
        ultimately show ?thesis by blast
      next
        case p: True
        let ?x = "frame_of (pte_of ?m D (dx a) (tx a))"
        have x: "owns ?m D (Frm (dx a) (tx a)) = Some ?x" using p dxa by simp
        have xp: "page_ok kend ?x" using vm_inv_ownsD [OF inv D x] by blast
        have "KERNBASE < kend" using inv by (simp add: vm_inv_def)
        then have pa: "PTE_ADDR (pte_of ?m D (dx a) (tx a)) \<noteq> 0"
          using xp by (auto simp: page_ok_def frame_of_def P2V_def)
        obtain t u where k: "kfree kend ?x s = (Inr (), t)" "u = t\<lparr>km_mem := store32 ?pte 0 (km_mem t)\<rparr>"
          "vm_inv kend u Ds (?x # free)" "set_pte Ds ?m (km_mem u) D a 0"
          "\<And>D' d. D' \<in> Ds \<Longrightarrow> tab (km_mem u) D' d = tab ?m D' d"
          "\<And>b. \<not> in_page ?x b \<Longrightarrow> \<not> in_page q b \<Longrightarrow> km_mem u b = ?m b"
          by (rule unmap_step [OF inv D Some x]) blast
        from less.hyps [OF aa(2) k(3) D al' less.prems(4)] obtain v xs where
          v: "deallocuvm_loop kend D (a + PGSIZE) oldsz u = (Inr (), v)"
            "dealloc_post kend Ds u (?x # free) v xs D (unat (a + PGSIZE)) (unat oldsz)" by blast
        have "deallocuvm_loop kend D a oldsz s = (Inr (), v)"
          using True Some nz le aa(1) v(1) p pa k(1,2)
          by (subst deallocuvm_loop.simps) (simp add: walk_lookup rd32_def upd_mem_def present_def frame_of_def)
        moreover have "dealloc_post kend Ds s free v (xs @ [?x]) D (unat a) (unat oldsz)"
          by (rule dealloc_cons [OF inv D al True less.prems(4) Some x k(4) _ _ v(2)]) (use k(5,6) in blast)+
        ultimately show ?thesis by blast
      qed
    qed
  qed
qed

lemma unat_PGROUNDUP:
  assumes "unat a \<le> 2 ^ 31"
  shows "unat (PGROUNDUP a) = (unat a + 4095) div 4096 * 4096"
proof -
  have "PGROUNDUP a = PGROUNDDOWN (a + 4095)" by (simp add: PGROUNDUP_def PGROUNDDOWN_def PGSIZE_def add.commute)
  moreover have "unat (a + 4095) = unat a + 4095" using assms by (simp add: unat_word_ariths)
  ultimately show ?thesis by (simp add: unat_PGROUNDDOWN)
qed

lemma deallocuvm_ok:
  assumes "vm_inv kend s Ds free" "D \<in> Ds" "unat oldsz \<le> 2 ^ 31" "newsz < oldsz"
  shows "\<exists>t xs. deallocuvm kend D oldsz newsz s = (Inr newsz, t) \<and>
     dealloc_post kend Ds s free t xs D (unat (PGROUNDUP newsz)) (unat oldsz)"
  using deallocuvm_loop_ok [OF assms(1,2) PGROUNDUP_aligned assms(3), of newsz] assms(4)
  by (auto simp: deallocuvm_def)

section \<open>Freeing an address space\<close>

lemma vaddr_user: "d < 512 \<Longrightarrow> i < 1024 \<Longrightarrow> vaddr d i < 2 ^ 31"
proof -
  assume "d < 512" "i < 1024"
  then have "d * 2 ^ 22 \<le> 511 * 2 ^ 22" "i * 4096 \<le> 1023 * 4096" by simp_all
  then show ?thesis unfolding vaddr_def by simp
qed

text \<open>What is left of \<open>D\<close> when its entries from \<open>k\<close> on are still to be freed.\<close>

definition half_freed :: "u32 \<Rightarrow> kmem \<Rightarrow> u32 set \<Rightarrow> u32 list \<Rightarrow> u32 \<Rightarrow> nat \<Rightarrow> bool" where
  "half_freed kend s Ds free D k \<longleftrightarrow> vm_inv kend s Ds free \<and> fresh kend (km_mem s) Ds free D \<and>
     (\<forall>i p. k \<le> i \<longrightarrow> tab (km_mem s) D i = Some p \<longrightarrow> fresh kend (km_mem s) Ds free p \<and> p \<noteq> D) \<and>
     (\<forall>i j p. k \<le> i \<longrightarrow> k \<le> j \<longrightarrow> tab (km_mem s) D i = Some p \<longrightarrow> tab (km_mem s) D j = Some p \<longrightarrow> i = j)"

lemma fresh_kept:
  assumes "fresh kend m Ds free y" "\<And>D r. D \<in> Ds \<Longrightarrow> owns m' D r = owns m D r" "y \<noteq> x"
  shows "fresh kend m' Ds (x # free) y"
  using assms by (auto simp: fresh_def owned_def)

lemma freevm_entry_step:
  assumes h: "half_freed kend s Ds free D k" and k: "k < 1024"
  shows "\<exists>t ys. freevm_entry kend D k s = (Inr (), t) \<and> half_freed kend t Ds (ys @ free) D (Suc k) \<and>
     set ys = {p. tab (km_mem s) D k = Some p} \<and> (\<forall>i. tab (km_mem t) D i = tab (km_mem s) D i) \<and>
     (\<forall>D'\<in>Ds. \<forall>r. owns (km_mem t) D' r = owns (km_mem s) D' r) \<and>
     (\<forall>D'\<in>Ds. \<forall>d i. i < 1024 \<longrightarrow> pte_of (km_mem t) D' d i = pte_of (km_mem s) D' d i) \<and>
     (\<forall>a. (\<forall>p. tab (km_mem s) D k = Some p \<longrightarrow> \<not> in_page p a) \<longrightarrow> km_mem t a = km_mem s a)"
proof (cases "tab (km_mem s) D k")
  case None
  then have "\<not> present (load32 (km_mem s) (D + 4 * of_nat k))" using k by (simp add: tab_def pde_of_def split: if_splits)
  then have "freevm_entry kend D k s = (Inr (), s)" by (simp add: freevm_entry_def rd32_def present_def)
  moreover have "half_freed kend s Ds free D (Suc k)" using h Suc_leD unfolding half_freed_def by blast
  ultimately show ?thesis using None by (intro exI [of _ s] exI [of _ "[]"]) auto
next
  case (Some p)
  have inv: "vm_inv kend s Ds free" and fp: "fresh kend (km_mem s) Ds free p" and pD: "p \<noteq> D"
    using h Some unfolding half_freed_def by auto
  have fD: "fresh kend (km_mem s) Ds free D" using h by (simp add: half_freed_def)
  obtain t where t: "kfree kend p s = (Inr (), t)" "vm_inv kend t Ds (p # free)"
    "\<And>a. \<not> in_page p a \<Longrightarrow> km_mem t a = km_mem s a"
    "\<And>D r. D \<in> Ds \<Longrightarrow> owns (km_mem t) D r = owns (km_mem s) D r"
    "\<And>D d t'. D \<in> Ds \<Longrightarrow> t' < 1024 \<Longrightarrow> pte_of (km_mem t) D d t' = pte_of (km_mem s) D d t'"
    by (rule kfree_fresh [OF inv fp]) blast
  have al: "p mod PGSIZE = 0" "D mod PGSIZE = 0" using fp fD page_ok_aligned unfolding fresh_def by blast+
  have tD: "tab (km_mem t) D i = tab (km_mem s) D i" for i
  proof (rule tab_cong)
    show "km_mem t a = km_mem s a" if "in_page D a" for a
      using page_diff [OF that al(2,1)] pD t(3) by auto
  qed
  have "present (load32 (km_mem s) (D + 4 * of_nat k))" "p = frame_of (load32 (km_mem s) (D + 4 * of_nat k))"
    using Some by (simp_all add: tab_def pde_of_def split: if_splits)
  then have run: "freevm_entry kend D k s = (Inr (), t)"
    using t(1) by (simp add: freevm_entry_def rd32_def present_def frame_of_def)
  have keep: "fresh kend (km_mem t) Ds (p # free) y" if "fresh kend (km_mem s) Ds free y" "y \<noteq> p" for y
    by (rule fresh_kept [OF that(1) t(4) that(2)])
  have "half_freed kend t Ds (p # free) D (Suc k)" unfolding half_freed_def tD
  proof (intro conjI allI impI)
    show "fresh kend (km_mem t) Ds (p # free) D" by (rule keep [OF fD]) (use pD in simp)
    fix i y assume i: "Suc k \<le> i" "tab (km_mem s) D i = Some y"
    then have "y \<noteq> p" using h Some unfolding half_freed_def by (metis Suc_leD not_less_eq_eq order_refl)
    moreover have "k \<le> i" using i(1) by simp
    then have "fresh kend (km_mem s) Ds free y" and yD: "y \<noteq> D" using h i(2) unfolding half_freed_def by blast+
    ultimately show "fresh kend (km_mem t) Ds (p # free) y" by (intro keep)
    show "y \<noteq> D" by (rule yD)
  next
    fix i j y assume "Suc k \<le> i" "Suc k \<le> j" "tab (km_mem s) D i = Some y" "tab (km_mem s) D j = Some y"
    then show "i = j" using h unfolding half_freed_def by (metis Suc_leD)
  qed (rule t(2))
  then show ?thesis using run tD t(3,4,5) Some by (intro exI [of _ t] exI [of _ "[p]"]) auto
qed

lemma freevm_loop_ok:
  assumes "half_freed kend s Ds free D k" "k \<le> 1024"
  shows "\<exists>t ys. forK [k..<1024] (freevm_entry kend D) s = (Inr (), t) \<and> half_freed kend t Ds (ys @ free) D 1024 \<and>
     set ys = {p. \<exists>i. k \<le> i \<and> tab (km_mem s) D i = Some p} \<and>
     (\<forall>D'\<in>Ds. \<forall>r. owns (km_mem t) D' r = owns (km_mem s) D' r) \<and>
     (\<forall>D'\<in>Ds. \<forall>d i. i < 1024 \<longrightarrow> pte_of (km_mem t) D' d i = pte_of (km_mem s) D' d i) \<and>
     (\<forall>a. (\<forall>i p. tab (km_mem s) D i = Some p \<longrightarrow> \<not> in_page p a) \<longrightarrow> km_mem t a = km_mem s a)"
  using assms
proof (induction "1024 - k" arbitrary: k s free)
  case 0
  then have "k = 1024" by simp
  moreover have "tab (km_mem s) D i = None" if "1024 \<le> i" for i using that by (simp add: tab_def)
  then have "{p. \<exists>i\<ge>1024. tab (km_mem s) D i = Some p} = {}" by auto
  ultimately show ?case using 0 by (intro exI [of _ s] exI [of _ "[]"]) auto
next
  case (Suc n)
  then have k: "k < 1024" by simp
  from freevm_entry_step [OF Suc.prems(1) k] obtain t ys where
    t: "freevm_entry kend D k s = (Inr (), t)" "half_freed kend t Ds (ys @ free) D (Suc k)"
      "set ys = {p. tab (km_mem s) D k = Some p}" "\<forall>i. tab (km_mem t) D i = tab (km_mem s) D i"
      "\<forall>D'\<in>Ds. \<forall>r. owns (km_mem t) D' r = owns (km_mem s) D' r"
      "\<forall>D'\<in>Ds. \<forall>d i. i < 1024 \<longrightarrow> pte_of (km_mem t) D' d i = pte_of (km_mem s) D' d i"
      "\<forall>a. (\<forall>p. tab (km_mem s) D k = Some p \<longrightarrow> \<not> in_page p a) \<longrightarrow> km_mem t a = km_mem s a" by blast
  have "n = 1024 - Suc k" "Suc k \<le> 1024" using Suc.hyps(2) k by auto
  from Suc.hyps(1) [OF this(1) t(2) this(2)] obtain u zs where
    u: "forK [Suc k..<1024] (freevm_entry kend D) t = (Inr (), u)" "half_freed kend u Ds (zs @ ys @ free) D 1024"
      "set zs = {p. \<exists>i. Suc k \<le> i \<and> tab (km_mem t) D i = Some p}"
      "\<forall>D'\<in>Ds. \<forall>r. owns (km_mem u) D' r = owns (km_mem t) D' r"
      "\<forall>D'\<in>Ds. \<forall>d i. i < 1024 \<longrightarrow> pte_of (km_mem u) D' d i = pte_of (km_mem t) D' d i"
      "\<forall>a. (\<forall>i p. tab (km_mem t) D i = Some p \<longrightarrow> \<not> in_page p a) \<longrightarrow> km_mem u a = km_mem t a" by blast
  have "forK [k..<1024] (freevm_entry kend D) s = (Inr (), u)"
    using t(1) u(1) k by (simp add: upt_conv_Cons del: upt_Suc)
  moreover have "set (zs @ ys) = {p. \<exists>i. k \<le> i \<and> tab (km_mem s) D i = Some p}"
  proof -
    have "p \<in> set (zs @ ys) \<longleftrightarrow> (\<exists>i. k \<le> i \<and> tab (km_mem s) D i = Some p)" for p
    proof -
      have "p \<in> set (zs @ ys) \<longleftrightarrow> (\<exists>i. Suc k \<le> i \<and> tab (km_mem s) D i = Some p) \<or> tab (km_mem s) D k = Some p"
        using t(3,4) u(3) by simp
      also have "\<dots> \<longleftrightarrow> (\<exists>i. k \<le> i \<and> tab (km_mem s) D i = Some p)"
        by (metis Suc_leD Suc_leI le_eq_less_or_eq order_refl)
      finally show ?thesis .
    qed
    then show ?thesis by blast
  qed
  ultimately show ?case using u t
    by (intro exI [of _ u] exI [of _ "zs @ ys"]) auto
qed

lemma freevm_ok:
  assumes inv: "vm_inv kend s Ds free" and D: "D \<in> Ds"
  shows "\<exists>t free'. freevm kend D s = (Inr (), t) \<and> vm_inv kend t (Ds - {D}) free' \<and>
     set free' = set free \<union> owned (km_mem s) {D} \<and>
     (\<forall>D'\<in>Ds - {D}. \<forall>d i. i < 1024 \<longrightarrow> pte_of (km_mem t) D' d i = pte_of (km_mem s) D' d i) \<and>
     (\<forall>p a. p mod PGSIZE = 0 \<longrightarrow> p \<notin> owned (km_mem s) {D} \<longrightarrow> in_page p a \<longrightarrow> km_mem t a = km_mem s a)"
proof -
  let ?m = "km_mem s" and ?E = "Ds - {D}"
  have Dp: "page_ok kend D" using vm_inv_ownsD [OF inv D, of Dir D] by simp
  have lt: "(0::u32) < KERNBASE" "unat KERNBASE \<le> 2 ^ 31" by (simp_all add: KERNBASE_def)
  obtain t1 xs where t1: "deallocuvm kend D KERNBASE 0 s = (Inr 0, t1)"
    and p1: "dealloc_post kend Ds s free t1 xs D (unat (PGROUNDUP 0)) (unat KERNBASE)"
    using deallocuvm_ok [OF inv D lt(2,1)] by blast
  have r0: "unat (PGROUNDUP 0) = 0" "unat KERNBASE = 2 ^ 31" by (simp_all add: PGROUNDUP_def PGSIZE_def KERNBASE_def)
  have i1: "vm_inv kend t1 Ds (xs @ free)" and un: "unmapped Ds ?m (km_mem t1) D 0 (2 ^ 31)"
    and tb: "\<And>D' d. D' \<in> Ds \<Longrightarrow> tab (km_mem t1) D' d = tab ?m D' d" and xs: "set xs = frames_in ?m D 0 (2 ^ 31)"
    and ct: "\<And>p a. p mod PGSIZE = 0 \<Longrightarrow> p \<notin> set xs \<Longrightarrow> \<forall>d. tab ?m D d \<noteq> Some p \<Longrightarrow> in_page p a \<Longrightarrow> km_mem t1 a = ?m a"
    using p1 unfolding dealloc_post_def r0 by auto
  have noframe: "owns (km_mem t1) D (Frm d i) = None" for d i
  proof (cases "d < 512 \<and> i < 1024")
    case True
    then have "in_range 0 (2 ^ 31) d i" using vaddr_user by (simp add: in_range_def)
    then show ?thesis using un True D by (auto simp: unmapped_def)
  qed auto
  have frames: "set xs = {x. \<exists>d i. owns ?m D (Frm d i) = Some x}"
  proof -
    have "in_range 0 (2 ^ 31) d i" if "owns ?m D (Frm d i) = Some x" for d i x
      using that vaddr_user by (auto simp: in_range_def split: if_splits)
    then show ?thesis unfolding xs frames_in_def by blast
  qed
  have own: "owned ?m {D} = {D} \<union> set xs \<union> {p. \<exists>i. tab ?m D i = Some p}"
    unfolding frames owned_def
  proof (intro set_eqI iffI)
    fix p assume "p \<in> {p. \<exists>D'\<in>{D}. \<exists>r. owns ?m D' r = Some p}"
    then obtain r where "owns ?m D r = Some p" by blast
    then show "p \<in> {D} \<union> {x. \<exists>d i. owns ?m D (Frm d i) = Some x} \<union> {p. \<exists>i. tab ?m D i = Some p}"
      by (cases r) (auto simp del: owns.simps(3))
  next
    fix p assume "p \<in> {D} \<union> {x. \<exists>d i. owns ?m D (Frm d i) = Some x} \<union> {p. \<exists>i. tab ?m D i = Some p}"
    then consider "p = D" | d i where "owns ?m D (Frm d i) = Some p" | i where "tab ?m D i = Some p" by blast
    then have "\<exists>r. owns ?m D r = Some p"
    proof cases
      case 1
      then have "owns ?m D Dir = Some p" by simp
      then show ?thesis by blast
    next
      case (3 i)
      then have "owns ?m D (Tab i) = Some p" by simp
      then show ?thesis by blast
    qed blast
    then show "p \<in> {p. \<exists>D'\<in>{D}. \<exists>r. owns ?m D' r = Some p}" by blast
  qed
  have fr: "fresh kend (km_mem t1) ?E (xs @ free) p" if "owns (km_mem t1) D r = Some p" for r p
    using vm_inv_ownsD [OF i1 D that] vm_inv_unique [OF i1 D _ that] unfolding fresh_def owned_def by blast
  have half: "half_freed kend t1 ?E (xs @ free) D 0" unfolding half_freed_def
  proof (intro conjI allI impI)
    show "vm_inv kend t1 ?E (xs @ free)" using i1 unfolding vm_inv_def by blast
    show "fresh kend (km_mem t1) ?E (xs @ free) D" by (rule fr [of Dir]) simp
    fix i p assume ip: "tab (km_mem t1) D i = Some p"
    show "fresh kend (km_mem t1) ?E (xs @ free) p" by (rule fr [of "Tab i"]) (use ip in simp)
    show "p \<noteq> D" using vm_inv_unique [OF i1 D D, of "Tab i" p Dir] ip by auto
    fix j assume "tab (km_mem t1) D j = Some p"
    then show "i = j" using vm_inv_unique [OF i1 D D, of "Tab i" p "Tab j"] ip by simp
  qed
  obtain t2 ys where t2: "forK [0..<1024] (freevm_entry kend D) t1 = (Inr (), t2)"
    and h2: "half_freed kend t2 ?E (ys @ xs @ free) D 1024" and ys: "set ys = {p. \<exists>i. tab (km_mem t1) D i = Some p}"
    and e2: "\<forall>D'\<in>?E. \<forall>d i. i < 1024 \<longrightarrow> pte_of (km_mem t2) D' d i = pte_of (km_mem t1) D' d i"
    and c2: "\<forall>a. (\<forall>i p. tab (km_mem t1) D i = Some p \<longrightarrow> \<not> in_page p a) \<longrightarrow> km_mem t2 a = km_mem t1 a"
    using freevm_loop_ok [OF half] by auto
  have i2: "vm_inv kend t2 ?E (ys @ xs @ free)" "fresh kend (km_mem t2) ?E (ys @ xs @ free) D"
    using h2 by (simp_all add: half_freed_def)
  obtain t3 where t3: "kfree kend D t2 = (Inr (), t3)" "vm_inv kend t3 ?E (D # ys @ xs @ free)"
    "\<And>a. \<not> in_page D a \<Longrightarrow> km_mem t3 a = km_mem t2 a"
    "\<And>D' d t'. D' \<in> ?E \<Longrightarrow> t' < 1024 \<Longrightarrow> pte_of (km_mem t3) D' d t' = pte_of (km_mem t2) D' d t'"
    by (rule kfree_fresh [OF i2]) blast
  have "freevm kend D s = (Inr (), t3)"
    using page_ok_pos [OF Dp] t1 t2 t3(1) by (simp add: freevm_def NPDENTRIES_def del: upt_Suc upt_rec_numeral)
  moreover have "set (D # ys @ xs @ free) = set free \<union> owned ?m {D}"
    unfolding own using ys tb [OF D] by auto
  moreover have "pte_of (km_mem t3) D' d i = pte_of ?m D' d i" if "D' \<in> ?E" "i < 1024" for D' d i
    using t3(4) [OF that] e2 un that by (simp add: unmapped_def)
  moreover have "km_mem t3 a = ?m a" if p: "p mod PGSIZE = 0" "p \<notin> owned ?m {D}" "in_page p a" for p a
  proof -
    have q: "p \<noteq> D" "p \<notin> set xs" "\<forall>i. tab ?m D i \<noteq> Some p" using p(2) unfolding own by auto
    have "\<not> in_page D a" by (rule page_diff [OF p(3,1) page_ok_aligned [OF Dp] q(1)])
    moreover have "km_mem t2 a = km_mem t1 a"
    proof -
      have "\<not> in_page y a" if "tab (km_mem t1) D i = Some y" for i y
      proof (rule page_diff [OF p(3,1)])
        show "y mod PGSIZE = 0" by (rule table_facts(1) [OF i1 D that])
        show "p \<noteq> y" using q(3) that tb [OF D] by auto
      qed
      then show ?thesis using c2 by blast
    qed
    ultimately show ?thesis using t3(3) ct [OF p(1) q(2,3) p(3)] by simp
  qed
  ultimately show ?thesis using t3(2) by blast
qed

end
