(* ===== verification/Vm_Alloc.thy ===== *)
theory Vm_Alloc
  imports Vm_Free
begin

text \<open>
  \<open>allocuvm\<close>: a range of addresses gets zeroed pages, or, when the memory runs out, everything the call
  has mapped is unmapped again. The properties of growing and freeing address spaces are stated here,
  for any number of address spaces side by side.
\<close>

unbundle bit_operations_syntax

section \<open>Growing an address space\<close>

definition user_entry :: "u32 \<Rightarrow> u32" where
  "user_entry x = V2P x OR (PTE_W OR PTE_U) OR PTE_P"

lemma user_entry: "x mod PGSIZE = 0 \<Longrightarrow> frame_of (user_entry x) = x" "present (user_entry x)"
proof -
  have f: "(PTE_W OR PTE_U OR PTE_P) = take_bit 12 (PTE_W OR PTE_U OR PTE_P)"
    by (simp add: PTE_P_def PTE_W_def PTE_U_def)
  show "frame_of (user_entry x) = x" if "x mod PGSIZE = 0"
    using frame_of_entry [OF that f] by (simp add: user_entry_def or.assoc)
  show "present (user_entry x)" by (simp add: user_entry_def)
qed

definition frames_same :: "u32 set \<Rightarrow> mem \<Rightarrow> mem \<Rightarrow> bool" where
  "frames_same Ds m m' \<longleftrightarrow> (\<forall>D\<in>Ds. \<forall>d i p a. owns m D (Frm d i) = Some p \<longrightarrow> in_page p a \<longrightarrow> m' a = m a)"

text \<open>\<open>D\<close> has got zeroed pages for the addresses from \<open>lo\<close> to \<open>hi\<close>, and nothing else has changed.\<close>

definition grown :: "u32 set \<Rightarrow> mem \<Rightarrow> mem \<Rightarrow> u32 \<Rightarrow> nat \<Rightarrow> nat \<Rightarrow> bool" where
  "grown Ds m0 m D lo hi \<longleftrightarrow> frames_same Ds m0 m \<and>
     (\<forall>d i. i < 1024 \<longrightarrow> in_range lo hi d i \<longrightarrow>
        (\<exists>x. pte_of m D d i = user_entry x \<and> x mod PGSIZE = 0 \<and> (\<forall>a. in_page x a \<longrightarrow> m a = 0))) \<and>
     (\<forall>D'\<in>Ds. \<forall>d i. i < 1024 \<longrightarrow> \<not> (D' = D \<and> in_range lo hi d i) \<longrightarrow> pte_of m D' d i = pte_of m0 D' d i)"

lemma grownD:
  assumes "grown Ds m0 m D lo hi"
  shows "frames_same Ds m0 m"
    "\<And>d i. i < 1024 \<Longrightarrow> in_range lo hi d i \<Longrightarrow>
        \<exists>x. pte_of m D d i = user_entry x \<and> x mod PGSIZE = 0 \<and> (\<forall>a. in_page x a \<longrightarrow> m a = 0)"
    "\<And>D' d i. D' \<in> Ds \<Longrightarrow> i < 1024 \<Longrightarrow> \<not> (D' = D \<and> in_range lo hi d i) \<Longrightarrow> pte_of m D' d i = pte_of m0 D' d i"
  using assms unfolding grown_def by blast+

text \<open>The same addresses are mapped, to the same frames and with the same rights.\<close>

definition same_maps :: "u32 set \<Rightarrow> mem \<Rightarrow> mem \<Rightarrow> bool" where
  "same_maps Ds m m' \<longleftrightarrow> (\<forall>D\<in>Ds. \<forall>d i. i < 1024 \<longrightarrow>
     present (pte_of m D d i) \<or> present (pte_of m' D d i) \<longrightarrow> pte_of m' D d i = pte_of m D d i)"

lemma in_range_split:
  assumes a: "a mod PGSIZE = 0" "unat a + 4096 \<le> 2 ^ 31" "lo \<le> unat a" and i: "i < 1024"
  shows "in_range lo (unat (a + PGSIZE)) d i \<longleftrightarrow> in_range lo (unat a) d i \<or> (d = dx a \<and> i = tx a)"
proof -
  have na: "unat (a + PGSIZE) = unat a + 4096" using a(2) by (simp add: PGSIZE_def unat_word_ariths)
  have va: "vaddr (dx a) (tx a) = unat a" by (rule vaddr_dx_tx [OF a(1)])
  have "4096 dvd unat a" using a(1) by (simp only: aligned_nat mod_eq_0_iff_dvd)
  then obtain k where k: "unat a = 4096 * k" by (rule dvdE)
  obtain w where w: "vaddr d i = 4096 * w" by (rule that [of "d * 1024 + i"]) (simp add: vaddr_def)
  have "d = dx a \<and> i = tx a \<longleftrightarrow> vaddr d i = unat a"
    using va vaddr_inj [OF i tx_less [of a], of d "dx a"] by auto
  moreover have "vaddr d i < unat a + 4096 \<longleftrightarrow> vaddr d i < unat a \<or> vaddr d i = unat a"
    unfolding w k by auto
  ultimately show ?thesis using a(3) unfolding in_range_def na by auto
qed

lemma aligned_next:
  assumes "(a :: u32) mod PGSIZE = 0" "unat a < 2 ^ 31"
  shows "unat a + 4096 \<le> 2 ^ 31" "unat (a + PGSIZE) = unat a + 4096" "(a + PGSIZE) mod PGSIZE = 0" "a < a + PGSIZE"
proof -
  have "4096 dvd unat a" using assms(1) by (simp only: aligned_nat mod_eq_0_iff_dvd)
  then obtain k where k: "unat a = 4096 * k" by (rule dvdE)
  then have "4096 * k < 4096 * 2 ^ 19" using assms(2) by simp
  then have "k < 2 ^ 19" by (simp only: nat_mult_less_cancel_disj)
  then show "unat a + 4096 \<le> 2 ^ 31" using k by simp
  show n: "unat (a + PGSIZE) = unat a + 4096" using assms(2) by (simp add: PGSIZE_def unat_word_ariths)
  show "(a + PGSIZE) mod PGSIZE = 0" using assms(1) unfolding aligned_nat n by simp
  show "a < a + PGSIZE" unfolding word_less_nat_alt n by simp
qed

lemma grown_step:
  assumes inv: "vm_inv kend s Ds free" and D: "D \<in> Ds" and a: "a mod PGSIZE = 0" "unat a < 2 ^ 31" "lo \<le> unat a"
    and g: "grown Ds m0 (km_mem s) D lo (unat a)" and x: "fresh kend (km_mem s) Ds free x"
    and z: "\<forall>b. in_page x b \<longrightarrow> km_mem s b = 0"
    and sp: "set_pte Ds (km_mem s) (km_mem u) D a (user_entry x)" and k: "keeps kend Ds s free u free'"
    and np: "\<forall>d i. i < 1024 \<longrightarrow> in_range lo (unat (a + PGSIZE)) d i \<longrightarrow> \<not> present (pte_of m0 D d i)"
  shows "grown Ds m0 (km_mem u) D lo (unat (a + PGSIZE))"
proof -
  let ?m = "km_mem s" and ?n = "km_mem u"
  note an = aligned_next [OF a(1,2)]
  note sp' = in_range_split [OF a(1) an(1) a(3)]
  have fs: "frames_same Ds m0 ?n" unfolding frames_same_def
  proof (intro ballI allI impI)
    fix D' d i p b assume b: "D' \<in> Ds" "owns m0 D' (Frm d i) = Some p" "in_page p b"
    have i: "i < 1024" "present (pte_of m0 D' d i)" using owns_Frm_present [OF b(2)] by blast+
    have out: "\<not> (D' = D \<and> in_range lo (unat a) d i)" using np i sp' [OF i(1), of d] by auto
    have "pte_of ?m D' d i = pte_of m0 D' d i" by (rule grownD(3) [OF g b(1) i(1) out])
    then have "owns ?m D' (Frm d i) = Some p" using b(2) by (simp only: owns.simps)
    then have "?n b = ?m b" using k b(1,3) unfolding keeps_def by blast
    moreover have "?m b = m0 b" using grownD(1) [OF g] b unfolding frames_same_def by blast
    ultimately show "?n b = m0 b" by simp
  qed
  have pn: "pte_of ?n D' d i = (if D' = D \<and> d = dx a \<and> i = tx a then user_entry x else pte_of ?m D' d i)"
    if "D' \<in> Ds" "i < 1024" for D' d i using sp that by (simp add: set_pte_def)
  have new: "\<exists>x. pte_of ?n D d i = user_entry x \<and> x mod PGSIZE = 0 \<and> (\<forall>a. in_page x a \<longrightarrow> ?n a = 0)"
    if i: "i < 1024" and r: "in_range lo (unat (a + PGSIZE)) d i" for d i
  proof (cases "d = dx a \<and> i = tx a")
    case True
    have "x mod PGSIZE = 0" using x page_ok_aligned unfolding fresh_def by blast
    moreover have "\<forall>b. in_page x b \<longrightarrow> ?n b = 0" using k x z unfolding keeps_def by metis
    moreover have "pte_of ?n D d i = user_entry x" using pn [OF D i, of d] True by simp
    ultimately show ?thesis by blast
  next
    case False
    then have r': "in_range lo (unat a) d i" using r sp' [OF i] by blast
    obtain y where y: "pte_of ?m D d i = user_entry y" "y mod PGSIZE = 0" "\<forall>a. in_page y a \<longrightarrow> ?m a = 0"
      using grownD(2) [OF g i r'] by blast
    have "vaddr d i < 512 * 2 ^ 22" using r' a(2) unfolding in_range_def by simp
    then have "d * 2 ^ 22 < 512 * 2 ^ 22" unfolding vaddr_def by simp
    then have "d < 512" by simp
    then have "owns ?m D (Frm d i) = Some y" using y(1) user_entry(1) [OF y(2)] user_entry(2) i by simp
    then have "\<forall>b. in_page y b \<longrightarrow> ?n b = ?m b" using k D unfolding keeps_def by blast
    moreover have "pte_of ?n D d i = user_entry y" using pn [OF D i, of d] False y(1) by simp
    ultimately show ?thesis using y(2,3) by auto
  qed
  have "pte_of ?n D' d i = pte_of m0 D' d i"
    if "D' \<in> Ds" "i < 1024" "\<not> (D' = D \<and> in_range lo (unat (a + PGSIZE)) d i)" for D' d i
  proof -
    have "\<not> (D' = D \<and> in_range lo (unat a) d i)" "\<not> (D' = D \<and> d = dx a \<and> i = tx a)"
      using that(3) sp' [OF that(2)] by blast+
    then show ?thesis using grownD(3) [OF g that(1,2), of d] pn [OF that(1,2), of d] by auto
  qed
  then show ?thesis using fs new unfolding grown_def by blast
qed

lemma grown_fail:
  assumes inv: "vm_inv kend s Ds free" and D: "D \<in> Ds" and g: "grown Ds m0 (km_mem s) D lo mid" and le: "mid \<le> hi"
    and np: "\<forall>d i. i < 1024 \<longrightarrow> in_range lo hi d i \<longrightarrow> \<not> present (pte_of m0 D d i)"
    and p: "dealloc_post kend Ds s free t xs D lo hi" and hi: "hi \<le> 2 ^ 31"
  shows "same_maps Ds m0 (km_mem t) \<and> frames_same Ds m0 (km_mem t)"
proof
  let ?m = "km_mem s" and ?n = "km_mem t"
  have sub: "in_range lo mid d i \<Longrightarrow> in_range lo hi d i" for d i using le by (simp add: in_range_def)
  have un: "pte_of ?n D' d i = (if D' = D \<and> in_range lo hi d i \<and> present (pte_of ?m D d i) then 0 else pte_of ?m D' d i)"
    if "D' \<in> Ds" "i < 1024" for D' d i using p that by (simp add: dealloc_post_def unmapped_def)
  note old = grownD(3) [OF g]
  show "same_maps Ds m0 ?n" unfolding same_maps_def
  proof (intro ballI allI impI)
    fix D' d i assume a: "D' \<in> Ds" "i < (1024::nat)" "present (pte_of m0 D' d i) \<or> present (pte_of ?n D' d i)"
    show "pte_of ?n D' d i = pte_of m0 D' d i"
    proof (cases "D' = D \<and> in_range lo hi d i")
      case True
      then have "\<not> present (pte_of ?n D' d i)" using un [OF a(1,2), of d] by auto
      moreover have "\<not> present (pte_of m0 D' d i)" using np a(2) True by blast
      ultimately show ?thesis using a(3) by blast
    next
      case False
      then have "\<not> (D' = D \<and> in_range lo mid d i)" using sub by blast
      then show ?thesis using un [OF a(1,2), of d] old [OF a(1,2)] False by auto
    qed
  qed
  show "frames_same Ds m0 ?n" unfolding frames_same_def
  proof (intro ballI allI impI)
    fix D' d i q b assume b: "D' \<in> Ds" "owns m0 D' (Frm d i) = Some q" "in_page q b"
    have i: "i < 1024" "present (pte_of m0 D' d i)" using owns_Frm_present [OF b(2)] by blast+
    have out: "\<not> (D' = D \<and> in_range lo hi d i)" using np i by blast
    then have "pte_of ?m D' d i = pte_of m0 D' d i" using sub by (intro old [OF b(1) i(1)]) blast
    then have o: "owns ?m D' (Frm d i) = Some q" using b(2) by (simp only: owns.simps)
    have "q \<notin> set xs"
    proof
      assume "q \<in> set xs"
      then obtain d' i' where "in_range lo hi d' i'" "owns ?m D (Frm d' i') = Some q"
        using p unfolding dealloc_post_def frames_in_def by blast
      then show False using vm_inv_unique [OF inv b(1) D o] out by blast
    qed
    moreover have "q mod PGSIZE = 0" using vm_inv_ownsD [OF inv b(1) o] page_ok_aligned by blast
    moreover have "tab ?m D e \<noteq> Some q" for e using vm_inv_unique [OF inv b(1) D o, of "Tab e"] by auto
    ultimately have "?n b = ?m b" using p b(3) unfolding dealloc_post_def by blast
    moreover have "?m b = m0 b" using grownD(1) [OF g] b unfolding frames_same_def by blast
    ultimately show "?n b = m0 b" by simp
  qed
qed

lemma grown_fresh:
  assumes inv: "vm_inv kend s Ds free" and D: "D \<in> Ds" and g: "grown Ds m0 (km_mem s) D lo hi" and hi: "hi \<le> 2 ^ 31"
    and x: "x \<notin> owned (km_mem s) Ds" "x mod PGSIZE = 0" "\<forall>b. \<not> in_page x b \<longrightarrow> m' b = km_mem s b"
    and pz: "\<forall>D'\<in>Ds. \<forall>d i. i < 1024 \<longrightarrow> pte_of m' D' d i = pte_of (km_mem s) D' d i"
    and np: "\<forall>d i. i < 1024 \<longrightarrow> in_range lo hi d i \<longrightarrow> \<not> present (pte_of m0 D d i)"
  shows "grown Ds m0 m' D lo hi"
proof -
  let ?m = "km_mem s"
  have fr: "m' b = ?m b" if "D' \<in> Ds" "owns ?m D' (Frm d i) = Some p" "in_page p b" for D' d i p b
  proof -
    have "p \<noteq> x" using x(1) that(1,2) unfolding owned_def by blast
    then have "\<not> in_page x b"
      using page_diff [OF that(3) page_ok_aligned x(2)] vm_inv_ownsD [OF inv that(1,2)] by blast
    then show ?thesis using x(3) by blast
  qed
  have "frames_same Ds m0 m'" unfolding frames_same_def
  proof (intro ballI allI impI)
    fix D' d i p b assume b: "D' \<in> Ds" "owns m0 D' (Frm d i) = Some p" "in_page p b"
    have i: "i < 1024" "present (pte_of m0 D' d i)" using owns_Frm_present [OF b(2)] by blast+
    then have "\<not> (D' = D \<and> in_range lo hi d i)" using np by blast
    then have "pte_of ?m D' d i = pte_of m0 D' d i" by (rule grownD(3) [OF g b(1) i(1)])
    then have "owns ?m D' (Frm d i) = Some p" using b(2) by (simp only: owns.simps)
    then have "m' b = ?m b" using fr b by blast
    moreover have "?m b = m0 b" using grownD(1) [OF g] b unfolding frames_same_def by blast
    ultimately show "m' b = m0 b" by simp
  qed
  moreover have "\<exists>x. pte_of m' D d i = user_entry x \<and> x mod PGSIZE = 0 \<and> (\<forall>a. in_page x a \<longrightarrow> m' a = 0)"
    if i: "i < 1024" and r: "in_range lo hi d i" for d i
  proof -
    obtain y where y: "pte_of ?m D d i = user_entry y" "y mod PGSIZE = 0" "\<forall>a. in_page y a \<longrightarrow> ?m a = 0"
      using grownD(2) [OF g i r] by blast
    have "vaddr d i < 512 * 2 ^ 22" using r hi unfolding in_range_def by simp
    then have "d * 2 ^ 22 < 512 * 2 ^ 22" unfolding vaddr_def by simp
    then have "d < 512" by simp
    then have "owns ?m D (Frm d i) = Some y" using y(1) user_entry(1) [OF y(2)] user_entry(2) i by simp
    then have "\<forall>b. in_page y b \<longrightarrow> m' b = ?m b" using fr D by blast
    then show ?thesis using y pz D i by auto
  qed
  moreover have "pte_of m' D' d i = pte_of m0 D' d i" if "D' \<in> Ds" "i < 1024" "\<not> (D' = D \<and> in_range lo hi d i)" for D' d i
    using grownD(3) [OF g that] pz that by simp
  ultimately show ?thesis unfolding grown_def by blast
qed

lemma allocuvm_loop_ok:
  assumes "vm_inv kend s Ds free" "D \<in> Ds" "a mod PGSIZE = 0" "lo \<le> unat a" "unat newsz < 2 ^ 31"
    "oldsz \<le> newsz" "lo = unat (PGROUNDUP oldsz)" "grown Ds m0 (km_mem s) D lo (unat a)"
    "\<forall>d i. i < 1024 \<longrightarrow> in_range lo (unat newsz) d i \<longrightarrow> \<not> present (pte_of m0 D d i)" "0 < newsz"
    "unat a < unat newsz + 4096"
  shows "\<exists>r t free'. allocuvm_loop kend D oldsz newsz a s = (Inr r, t) \<and> vm_inv kend t Ds free' \<and>
     (r = newsz \<and> grown Ds m0 (km_mem t) D lo (unat newsz) \<or>
      r = 0 \<and> same_maps Ds m0 (km_mem t) \<and> frames_same Ds m0 (km_mem t))"
  using assms
proof (induction "2 ^ 32 - unat a" arbitrary: a s free rule: less_induct)
  case less
  note inv = less.prems(1) and D = less.prems(2) and al = less.prems(3) and lo = less.prems(4) and g = less.prems(8)
    and np = less.prems(9)
  have hi: "unat newsz \<le> 2 ^ 31" using less.prems(5) by simp
  show ?case
  proof (cases "a < newsz")
    case False
    have same: "in_range lo (unat a) d i \<longleftrightarrow> in_range lo (unat newsz) d i" for d i
    proof -
      obtain w where w: "vaddr d i = 4096 * w" by (rule that [of "d * 1024 + i"]) (simp add: vaddr_def)
      have "4096 dvd unat a" using al by (simp only: aligned_nat mod_eq_0_iff_dvd)
      then obtain k where k: "unat a = 4096 * k" by (rule dvdE)
      have "unat newsz \<le> unat a" using False by (simp add: word_less_nat_alt)
      then show ?thesis using less.prems(11) unfolding in_range_def w k by auto
    qed
    have "allocuvm_loop kend D oldsz newsz a s = (Inr newsz, s)" using False by (subst allocuvm_loop.simps) (simp del: allocuvm_loop.simps)
    moreover have "grown Ds m0 (km_mem s) D lo (unat newsz)" using g unfolding grown_def same .
    ultimately show ?thesis using inv by blast
  next
    case True
    then have lt: "unat a < unat newsz" by (simp add: word_less_nat_alt)
    then have a31: "unat a < 2 ^ 31" using less.prems(5) by simp
    have nlo: "oldsz < newsz"
    proof (rule ccontr)
      assume "\<not> oldsz < newsz"
      then have "oldsz = newsz" using less.prems(6) by simp
      then have "unat newsz \<le> lo" using unat_PGROUNDUP [of oldsz] hi less.prems(7) by simp
      then show False using lt lo by simp
    qed
    have fail: "\<exists>t free'. deallocuvm kend D newsz oldsz v = (Inr oldsz, t) \<and> vm_inv kend t Ds (free' @ fr) \<and>
        same_maps Ds m0 (km_mem t) \<and> frames_same Ds m0 (km_mem t) \<and>
        (\<forall>y. fresh kend (km_mem v) Ds fr y \<longrightarrow> fresh kend (km_mem t) Ds (free' @ fr) y)"
      if v: "vm_inv kend v Ds fr" "grown Ds m0 (km_mem v) D lo (unat a)" for v fr
    proof -
      obtain t xs where t: "deallocuvm kend D newsz oldsz v = (Inr oldsz, t)"
        "dealloc_post kend Ds v fr t xs D lo (unat newsz)"
        using deallocuvm_ok [OF v(1) D hi nlo] less.prems(7) by auto
      have "same_maps Ds m0 (km_mem t) \<and> frames_same Ds m0 (km_mem t)"
        by (rule grown_fail [OF v(1) D v(2) _ np t(2) hi]) (use lt in simp)
      moreover have "fresh kend (km_mem t) Ds (xs @ fr) y" if y: "fresh kend (km_mem v) Ds fr y" for y
      proof -
        have un: "unmapped Ds (km_mem v) (km_mem t) D lo (unat newsz)"
          and tb: "\<forall>D'\<in>Ds. \<forall>d. tab (km_mem t) D' d = tab (km_mem v) D' d"
          and xs: "set xs = frames_in (km_mem v) D lo (unat newsz)" using t(2) unfolding dealloc_post_def by auto
        have "owns (km_mem v) D' r = Some p" if "D' \<in> Ds" "owns (km_mem t) D' r = Some p" for D' r p
        proof (cases r)
          case (Frm d i)
          then show ?thesis using that un unfolding unmapped_def by (auto split: if_splits)
        qed (use that tb in auto)
        then have "y \<notin> owned (km_mem t) Ds" using y unfolding fresh_def owned_def by blast
        moreover have "y \<notin> set xs" using y D unfolding xs frames_in_def fresh_def owned_def by blast
        ultimately show ?thesis using y by (simp add: fresh_def)
      qed
      ultimately show ?thesis using t(1) t(2) unfolding dealloc_post_def by blast
    qed
    show ?thesis
    proof (cases free)
      case Nil
      then have "kalloc s = (Inr 0, s)" using inv kalloc_empty by blast
      moreover obtain t free' where "deallocuvm kend D newsz oldsz s = (Inr oldsz, t)" "vm_inv kend t Ds (free' @ free)"
        "same_maps Ds m0 (km_mem t)" "frames_same Ds m0 (km_mem t)" using fail [OF inv g] by blast
      moreover from calculation have "allocuvm_loop kend D oldsz newsz a s = (Inr 0, t)"
        using True by (subst allocuvm_loop.simps) (simp del: allocuvm_loop.simps)
      ultimately show ?thesis by blast
    next
      case (Cons x fs)
      obtain t where t: "kalloc s = (Inr x, t)" "km_mem t = km_mem s" "vm_inv kend t Ds fs"
        "fresh kend (km_mem s) Ds fs x" "x \<noteq> 0" using inv kalloc_fresh unfolding Cons by blast
      define z where "z = t\<lparr>km_mem := memset x 0 PGSIZE (km_mem t)\<rparr>"
      have fz: "\<forall>b. \<not> in_page x b \<longrightarrow> memset x 0 PGSIZE (km_mem t) b = km_mem t b" by (simp add: memset_frame)
      note w = fresh_write [OF t(3) t(4) [folded t(2)] fz]
      have iz: "vm_inv kend z Ds fs" using w(1) by (simp add: z_def)
      have xz: "fresh kend (km_mem z) Ds fs x" using w(2) by (simp add: z_def)
      have pz: "pte_of (km_mem z) D' d i = pte_of (km_mem s) D' d i" if "D' \<in> Ds" "i < 1024" for D' d i
        using w(4) [OF that] by (simp add: z_def t(2))
      have zero: "\<forall>b. in_page x b \<longrightarrow> km_mem z b = 0"
        by (simp add: z_def memset_apply in_page_def PGSIZE_def)
      have gz: "grown Ds m0 (km_mem z) D lo (unat a)"
      proof (rule grown_fresh [OF inv D g])
        show "unat a \<le> 2 ^ 31" using a31 by simp
        show "x \<notin> owned (km_mem s) Ds" using t(4) by (simp add: fresh_def)
        show "x mod PGSIZE = 0" using t(4) page_ok_aligned unfolding fresh_def by blast
        show "\<forall>b. \<not> in_page x b \<longrightarrow> km_mem z b = km_mem s b" using fz t(2) by (simp add: z_def)
        show "\<forall>D'\<in>Ds. \<forall>d i. i < 1024 \<longrightarrow> pte_of (km_mem z) D' d i = pte_of (km_mem s) D' d i" using pz by blast
        show "\<forall>d i. i < 1024 \<longrightarrow> in_range lo (unat a) d i \<longrightarrow> \<not> present (pte_of m0 D d i)"
          using np lt unfolding in_range_def by auto
      qed
      have al': "x mod PGSIZE = 0" using t(4) page_ok_aligned unfolding fresh_def by blast
      have nin: "\<not> in_range lo (unat a) (dx a) (tx a)" by (simp add: in_range_def vaddr_dx_tx [OF al])
      have "in_range lo (unat newsz) (dx a) (tx a)" using lo lt by (simp add: in_range_def vaddr_dx_tx [OF al])
      then have npa: "\<not> present (entry (km_mem z) D a)"
        using np grownD(3) [OF g D tx_less, of "dx a" a] nin pz [OF D tx_less, of "dx a"] by (simp add: entry_def)
      have fe: "frame_of (V2P x OR (PTE_W OR PTE_U) OR PTE_P) = x" using user_entry(1) [OF al'] by (simp add: user_entry_def)
      have fx: "dx a < 512 \<Longrightarrow> fresh kend (km_mem z) Ds fs (frame_of (V2P x OR (PTE_W OR PTE_U) OR PTE_P))"
        unfolding fe by (rule xz)
      show ?thesis
      proof (rule mappages_page [OF iz D al npa fx])
        assume f: "fs = []" "mappages D a PGSIZE (V2P x) (PTE_W OR PTE_U) z = (Inr (- 1), z)"
        obtain t1 f1 where t1: "deallocuvm kend D newsz oldsz z = (Inr oldsz, t1)" "vm_inv kend t1 Ds (f1 @ fs)"
          "same_maps Ds m0 (km_mem t1)" "frames_same Ds m0 (km_mem t1)" "fresh kend (km_mem t1) Ds (f1 @ fs) x"
          using fail [OF iz gz] xz by blast
        obtain t2 where t2: "kfree kend x t1 = (Inr (), t2)" "vm_inv kend t2 Ds (x # f1 @ fs)"
          "\<And>b. \<not> in_page x b \<Longrightarrow> km_mem t2 b = km_mem t1 b"
          "\<And>D' d i. D' \<in> Ds \<Longrightarrow> i < 1024 \<Longrightarrow> pte_of (km_mem t2) D' d i = pte_of (km_mem t1) D' d i"
          by (rule kfree_fresh [OF t1(2,5)]) blast
        have "allocuvm_loop kend D oldsz newsz a s = (Inr 0, t2)"
          using True t(1,5) f(2) t1(1) t2(1) by (subst allocuvm_loop.simps) (simp add: upd_mem_def z_def del: allocuvm_loop.simps)
        moreover have "same_maps Ds m0 (km_mem t2)" unfolding same_maps_def
        proof (intro ballI allI impI)
          fix D' d i assume h: "D' \<in> Ds" "i < (1024::nat)"
            "present (pte_of m0 D' d i) \<or> present (pte_of (km_mem t2) D' d i)"
          have e: "pte_of (km_mem t2) D' d i = pte_of (km_mem t1) D' d i" by (rule t2(4) [OF h(1,2)])
          have "pte_of (km_mem t1) D' d i = pte_of m0 D' d i" using t1(3) h unfolding same_maps_def e by blast
          then show "pte_of (km_mem t2) D' d i = pte_of m0 D' d i" by (simp only: e)
        qed
        moreover have "frames_same Ds m0 (km_mem t2)" unfolding frames_same_def
        proof (intro ballI allI impI)
          fix D' d i p b assume b: "D' \<in> Ds" "owns m0 D' (Frm d i) = Some p" "in_page p b"
          have i: "i < 1024" "present (pte_of m0 D' d i)" using owns_Frm_present [OF b(2)] by blast+
          then have "pte_of (km_mem t1) D' d i = pte_of m0 D' d i" using t1(3) b(1) unfolding same_maps_def by blast
          then have o: "owns (km_mem t1) D' (Frm d i) = Some p" using b(2) by (simp only: owns.simps)
          then have "p \<noteq> x" using t1(5) b(1) unfolding fresh_def owned_def by blast
          then have "\<not> in_page x b"
            using page_diff [OF b(3) page_ok_aligned al'] vm_inv_ownsD [OF t1(2) b(1) o] by blast
          then show "km_mem t2 b = m0 b" using t2(3) t1(4) b unfolding frames_same_def by metis
        qed
        ultimately show ?thesis using t2(2) by blast
      next
        fix u free'
        assume u: "mappages D a PGSIZE (V2P x) (PTE_W OR PTE_U) z = (Inr 0, u)" "vm_inv kend u Ds free'"
          "set_pte Ds (km_mem z) (km_mem u) D a (V2P x OR (PTE_W OR PTE_U) OR PTE_P)" "keeps kend Ds z fs u free'"
        note an = aligned_next [OF al a31]
        have g': "grown Ds m0 (km_mem u) D lo (unat (a + PGSIZE))"
        proof (rule grown_step [OF iz D al a31 lo gz xz zero _ u(4)])
          show "set_pte Ds (km_mem z) (km_mem u) D a (user_entry x)" using u(3) by (simp add: user_entry_def)
          show "\<forall>d i. i < 1024 \<longrightarrow> in_range lo (unat (a + PGSIZE)) d i \<longrightarrow> \<not> present (pte_of m0 D d i)"
          proof (intro allI impI)
            fix d i assume "i < (1024::nat)" "in_range lo (unat (a + PGSIZE)) d i"
            then have "in_range lo (unat a) d i \<or> (d = dx a \<and> i = tx a)" using in_range_split [OF al an(1) lo] by blast
            then have "in_range lo (unat newsz) d i"
              using \<open>in_range lo (unat newsz) (dx a) (tx a)\<close> lt unfolding in_range_def by auto
            then show "\<not> present (pte_of m0 D d i)" using np \<open>i < 1024\<close> by blast
          qed
        qed
        have "2 ^ 32 - unat (a + PGSIZE) < 2 ^ 32 - unat a" "lo \<le> unat (a + PGSIZE)" "unat (a + PGSIZE) < unat newsz + 4096"
          using an(1,2) lo lt by simp_all
        from less.hyps [OF this(1) u(2) D an(3) this(2) less.prems(5,6,7) g' np less.prems(10) this(3)]
        obtain r v free'' where v: "allocuvm_loop kend D oldsz newsz (a + PGSIZE) u = (Inr r, v)" "vm_inv kend v Ds free''"
          "r = newsz \<and> grown Ds m0 (km_mem v) D lo (unat newsz) \<or>
           r = 0 \<and> same_maps Ds m0 (km_mem v) \<and> frames_same Ds m0 (km_mem v)" by blast
        have "allocuvm_loop kend D oldsz newsz a s = (Inr r, v)"
          using True t(1,5) u(1) v(1) an(4) by (subst allocuvm_loop.simps) (simp add: upd_mem_def z_def del: allocuvm_loop.simps)
        then show ?thesis using v(2,3) by blast
      qed
    qed
  qed
qed

lemma grown_refl: "grown Ds m m D lo lo"
  by (auto simp: grown_def frames_same_def in_range_def)

lemma allocuvm_ok:
  assumes inv: "vm_inv kend s Ds free" and D: "D \<in> Ds" and sz: "oldsz \<le> newsz" "newsz < KERNBASE" "0 < newsz"
    and np: "\<forall>d i. i < 1024 \<longrightarrow> in_range (unat (PGROUNDUP oldsz)) (unat newsz) d i \<longrightarrow> \<not> present (pte_of (km_mem s) D d i)"
  shows "\<exists>r t free'. allocuvm kend D oldsz newsz s = (Inr r, t) \<and> vm_inv kend t Ds free' \<and>
     (r = newsz \<and> grown Ds (km_mem s) (km_mem t) D (unat (PGROUNDUP oldsz)) (unat newsz) \<or>
      r = 0 \<and> same_maps Ds (km_mem s) (km_mem t) \<and> frames_same Ds (km_mem s) (km_mem t))"
proof -
  have n: "unat newsz < 2 ^ 31" using sz(2) by (simp add: KERNBASE_def word_less_nat_alt)
  have o: "unat oldsz \<le> unat newsz" using sz(1) by (simp add: word_le_nat_alt)
  have "unat (PGROUNDUP oldsz) = (unat oldsz + 4095) div 4096 * 4096" using n o by (intro unat_PGROUNDUP) simp
  then have up: "unat (PGROUNDUP oldsz) < unat newsz + 4096" using o by simp
  have run: "allocuvm kend D oldsz newsz s = allocuvm_loop kend D oldsz newsz (PGROUNDUP oldsz) s"
    using sz by (auto simp: allocuvm_def)
  show ?thesis unfolding run
    by (rule allocuvm_loop_ok [OF inv D PGROUNDUP_aligned order_refl n sz(1) refl grown_refl np sz(3) up])
qed


section \<open>Properties\<close>

text \<open>An address space with an empty directory, and two free pages.\<close>

definition vm_example :: kmem where
  "vm_example = \<lparr>km_use_lock = True, km_freelist = 0x80201000,
     km_mem = store32 0x80201000 0x80202000 (\<lambda>_. 0)\<rparr>"

lemma vm_example_pde: "d < 1024 \<Longrightarrow> pde_of (km_mem vm_example) 0x80200000 d = 0"
proof -
  assume d: "d < 1024"
  have "km_mem vm_example a = 0" if a: "in_page 0x80200000 a" for a
  proof -
    have "\<not> in_page 0x80201000 a" by (rule page_diff [OF a]) (simp_all add: PGSIZE_def)
    then show ?thesis using store32_frame [of 0 "0x80201000" a] by (simp add: vm_example_def)
  qed
  then have "load32 (km_mem vm_example) (0x80200000 + 4 * of_nat d) = load32 (\<lambda>_. 0) (0x80200000 + 4 * of_nat d)"
    by (intro load32_page_cong d) simp
  then show ?thesis by (simp add: pde_of_def load32_def)
qed

lemma vm_example_owns: "owns (km_mem vm_example) 0x80200000 r = Some p \<longleftrightarrow> r = Dir \<and> p = 0x80200000"
proof -
  have "tab (km_mem vm_example) 0x80200000 d = None" for d
    by (simp add: tab_def vm_example_pde present_def)
  moreover then have "pte_of (km_mem vm_example) 0x80200000 d i = 0" for d i by (simp add: pte_of_def)
  ultimately show ?thesis by (cases r) (auto simp: present_def)
qed

lemma vm_example_inv: "vm_inv 0x80101000 vm_example {0x80200000} [0x80201000, 0x80202000]"
proof -
  have "load32 (km_mem vm_example) 0x80202000 = load32 (\<lambda>_. 0) 0x80202000"
    using store32_frame [of 0 "0x80201000" _ "0x80202000" "\<lambda>_. 0"]
    by (intro load32_cong) (simp_all add: vm_example_def in_page_def)
  moreover have "load32 (\<lambda>_. 0) 0x80202000 = 0" by (simp add: load32_def)
  moreover have "load32 (km_mem vm_example) 0x80201000 = 0x80202000" "km_freelist vm_example = 0x80201000"
    by (simp_all add: vm_example_def)
  ultimately have "kmem_inv 0x80101000 vm_example [0x80201000, 0x80202000]"
    by (simp add: kmem_inv_def page_ok_def PGSIZE_def V2P_def PHYSTOP_def KERNBASE_def)
  then show ?thesis
    by (simp add: vm_inv_def vm_example_owns) (simp add: page_ok_def PGSIZE_def V2P_def PHYSTOP_def KERNBASE_def)
qed

lemma vm_example_pte: "pte_of (km_mem vm_example) 0x80200000 d i = 0"
proof -
  have "tab (km_mem vm_example) 0x80200000 d = None" using vm_example_owns [of "Tab d"] by (cases "tab (km_mem vm_example) 0x80200000 d") auto
  then show ?thesis by (simp add: pte_of_def)
qed

text \<open>
  C2. \<open>freevm\<close> returns without a panic and takes an address space down completely: every page that only it
  used (the directory, the page tables, the frames of user memory) is put on the free list, exactly
  once, nothing else is freed, the other address spaces keep their mappings, and no byte outside
  those pages changes.
\<close>

theorem freevm_correct:
  "vm_inv kend s Ds free \<Longrightarrow> D \<in> Ds \<Longrightarrow>
   \<exists>t free'. freevm kend D s = (Inr (), t) \<and> vm_inv kend t (Ds - {D}) free' \<and>
     set free' = set free \<union> owned (km_mem s) {D} \<and>
     (\<forall>D'\<in>Ds - {D}. \<forall>d i. i < 1024 \<longrightarrow> pte_of (km_mem t) D' d i = pte_of (km_mem s) D' d i) \<and>
     (\<forall>p a. p mod PGSIZE = 0 \<longrightarrow> p \<notin> owned (km_mem s) {D} \<longrightarrow> in_page p a \<longrightarrow> km_mem t a = km_mem s a)"
  by (rule freevm_ok)

theorem freevm_correct_witness:
  "vm_inv 0x80101000 vm_example {0x80200000} [0x80201000, 0x80202000] \<and>
   (\<exists>t free'. freevm 0x80101000 0x80200000 vm_example = (Inr (), t) \<and> vm_inv 0x80101000 t {} free' \<and>
     0x80200000 \<in> set free')"
proof -
  obtain t free' where "freevm 0x80101000 0x80200000 vm_example = (Inr (), t)"
    "vm_inv 0x80101000 t ({0x80200000} - {0x80200000}) free'"
    "set free' = set [0x80201000, 0x80202000] \<union> owned (km_mem vm_example) {0x80200000}"
    using freevm_correct [OF vm_example_inv, of "0x80200000"] by blast
  moreover have "0x80200000 \<in> owned (km_mem vm_example) {0x80200000}"
    by (simp add: owned_def vm_example_owns)
  ultimately show ?thesis using vm_example_inv by auto
qed

text \<open>
  C3. \<open>allocuvm\<close> grows an address space or leaves it as it was. When it succeeds it returns the new size and
  every page of the new range has a user mapping to a zeroed page that no other part of any address
  space uses; when the memory runs out it returns 0, and every mapping and the contents of all
  mapped pages are as before. No other address space changes in either case.
\<close>

theorem allocuvm_correct:
  "vm_inv kend s Ds free \<Longrightarrow> D \<in> Ds \<Longrightarrow> oldsz \<le> newsz \<Longrightarrow> newsz < KERNBASE \<Longrightarrow> 0 < newsz \<Longrightarrow>
   \<forall>d i. i < 1024 \<longrightarrow> in_range (unat (PGROUNDUP oldsz)) (unat newsz) d i \<longrightarrow> \<not> present (pte_of (km_mem s) D d i) \<Longrightarrow>
   \<exists>r t free'. allocuvm kend D oldsz newsz s = (Inr r, t) \<and> vm_inv kend t Ds free' \<and>
     (r = newsz \<and> grown Ds (km_mem s) (km_mem t) D (unat (PGROUNDUP oldsz)) (unat newsz) \<or>
      r = 0 \<and> same_maps Ds (km_mem s) (km_mem t) \<and> frames_same Ds (km_mem s) (km_mem t))"
  by (rule allocuvm_ok)

theorem allocuvm_correct_witness:
  "vm_inv 0x80101000 vm_example {0x80200000} [0x80201000, 0x80202000] \<and>
   (\<exists>r t free'. allocuvm 0x80101000 0x80200000 0 4096 vm_example = (Inr r, t) \<and>
      vm_inv 0x80101000 t {0x80200000} free' \<and> (r = 4096 \<or> r = 0))"
proof -
  have np: "\<forall>d i. i < 1024 \<longrightarrow> in_range (unat (PGROUNDUP 0)) (unat (4096::u32)) d i \<longrightarrow>
      \<not> present (pte_of (km_mem vm_example) 0x80200000 d i)"
    by (simp add: vm_example_pte present_def)
  show ?thesis
    using allocuvm_correct [OF vm_example_inv, of "0x80200000" 0 4096] np vm_example_inv
    by (auto simp: KERNBASE_def)
qed

end
