(* ===== verification/Bio.thy ===== *)
theory Bio
  imports Locks
begin

text \<open>
  The memory disk (\<open>memide.c\<close>, the driver of the kernel that keeps its disk in memory) and the buffer
  cache (\<open>bio.c\<close>). The state extends that of \<open>Locks\<close>. A pointer to \<open>bcache.buf[i]\<close> is \<open>Some i\<close>, and
  \<open>&bcache.head\<close>, which the list loops compare with, is \<open>None\<close>. The two flag bits of a buffer are two
  booleans. Block and device numbers are natural numbers. A block is a function from the byte
  offset. The message that \<open>bread\<close> prints for a large block number is left out.

  \<open>disk_past\<close> is a history variable: the contents of the disk before each write, last first. No
  operation reads it; it serves to speak about the moments at which the machine may crash.

  Code that has to wait for a sleep lock stops with \<^const>\<open>Swtch\<close> after having put the caller to sleep.
\<close>

section \<open>State\<close>

definition BSIZE :: nat where [simp]: "BSIZE = 512"

type_synonym block = "nat \<Rightarrow> u8"

record buf =
  b_valid :: bool
  b_dirty :: bool
  b_dev :: nat
  b_blockno :: nat
  b_refcnt :: u32
  b_prev :: "nat option"
  b_next :: "nat option"
  b_data :: block

record kbio = ksync +
  disk :: "nat \<Rightarrow> block"
  disk_past :: "(nat \<Rightarrow> block) list"
  disksize :: nat
  bufs :: "nat \<Rightarrow> buf"
  head_prev :: "nat option"
  head_next :: "nat option"

definition upd_buf :: "nat \<Rightarrow> (buf \<Rightarrow> buf) \<Rightarrow> 'z kbio_scheme \<Rightarrow> 'z kbio_scheme" where
  "upd_buf b f s = s\<lparr>bufs := (bufs s)(b := f (bufs s b))\<rparr>"

abbreviation bdata :: "'z kbio_scheme \<Rightarrow> nat \<Rightarrow> block" where
  "bdata s b \<equiv> b_data (bufs s b)"

text \<open>Assignments to the data of a buffer.\<close>

definition upd_data :: "nat \<Rightarrow> (block \<Rightarrow> block) \<Rightarrow> ('z kbio_scheme, unit) K" where
  "upd_data b f = modK (upd_buf b (\<lambda>x. x\<lparr>b_data := f (b_data x)\<rparr>))"

section \<open>The memory disk\<close>

definition iderw :: "nat \<Rightarrow> ('z kbio_scheme, unit) K" where
  "iderw b =
     bindK (holdingsleep (BufSleep b)) (\<lambda>h.
     if \<not> h then panicK ''iderw: buf not locked''
     else (\<lambda>s. let x = bufs s b in
       if b_valid x \<and> \<not> b_dirty x then (Inl (Panic ''iderw: nothing to do''), s)
       else if b_dev x \<noteq> 1 then (Inl (Panic ''iderw: request not for disk 1''), s)
       else if disksize s \<le> b_blockno x then (Inl (Panic ''iderw: block out of range''), s)
       else if b_dirty x then
         (Inr (), upd_buf b (\<lambda>x. x\<lparr>b_dirty := False, b_valid := True\<rparr>)
            (s\<lparr>disk := (disk s)(b_blockno x := b_data x), disk_past := disk s # disk_past s\<rparr>))
       else
         (Inr (), upd_buf b (\<lambda>y. y\<lparr>b_data := disk s (b_blockno x), b_valid := True\<rparr>) s)))"

section \<open>The list of buffers\<close>

text \<open>
  Insertion behind the head and removal, as the assignments to \<open>prev\<close> and \<open>next\<close> in \<open>binit\<close> and
  \<open>brelse\<close>. An assignment through a pointer that may be the head goes to the head or to a buffer.
\<close>

definition set_prev :: "nat option \<Rightarrow> nat option \<Rightarrow> 'z kbio_scheme \<Rightarrow> 'z kbio_scheme" where
  "set_prev p v s = (case p of None \<Rightarrow> s\<lparr>head_prev := v\<rparr> | Some b \<Rightarrow> upd_buf b (\<lambda>x. x\<lparr>b_prev := v\<rparr>) s)"

definition set_next :: "nat option \<Rightarrow> nat option \<Rightarrow> 'z kbio_scheme \<Rightarrow> 'z kbio_scheme" where
  "set_next p v s = (case p of None \<Rightarrow> s\<lparr>head_next := v\<rparr> | Some b \<Rightarrow> upd_buf b (\<lambda>x. x\<lparr>b_next := v\<rparr>) s)"

definition list_insert :: "nat \<Rightarrow> 'z kbio_scheme \<Rightarrow> 'z kbio_scheme" where
  "list_insert b s =
     (let s1 = set_next (Some b) (head_next s) s;
          s2 = set_prev (Some b) None s1;
          s3 = set_prev (head_next s2) (Some b) s2
      in set_next None (Some b) s3)"

definition list_remove :: "nat \<Rightarrow> 'z kbio_scheme \<Rightarrow> 'z kbio_scheme" where
  "list_remove b s =
     (let s1 = set_prev (b_next (bufs s b)) (b_prev (bufs s b)) s
      in set_next (b_prev (bufs s1 b)) (b_next (bufs s1 b)) s1)"

text \<open>
  A loop over the list through one of the two links, up to the first buffer with a property. More
  than \<open>k\<close> steps without meeting the head mean, for \<open>k\<close> the number of buffers, that a buffer comes
  up twice: then the loop goes on forever.
\<close>

fun list_search :: "nat \<Rightarrow> (nat \<Rightarrow> nat option) \<Rightarrow> (nat \<Rightarrow> bool) \<Rightarrow> nat option \<Rightarrow> stop + nat option" where
  "list_search k link P None = Inr None"
| "list_search 0 link P (Some b) = Inl Spin"
| "list_search (Suc k) link P (Some b) = (if P b then Inr (Some b) else list_search k link P (link b))"

section \<open>Operations\<close>

definition binit_buf :: "nat \<Rightarrow> ('z kbio_scheme, unit) K" where
  "binit_buf b =
     bindK (modK (\<lambda>s. set_prev (Some b) None (set_next (Some b) (head_next s) s))) (\<lambda>_.
     bindK (initsleeplock (BufSleep b)) (\<lambda>_.
     modK (\<lambda>s. set_next None (Some b) (set_prev (head_next s) (Some b) s))))"

definition binit :: "('z kbio_scheme, unit) K" where
  "binit =
     bindK (initlock BcacheLock) (\<lambda>_.
     bindK (modK (\<lambda>s. s\<lparr>head_prev := None, head_next := None\<rparr>)) (\<lambda>_.
     forK [0..<NBUF] binit_buf))"

definition bget :: "nat \<Rightarrow> nat \<Rightarrow> ('z kbio_scheme, nat) K" where
  "bget dev blockno =
     bindK (acquire BcacheLock) (\<lambda>_.
     bindK (getK (\<lambda>s. list_search NBUF (\<lambda>b. b_next (bufs s b))
              (\<lambda>b. b_dev (bufs s b) = dev \<and> b_blockno (bufs s b) = blockno) (head_next s))) (\<lambda>r.
     case r of
       Inl e \<Rightarrow> stopK e
     | Inr (Some b) \<Rightarrow>
         bindK (modK (upd_buf b (\<lambda>x. x\<lparr>b_refcnt := b_refcnt x + 1\<rparr>))) (\<lambda>_.
         bindK (release BcacheLock) (\<lambda>_.
         bindK (acquiresleep (BufSleep b)) (\<lambda>_. retK b)))
     | Inr None \<Rightarrow>
         bindK (getK (\<lambda>s. list_search NBUF (\<lambda>b. b_prev (bufs s b))
                  (\<lambda>b. b_refcnt (bufs s b) = 0 \<and> \<not> b_dirty (bufs s b)) (head_prev s))) (\<lambda>r2.
         case r2 of
           Inl e \<Rightarrow> stopK e
         | Inr None \<Rightarrow> panicK ''bget: no buffers''
         | Inr (Some b) \<Rightarrow>
             bindK (modK (upd_buf b (\<lambda>x. x\<lparr>b_dev := dev, b_blockno := blockno,
                      b_valid := False, b_dirty := False, b_refcnt := 1\<rparr>))) (\<lambda>_.
             bindK (release BcacheLock) (\<lambda>_.
             bindK (acquiresleep (BufSleep b)) (\<lambda>_. retK b))))))"

definition bread :: "nat \<Rightarrow> nat \<Rightarrow> ('z kbio_scheme, nat) K" where
  "bread dev blockno =
     bindK (bget dev blockno) (\<lambda>b.
     bindK (getK (\<lambda>s. b_valid (bufs s b))) (\<lambda>v.
     bindK (whenK (\<not> v) (iderw b)) (\<lambda>_. retK b)))"

definition bwrite :: "nat \<Rightarrow> ('z kbio_scheme, unit) K" where
  "bwrite b =
     bindK (holdingsleep (BufSleep b)) (\<lambda>h.
     if \<not> h then panicK ''bwrite''
     else bindK (modK (upd_buf b (\<lambda>x. x\<lparr>b_dirty := True\<rparr>))) (\<lambda>_. iderw b))"

definition brelse :: "nat \<Rightarrow> ('z kbio_scheme, unit) K" where
  "brelse b =
     bindK (holdingsleep (BufSleep b)) (\<lambda>h.
     if \<not> h then panicK ''brelse''
     else
       bindK (releasesleep (BufSleep b)) (\<lambda>_.
       bindK (acquire BcacheLock) (\<lambda>_.
       bindK (modK (upd_buf b (\<lambda>x. x\<lparr>b_refcnt := b_refcnt x - 1\<rparr>))) (\<lambda>_.
       bindK (getK (\<lambda>s. b_refcnt (bufs s b))) (\<lambda>n.
       bindK (whenK (n = 0) (modK (\<lambda>s. list_insert b (list_remove b s)))) (\<lambda>_.
       release BcacheLock))))))"

end
