(* ===== verification/Log.thy ===== *)
theory Log
  imports Bio
begin

text \<open>
  The write-ahead log (\<open>log.c\<close>), and \<open>readsb\<close> of \<open>fs.c\<close>, which it uses. Multi-byte fields in a block
  are little-endian. The members of \<open>struct log\<close> are fields of the state.

  \<open>begin_op\<close> waits with \<open>sleep\<close> when a commit runs or the log may overflow; there it stops with
  \<^const>\<open>Swtch\<close>, and \<open>begin_op_loop\<close> is what runs when the sleep returns.
\<close>

unbundle bit_operations_syntax

section \<open>Integers in blocks\<close>

definition get16 :: "block \<Rightarrow> nat \<Rightarrow> u16" where
  "get16 d i = ucast (d i) OR push_bit 8 (ucast (d (i + 1)))"

definition put16 :: "nat \<Rightarrow> u16 \<Rightarrow> block \<Rightarrow> block" where
  "put16 i w d = d(i := ucast w, i + 1 := ucast (drop_bit 8 w))"

definition get32 :: "block \<Rightarrow> nat \<Rightarrow> u32" where
  "get32 d i = ucast (d i) OR push_bit 8 (ucast (d (i + 1))) OR push_bit 16 (ucast (d (i + 2)))
     OR push_bit 24 (ucast (d (i + 3)))"

definition put32 :: "nat \<Rightarrow> u32 \<Rightarrow> block \<Rightarrow> block" where
  "put32 i w d = d(i := ucast w, i + 1 := ucast (drop_bit 8 w), i + 2 := ucast (drop_bit 16 w),
     i + 3 := ucast (drop_bit 24 w))"

section \<open>State\<close>

record superblock =
  sb_size :: nat
  sb_nblocks :: nat
  sb_ninodes :: nat
  sb_nlog :: nat
  sb_logstart :: nat
  sb_inodestart :: nat
  sb_bmapstart :: nat

record klog = kbio +
  log_start :: nat
  log_size :: int
  log_outstanding :: int
  log_committing :: bool
  log_dev :: nat
  lh_n :: int
  lh_block :: "nat \<Rightarrow> nat"

definition superblock_of :: "block \<Rightarrow> superblock" where
  "superblock_of d = \<lparr>sb_size = unat (get32 d 0), sb_nblocks = unat (get32 d 4), sb_ninodes = unat (get32 d 8),
     sb_nlog = unat (get32 d 12), sb_logstart = unat (get32 d 16), sb_inodestart = unat (get32 d 20),
     sb_bmapstart = unat (get32 d 24)\<rparr>"

definition readsb :: "nat \<Rightarrow> ('z klog_scheme, superblock) K" where
  "readsb dev =
     bindK (bread dev 1) (\<lambda>bp.
     bindK (getK (\<lambda>s. superblock_of (bdata s bp))) (\<lambda>sb.
     bindK (brelse bp) (\<lambda>_. retK sb)))"

section \<open>Operations\<close>

definition install_block :: "nat \<Rightarrow> ('z klog_scheme, unit) K" where
  "install_block tail =
     bindK (getK (\<lambda>s. (log_dev s, log_start s + tail + 1))) (\<lambda>(dev, src).
     bindK (bread dev src) (\<lambda>lbuf.
     bindK (getK (\<lambda>s. lh_block s tail)) (\<lambda>dst.
     bindK (bread dev dst) (\<lambda>dbuf.
     bindK (getK (\<lambda>s. bdata s lbuf)) (\<lambda>d.
     bindK (upd_data dbuf (\<lambda>_. d)) (\<lambda>_.
     bindK (bwrite dbuf) (\<lambda>_.
     bindK (brelse lbuf) (\<lambda>_. brelse dbuf))))))))"

definition install_trans :: "('z klog_scheme, unit) K" where
  "install_trans = bindK (getK (\<lambda>s. nat (lh_n s))) (\<lambda>n. forK [0..<n] install_block)"

text \<open>Reading the header; \<open>block\<close> has room for \<open>LOGSIZE\<close> entries.\<close>

definition read_head_entry :: "nat \<Rightarrow> nat \<Rightarrow> ('z klog_scheme, unit) K" where
  "read_head_entry b i =
     (if i < LOGSIZE
      then modK (\<lambda>s. s\<lparr>lh_block := (lh_block s)(i := unat (get32 (bdata s b) (4 + 4 * i)))\<rparr>)
      else stopK OutOfBounds)"

definition read_head :: "('z klog_scheme, unit) K" where
  "read_head =
     bindK (getK (\<lambda>s. (log_dev s, log_start s))) (\<lambda>(dev, start).
     bindK (bread dev start) (\<lambda>buf.
     bindK (modK (\<lambda>s. s\<lparr>lh_n := sint (get32 (bdata s buf) 0)\<rparr>)) (\<lambda>_.
     bindK (getK (\<lambda>s. nat (lh_n s))) (\<lambda>n.
     bindK (forK [0..<n] (read_head_entry buf)) (\<lambda>_.
     brelse buf)))))"

definition write_head_entry :: "nat \<Rightarrow> nat \<Rightarrow> ('z klog_scheme, unit) K" where
  "write_head_entry b i =
     (if i < LOGSIZE
      then bindK (getK (\<lambda>s. lh_block s i)) (\<lambda>x. upd_data b (put32 (4 + 4 * i) (of_nat x)))
      else stopK OutOfBounds)"

definition write_head :: "('z klog_scheme, unit) K" where
  "write_head =
     bindK (getK (\<lambda>s. (log_dev s, log_start s))) (\<lambda>(dev, start).
     bindK (bread dev start) (\<lambda>buf.
     bindK (getK lh_n) (\<lambda>n.
     bindK (upd_data buf (put32 0 (of_int n))) (\<lambda>_.
     bindK (forK [0..<nat n] (write_head_entry buf)) (\<lambda>_.
     bindK (bwrite buf) (\<lambda>_.
     brelse buf))))))"

definition recover_from_log :: "('z klog_scheme, unit) K" where
  "recover_from_log =
     bindK read_head (\<lambda>_.
     bindK install_trans (\<lambda>_.
     bindK (modK (\<lambda>s. s\<lparr>lh_n := 0\<rparr>)) (\<lambda>_.
     write_head)))"

definition initlog :: "nat \<Rightarrow> ('z klog_scheme, unit) K" where
  "initlog dev =
     bindK (initlock LogLock) (\<lambda>_.
     bindK (readsb dev) (\<lambda>sb.
     bindK (modK (\<lambda>s. s\<lparr>log_start := sb_logstart sb, log_size := int (sb_nlog sb), log_dev := dev\<rparr>)) (\<lambda>_.
     recover_from_log)))"

definition begin_op_loop :: "('z klog_scheme, unit) K" where
  "begin_op_loop =
     bindK (getK (\<lambda>s. log_committing s \<or>
              lh_n s + (log_outstanding s + 1) * int MAXOPBLOCKS > int LOGSIZE)) (\<lambda>wait.
     if wait then sleep LogChan (Some LogLock)
     else
       bindK (modK (\<lambda>s. s\<lparr>log_outstanding := log_outstanding s + 1\<rparr>)) (\<lambda>_.
       release LogLock))"

definition begin_op :: "('z klog_scheme, unit) K" where
  "begin_op = bindK (acquire LogLock) (\<lambda>_. begin_op_loop)"

definition write_log_block :: "nat \<Rightarrow> ('z klog_scheme, unit) K" where
  "write_log_block tail =
     bindK (getK (\<lambda>s. (log_dev s, log_start s + tail + 1))) (\<lambda>(dev, dst).
     bindK (bread dev dst) (\<lambda>to.
     bindK (getK (\<lambda>s. lh_block s tail)) (\<lambda>src.
     bindK (bread dev src) (\<lambda>from.
     bindK (getK (\<lambda>s. bdata s from)) (\<lambda>d.
     bindK (upd_data to (\<lambda>_. d)) (\<lambda>_.
     bindK (bwrite to) (\<lambda>_.
     bindK (brelse from) (\<lambda>_. brelse to))))))))"

definition write_log :: "('z klog_scheme, unit) K" where
  "write_log = bindK (getK (\<lambda>s. nat (lh_n s))) (\<lambda>n. forK [0..<n] write_log_block)"

definition commit :: "('z klog_scheme, unit) K" where
  "commit =
     bindK (getK lh_n) (\<lambda>n.
     whenK (0 < n)
       (bindK write_log (\<lambda>_.
        bindK write_head (\<lambda>_.
        bindK install_trans (\<lambda>_.
        bindK (modK (\<lambda>s. s\<lparr>lh_n := 0\<rparr>)) (\<lambda>_.
        write_head))))))"

definition end_op :: "('z klog_scheme, unit) K" where
  "end_op =
     bindK (acquire LogLock) (\<lambda>_.
     bindK (modK (\<lambda>s. s\<lparr>log_outstanding := log_outstanding s - 1\<rparr>)) (\<lambda>_.
     bindK (getK log_committing) (\<lambda>c.
     if c then panicK ''log.committing''
     else
       bindK (getK log_outstanding) (\<lambda>n.
       bindK (if n = 0 then modK (\<lambda>s. s\<lparr>log_committing := True\<rparr>) else wakeup LogChan) (\<lambda>_.
       bindK (release LogLock) (\<lambda>_.
       whenK (n = 0)
         (bindK commit (\<lambda>_.
          bindK (acquire LogLock) (\<lambda>_.
          bindK (modK (\<lambda>s. s\<lparr>log_committing := False\<rparr>)) (\<lambda>_.
          bindK (wakeup LogChan) (\<lambda>_.
          release LogLock)))))))))))"

text \<open>The search loop of \<open>log_write\<close>: the first entry with the block number, or \<open>log.lh.n\<close>.\<close>

definition log_slot :: "int \<Rightarrow> (nat \<Rightarrow> nat) \<Rightarrow> nat \<Rightarrow> nat" where
  "log_slot n blks blockno =
     (case List.find (\<lambda>i. blks i = blockno) [0..<nat n] of Some i \<Rightarrow> i | None \<Rightarrow> nat n)"

definition log_write :: "nat \<Rightarrow> ('z klog_scheme, unit) K" where
  "log_write b =
     bindK (getK (\<lambda>s. lh_n s \<ge> int LOGSIZE \<or> lh_n s \<ge> log_size s - 1)) (\<lambda>full.
     if full then panicK ''too big a transaction''
     else
       bindK (getK log_outstanding) (\<lambda>out.
       if out < 1 then panicK ''log_write outside of trans''
       else
         bindK (acquire LogLock) (\<lambda>_.
         bindK (modK (\<lambda>s.
           let blockno = b_blockno (bufs s b); i = log_slot (lh_n s) (lh_block s) blockno
           in upd_buf b (\<lambda>x. x\<lparr>b_dirty := True\<rparr>)
                (s\<lparr>lh_block := (lh_block s)(i := blockno),
                   lh_n := (if int i = lh_n s then lh_n s + 1 else lh_n s)\<rparr>))) (\<lambda>_.
         release LogLock))))"

end
