(* ===== verification/Fs.thy ===== *)
theory Fs
  imports Log Memory
begin

text \<open>
  The file system (\<open>fs.c\<close>): block allocation, inodes, file contents with direct, indirect and double
  indirect blocks, directories and path names. A pointer to \<open>icache.inode[i]\<close> is \<open>i\<close>, null is \<open>None\<close>.

  A destination buffer of \<open>readi\<close> is modelled by the bytes stored there, a source buffer of \<open>writei\<close>
  by a function from the offset. The table \<open>devsw\<close> of function pointers is an argument of both; the
  directory functions call them on directories only, where the table is not consulted. Messages on the
  console are left out.
\<close>

unbundle bit_operations_syntax

section \<open>State and layout\<close>

type_synonym i16 = "16 word"

definition NDIRECT :: nat where [simp]: "NDIRECT = 11"
definition NINDIRECT :: nat where [simp]: "NINDIRECT = BSIZE div 4"
definition NDBINDIRECT :: nat where [simp]: "NDBINDIRECT = BSIZE div 4 * BSIZE div 4"
definition MAXFILE :: nat where [simp]: "MAXFILE = NDIRECT + NINDIRECT + NDBINDIRECT"
definition IPB :: nat where [simp]: "IPB = BSIZE div 64"
definition BPB :: nat where [simp]: "BPB = BSIZE * 8"
definition DIRSIZ :: nat where [simp]: "DIRSIZ = 14"
definition ROOTINO :: nat where [simp]: "ROOTINO = 1"
definition T_DIR :: i16 where [simp]: "T_DIR = 1"
definition T_FILE :: i16 where [simp]: "T_FILE = 2"
definition T_DEV :: i16 where [simp]: "T_DEV = 3"

record inode =
  i_dev :: nat
  i_inum :: nat
  i_ref :: int
  i_valid :: bool
  i_type :: i16
  i_major :: i16
  i_minor :: i16
  i_nlink :: i16
  i_size :: u32
  i_addrs :: "nat \<Rightarrow> nat"

record kfs = klog +
  fsb :: superblock              \<comment> \<open>the global \<open>sb\<close>\<close>
  inodes :: "nat \<Rightarrow> inode"

definition IBLOCK :: "nat \<Rightarrow> superblock \<Rightarrow> nat" where
  "IBLOCK i sb = i div IPB + sb_inodestart sb"

definition BBLOCK :: "nat \<Rightarrow> superblock \<Rightarrow> nat" where
  "BBLOCK b sb = b div BPB + sb_bmapstart sb"

definition upd_inode :: "nat \<Rightarrow> (inode \<Rightarrow> inode) \<Rightarrow> ('z kfs_scheme, unit) K" where
  "upd_inode ip f = modK (\<lambda>s. s\<lparr>inodes := (inodes s)(ip := f (inodes s ip))\<rparr>)"

section \<open>Blocks\<close>

definition bzero :: "nat \<Rightarrow> nat \<Rightarrow> ('z kfs_scheme, unit) K" where
  "bzero dev bno =
     bindK (bread dev bno) (\<lambda>bp.
     bindK (upd_data bp (\<lambda>_ _. 0)) (\<lambda>_.
     bindK (log_write bp) (\<lambda>_.
     brelse bp)))"

text \<open>Bit \<open>bi\<close> of a block of the bitmap.\<close>

definition bitmap :: "block \<Rightarrow> nat \<Rightarrow> bool" where
  "bitmap d bi \<longleftrightarrow> d (bi div 8) AND push_bit (bi mod 8) 1 \<noteq> 0"

definition set_bitmap :: "nat \<Rightarrow> block \<Rightarrow> block" where
  "set_bitmap bi d = d(bi div 8 := d (bi div 8) OR push_bit (bi mod 8) 1)"

definition clear_bitmap :: "nat \<Rightarrow> block \<Rightarrow> block" where
  "clear_bitmap bi d = d(bi div 8 := d (bi div 8) AND NOT (push_bit (bi mod 8) 1))"

fun balloc_loop :: "nat \<Rightarrow> nat list \<Rightarrow> ('z kfs_scheme, nat) K" where
  "balloc_loop dev [] = panicK ''balloc: out of blocks''"
| "balloc_loop dev (b # bs) =
     bindK (getK fsb) (\<lambda>sb.
     bindK (bread dev (BBLOCK b sb)) (\<lambda>bp.
     bindK (getK (\<lambda>s. List.find (\<lambda>bi. \<not> bitmap (bdata s bp) bi) [0..<min BPB (sb_size sb - b)])) (\<lambda>r.
     case r of
       Some bi \<Rightarrow>
         bindK (upd_data bp (set_bitmap bi)) (\<lambda>_.
         bindK (log_write bp) (\<lambda>_.
         bindK (brelse bp) (\<lambda>_.
         bindK (bzero dev (b + bi)) (\<lambda>_.
         retK (b + bi)))))
     | None \<Rightarrow> bindK (brelse bp) (\<lambda>_. balloc_loop dev bs))))"

definition balloc :: "nat \<Rightarrow> ('z kfs_scheme, nat) K" where
  "balloc dev =
     bindK (getK (\<lambda>s. sb_size (fsb s))) (\<lambda>size.
     balloc_loop dev (map (\<lambda>k. k * BPB) [0..<(size + BPB - 1) div BPB]))"

definition bfree :: "nat \<Rightarrow> nat \<Rightarrow> ('z kfs_scheme, unit) K" where
  "bfree dev b =
     bindK (readsb dev) (\<lambda>sb.
     bindK (modK (\<lambda>s. s\<lparr>fsb := sb\<rparr>)) (\<lambda>_.
     bindK (bread dev (BBLOCK b sb)) (\<lambda>bp.
     bindK (getK (\<lambda>s. bitmap (bdata s bp) (b mod BPB))) (\<lambda>used.
     if \<not> used then panicK ''freeing free block''
     else
       bindK (upd_data bp (clear_bitmap (b mod BPB))) (\<lambda>_.
       bindK (log_write bp) (\<lambda>_.
       brelse bp))))))"

section \<open>Inodes\<close>

definition iinit :: "nat \<Rightarrow> ('z kfs_scheme, unit) K" where
  "iinit dev =
     bindK (initlock IcacheLock) (\<lambda>_.
     bindK (forK [0..<NINODE] (\<lambda>i. initsleeplock (InodeSleep i))) (\<lambda>_.
     bindK (readsb dev) (\<lambda>sb.
     modK (\<lambda>s. s\<lparr>fsb := sb\<rparr>))))"

text \<open>
  The on-disk inode at byte offset \<open>o\<close> of a block: four shorts, the size, 13 block numbers, 64 bytes
  in all.
\<close>

definition put_dinode :: "nat \<Rightarrow> inode \<Rightarrow> block \<Rightarrow> block" where
  "put_dinode off ip d =
     fold (\<lambda>k. put32 (off + 12 + 4 * k) (of_nat (i_addrs ip k))) [0..<NDIRECT + 2]
       (put32 (off + 8) (i_size ip) (put16 (off + 6) (i_nlink ip) (put16 (off + 4) (i_minor ip)
         (put16 (off + 2) (i_major ip) (put16 off (i_type ip) d)))))"

definition get_dinode :: "nat \<Rightarrow> block \<Rightarrow> inode \<Rightarrow> inode" where
  "get_dinode off d ip = ip\<lparr>i_type := get16 d off, i_major := get16 d (off + 2), i_minor := get16 d (off + 4),
     i_nlink := get16 d (off + 6), i_size := get32 d (off + 8),
     i_addrs := (\<lambda>k. if k < NDIRECT + 2 then unat (get32 d (off + 12 + 4 * k)) else i_addrs ip k)\<rparr>"

definition dinode_off :: "nat \<Rightarrow> nat" where
  "dinode_off inum = inum mod IPB * 64"

text \<open>The loop of \<open>iget\<close>: a cached entry, and the first empty slot.\<close>

definition iget :: "nat \<Rightarrow> nat \<Rightarrow> ('z kfs_scheme, nat) K" where
  "iget dev inum =
     bindK (acquire IcacheLock) (\<lambda>_.
     bindK (getK (\<lambda>s. List.find (\<lambda>i. i_ref (inodes s i) > 0 \<and> i_dev (inodes s i) = dev
                                    \<and> i_inum (inodes s i) = inum) [0..<NINODE])) (\<lambda>r.
     case r of
       Some ip \<Rightarrow>
         bindK (upd_inode ip (\<lambda>x. x\<lparr>i_ref := i_ref x + 1\<rparr>)) (\<lambda>_.
         bindK (release IcacheLock) (\<lambda>_. retK ip))
     | None \<Rightarrow>
         bindK (getK (\<lambda>s. List.find (\<lambda>i. i_ref (inodes s i) = 0) [0..<NINODE])) (\<lambda>e.
         case e of
           None \<Rightarrow> panicK ''iget: no inodes''
         | Some ip \<Rightarrow>
             bindK (upd_inode ip (\<lambda>x. x\<lparr>i_dev := dev, i_inum := inum, i_ref := 1, i_valid := False\<rparr>)) (\<lambda>_.
             bindK (release IcacheLock) (\<lambda>_. retK ip)))))"

fun ialloc_loop :: "nat \<Rightarrow> i16 \<Rightarrow> nat list \<Rightarrow> ('z kfs_scheme, nat) K" where
  "ialloc_loop dev typ [] = panicK ''ialloc: no inodes''"
| "ialloc_loop dev typ (inum # is) =
     bindK (getK (\<lambda>s. IBLOCK inum (fsb s))) (\<lambda>blk.
     bindK (bread dev blk) (\<lambda>bp.
     bindK (getK (\<lambda>s. get16 (bdata s bp) (dinode_off inum))) (\<lambda>t.
     if t = 0 then
       bindK (upd_data bp (\<lambda>d. put16 (dinode_off inum) typ
                (\<lambda>i. if dinode_off inum \<le> i \<and> i < dinode_off inum + 64 then 0 else d i))) (\<lambda>_.
       bindK (log_write bp) (\<lambda>_.
       bindK (brelse bp) (\<lambda>_.
       iget dev inum)))
     else bindK (brelse bp) (\<lambda>_. ialloc_loop dev typ is))))"

definition ialloc :: "nat \<Rightarrow> i16 \<Rightarrow> ('z kfs_scheme, nat) K" where
  "ialloc dev typ = bindK (getK (\<lambda>s. sb_ninodes (fsb s))) (\<lambda>n. ialloc_loop dev typ [1..<n])"

definition iupdate :: "nat \<Rightarrow> ('z kfs_scheme, unit) K" where
  "iupdate ip =
     bindK (getK (\<lambda>s. (i_dev (inodes s ip), IBLOCK (i_inum (inodes s ip)) (fsb s)))) (\<lambda>(dev, blk).
     bindK (bread dev blk) (\<lambda>bp.
     bindK (getK (\<lambda>s. inodes s ip)) (\<lambda>x.
     bindK (upd_data bp (put_dinode (dinode_off (i_inum x)) x)) (\<lambda>_.
     bindK (log_write bp) (\<lambda>_.
     brelse bp)))))"

definition idup :: "nat \<Rightarrow> ('z kfs_scheme, nat) K" where
  "idup ip =
     bindK (acquire IcacheLock) (\<lambda>_.
     bindK (upd_inode ip (\<lambda>x. x\<lparr>i_ref := i_ref x + 1\<rparr>)) (\<lambda>_.
     bindK (release IcacheLock) (\<lambda>_. retK ip)))"

definition ilock :: "nat option \<Rightarrow> ('z kfs_scheme, unit) K" where
  "ilock p =
     (case p of
        None \<Rightarrow> panicK ''ilock''
      | Some ip \<Rightarrow>
          bindK (getK (\<lambda>s. i_ref (inodes s ip))) (\<lambda>r.
          if r < 1 then panicK ''ilock''
          else
            bindK (acquiresleep (InodeSleep ip)) (\<lambda>_.
            bindK (getK (\<lambda>s. i_valid (inodes s ip))) (\<lambda>v.
            whenK (\<not> v)
              (bindK (getK (\<lambda>s. (i_dev (inodes s ip), IBLOCK (i_inum (inodes s ip)) (fsb s)))) (\<lambda>(dev, blk).
               bindK (bread dev blk) (\<lambda>bp.
               bindK (getK (\<lambda>s. bdata s bp)) (\<lambda>d.
               bindK (upd_inode ip (\<lambda>x. get_dinode (dinode_off (i_inum x)) d x)) (\<lambda>_.
               bindK (brelse bp) (\<lambda>_.
               bindK (upd_inode ip (\<lambda>x. x\<lparr>i_valid := True\<rparr>)) (\<lambda>_.
               bindK (getK (\<lambda>s. i_type (inodes s ip))) (\<lambda>t.
               whenK (t = 0) (panicK ''ilock: no type'')))))))))))))"

definition iunlock :: "nat option \<Rightarrow> ('z kfs_scheme, unit) K" where
  "iunlock p =
     (case p of
        None \<Rightarrow> panicK ''iunlock''
      | Some ip \<Rightarrow>
          bindK (holdingsleep (InodeSleep ip)) (\<lambda>h.
          bindK (getK (\<lambda>s. i_ref (inodes s ip))) (\<lambda>r.
          if \<not> h \<or> r < 1 then panicK ''iunlock'' else releasesleep (InodeSleep ip))))"

section \<open>Contents\<close>

text \<open>
  A slot of the address array of an inode, allocated when it is zero; and the same for a slot of an
  indirect block in a buffer.
\<close>

definition bmap_inode :: "nat \<Rightarrow> nat \<Rightarrow> ('z kfs_scheme, nat) K" where
  "bmap_inode ip k =
     bindK (getK (\<lambda>s. i_addrs (inodes s ip) k)) (\<lambda>addr.
     if addr = 0 then
       bindK (getK (\<lambda>s. i_dev (inodes s ip))) (\<lambda>dev.
       bindK (balloc dev) (\<lambda>a.
       bindK (upd_inode ip (\<lambda>x. x\<lparr>i_addrs := (i_addrs x)(k := a)\<rparr>)) (\<lambda>_.
       retK a)))
     else retK addr)"

definition bmap_indirect :: "nat \<Rightarrow> nat \<Rightarrow> nat \<Rightarrow> ('z kfs_scheme, nat) K" where
  "bmap_indirect dev bp k =
     bindK (getK (\<lambda>s. unat (get32 (bdata s bp) (4 * k)))) (\<lambda>addr.
     if addr = 0 then
       bindK (balloc dev) (\<lambda>a.
       bindK (upd_data bp (put32 (4 * k) (of_nat a))) (\<lambda>_.
       bindK (log_write bp) (\<lambda>_.
       retK a)))
     else retK addr)"

definition bmap :: "nat \<Rightarrow> nat \<Rightarrow> ('z kfs_scheme, nat) K" where
  "bmap ip bn =
     bindK (getK (\<lambda>s. i_dev (inodes s ip))) (\<lambda>dev.
     if bn < NDIRECT then bmap_inode ip bn
     else if bn - NDIRECT < NINDIRECT then
       bindK (bmap_inode ip NDIRECT) (\<lambda>a.
       bindK (bread dev a) (\<lambda>bp.
       bindK (bmap_indirect dev bp (bn - NDIRECT)) (\<lambda>addr.
       bindK (brelse bp) (\<lambda>_. retK addr))))
     else if bn - NDIRECT - NINDIRECT < NDBINDIRECT then
       bindK (bmap_inode ip (NDIRECT + 1)) (\<lambda>a.
       bindK (bread dev a) (\<lambda>db_bp.
       bindK (bmap_indirect dev db_bp ((bn - NDIRECT - NINDIRECT) div NINDIRECT)) (\<lambda>a2.
       bindK (bread dev a2) (\<lambda>bp.
       bindK (bmap_indirect dev bp ((bn - NDIRECT - NINDIRECT) mod NINDIRECT)) (\<lambda>addr.
       bindK (brelse bp) (\<lambda>_.
       bindK (brelse db_bp) (\<lambda>_. retK addr)))))))
     else panicK ''bmap: out of range'')"

text \<open>Freeing the blocks an indirect block in a buffer names.\<close>

definition free_indirect :: "nat \<Rightarrow> nat \<Rightarrow> ('z kfs_scheme, unit) K" where
  "free_indirect dev bp =
     forK [0..<NINDIRECT] (\<lambda>j.
       bindK (getK (\<lambda>s. unat (get32 (bdata s bp) (4 * j)))) (\<lambda>a.
       whenK (a \<noteq> 0) (bfree dev a)))"

definition trunc_direct :: "nat \<Rightarrow> nat \<Rightarrow> ('z kfs_scheme, unit) K" where
  "trunc_direct ip i =
     bindK (getK (\<lambda>s. (i_dev (inodes s ip), i_addrs (inodes s ip) i))) (\<lambda>(dev, a).
     whenK (a \<noteq> 0)
       (bindK (bfree dev a) (\<lambda>_.
        upd_inode ip (\<lambda>x. x\<lparr>i_addrs := (i_addrs x)(i := 0)\<rparr>))))"

definition trunc_double_entry :: "nat \<Rightarrow> nat \<Rightarrow> nat \<Rightarrow> ('z kfs_scheme, unit) K" where
  "trunc_double_entry dev db_bp j =
     bindK (getK (\<lambda>s. unat (get32 (bdata s db_bp) (4 * j)))) (\<lambda>dj.
     whenK (dj \<noteq> 0)
       (bindK (bread dev dj) (\<lambda>bp.
        bindK (free_indirect dev bp) (\<lambda>_.
        bindK (brelse bp) (\<lambda>_.
        bindK (bfree dev dj) (\<lambda>_.
        upd_data db_bp (put32 (4 * j) 0)))))))"

definition itrunc :: "nat \<Rightarrow> ('z kfs_scheme, unit) K" where
  "itrunc ip =
     bindK (forK [0..<NDIRECT] (trunc_direct ip)) (\<lambda>_.
     bindK (getK (\<lambda>s. (i_dev (inodes s ip), i_addrs (inodes s ip) NDIRECT))) (\<lambda>(dev, a).
     bindK (whenK (a \<noteq> 0)
       (bindK (bread dev a) (\<lambda>bp.
        bindK (free_indirect dev bp) (\<lambda>_.
        bindK (brelse bp) (\<lambda>_.
        bindK (bfree dev a) (\<lambda>_.
        upd_inode ip (\<lambda>x. x\<lparr>i_addrs := (i_addrs x)(NDIRECT := 0)\<rparr>))))))) (\<lambda>_.
     bindK (getK (\<lambda>s. i_addrs (inodes s ip) (NDIRECT + 1))) (\<lambda>a2.
     bindK (whenK (a2 \<noteq> 0)
       (bindK (bread dev a2) (\<lambda>db_bp.
        bindK (forK [0..<NINDIRECT] (trunc_double_entry dev db_bp)) (\<lambda>_.
        bindK (brelse db_bp) (\<lambda>_.
        bindK (bfree dev a2) (\<lambda>_.
        upd_inode ip (\<lambda>x. x\<lparr>i_addrs := (i_addrs x)(NDIRECT + 1 := 0)\<rparr>))))))) (\<lambda>_.
     bindK (upd_inode ip (\<lambda>x. x\<lparr>i_size := 0\<rparr>)) (\<lambda>_.
     iupdate ip))))))"

definition iput :: "nat \<Rightarrow> ('z kfs_scheme, unit) K" where
  "iput ip =
     bindK (acquire IcacheLock) (\<lambda>_.
     bindK (getK (\<lambda>s. let x = inodes s ip in i_ref x = 1 \<and> i_valid x \<and> i_nlink x = 0)) (\<lambda>gone.
     bindK (whenK gone
       (bindK (release IcacheLock) (\<lambda>_.
        bindK (itrunc ip) (\<lambda>_.
        bindK (upd_inode ip (\<lambda>x. x\<lparr>i_type := 0\<rparr>)) (\<lambda>_.
        bindK (iupdate ip) (\<lambda>_.
        bindK (acquire IcacheLock) (\<lambda>_.
        upd_inode ip (\<lambda>x. x\<lparr>i_valid := False\<rparr>)))))))) (\<lambda>_.
     bindK (upd_inode ip (\<lambda>x. x\<lparr>i_ref := i_ref x - 1\<rparr>)) (\<lambda>_.
     release IcacheLock))))"

definition iunlockput :: "nat \<Rightarrow> ('z kfs_scheme, unit) K" where
  "iunlockput ip = bindK (iunlock (Some ip)) (\<lambda>_. iput ip)"

record stat =
  st_type :: i16
  st_dev :: nat
  st_ino :: nat
  st_nlink :: i16
  st_size :: u32

definition stati :: "nat \<Rightarrow> 'z kfs_scheme \<Rightarrow> stat" where
  "stati ip s = (let x = inodes s ip in
     \<lparr>st_type = i_type x, st_dev = i_dev x, st_ino = i_inum x, st_nlink = i_nlink x, st_size = i_size x\<rparr>)"

text \<open>
  The copying loops: \<open>n\<close> bytes left from offset \<open>off\<close> on. Each round handles the part of one block.
\<close>

function readi_loop :: "nat \<Rightarrow> nat \<Rightarrow> nat \<Rightarrow> ('z kfs_scheme, u8 list) K" where
  "readi_loop ip off n s =
     (if n = 0 then (Inr [], s)
      else
        let m = min n (BSIZE - off mod BSIZE) in
        bindK (bmap ip (off div BSIZE)) (\<lambda>a.
        bindK (getK (\<lambda>s. i_dev (inodes s ip))) (\<lambda>dev.
        bindK (bread dev a) (\<lambda>bp.
        bindK (getK (\<lambda>s. map (\<lambda>i. bdata s bp (off mod BSIZE + i)) [0..<m])) (\<lambda>bs.
        bindK (brelse bp) (\<lambda>_.
        bindK (readi_loop ip (off + m) (n - m)) (\<lambda>rest.
        retK (bs @ rest))))))) s)"
  by pat_completeness auto
termination
  by (relation "measure (\<lambda>(ip, off, n, s). n)") auto

declare readi_loop.simps [simp del]

type_synonym 's readers = "nat \<Rightarrow> (nat \<Rightarrow> u32 \<Rightarrow> ('s, int \<times> u8 list) K) option"
type_synonym 's writers = "nat \<Rightarrow> (nat \<Rightarrow> (nat \<Rightarrow> u8) \<Rightarrow> u32 \<Rightarrow> ('s, int) K) option"

text \<open>Reads through \<open>devsw\<close> get the length as it is; ordinary files clip it to the size.\<close>

definition readi :: "'z kfs_scheme readers \<Rightarrow> nat \<Rightarrow> u32 \<Rightarrow> u32 \<Rightarrow> ('z kfs_scheme, int \<times> u8 list) K" where
  "readi devs ip off n =
     bindK (getK (\<lambda>s. inodes s ip)) (\<lambda>x.
     if i_type x = T_DEV then
       (let m = sint (i_major x) in
        if m < 0 \<or> m \<ge> int NDEV then retK (- 1, [])
        else case devs (nat m) of None \<Rightarrow> retK (- 1, []) | Some rd \<Rightarrow> rd ip n)
     else if off > i_size x \<or> off + n < off then retK (- 1, [])
     else
       let n' = (if off + n > i_size x then i_size x - off else n) in
       bindK (readi_loop ip (unat off) (unat n')) (\<lambda>bs. retK (sint n', bs)))"

function writei_loop :: "nat \<Rightarrow> (nat \<Rightarrow> u8) \<Rightarrow> nat \<Rightarrow> nat \<Rightarrow> nat \<Rightarrow> ('z kfs_scheme, unit) K" where
  "writei_loop ip src tot off n s =
     (if n = 0 then (Inr (), s)
      else
        let m = min n (BSIZE - off mod BSIZE) in
        bindK (bmap ip (off div BSIZE)) (\<lambda>a.
        bindK (getK (\<lambda>s. i_dev (inodes s ip))) (\<lambda>dev.
        bindK (bread dev a) (\<lambda>bp.
        bindK (upd_data bp (\<lambda>d i. if off mod BSIZE \<le> i \<and> i < off mod BSIZE + m
                                  then src (tot + (i - off mod BSIZE)) else d i)) (\<lambda>_.
        bindK (log_write bp) (\<lambda>_.
        bindK (brelse bp) (\<lambda>_.
        writei_loop ip src (tot + m) (off + m) (n - m))))))) s)"
  by pat_completeness auto
termination
  by (relation "measure (\<lambda>(ip, src, tot, off, n, s). n)") auto

declare writei_loop.simps [simp del]

definition writei :: "'z kfs_scheme writers \<Rightarrow> nat \<Rightarrow> (nat \<Rightarrow> u8) \<Rightarrow> u32 \<Rightarrow> u32 \<Rightarrow> ('z kfs_scheme, int) K" where
  "writei devs ip src off n =
     bindK (getK (\<lambda>s. inodes s ip)) (\<lambda>x.
     if i_type x = T_DEV then
       (let m = sint (i_major x) in
        if m < 0 \<or> m \<ge> int NDEV then retK (- 1)
        else case devs (nat m) of None \<Rightarrow> retK (- 1) | Some wr \<Rightarrow> wr ip src n)
     else if off > i_size x \<or> off + n < off then retK (- 1)
     else if off + n > of_nat (MAXFILE * BSIZE) then retK (- 1)
     else
       bindK (writei_loop ip src 0 (unat off) (unat n)) (\<lambda>_.
       bindK (getK (\<lambda>s. i_size (inodes s ip))) (\<lambda>sz.
       bindK (whenK (n > 0 \<and> off + n > sz)
         (bindK (upd_inode ip (\<lambda>x. x\<lparr>i_size := off + n\<rparr>)) (\<lambda>_. iupdate ip))) (\<lambda>_.
       retK (sint n)))))"

section \<open>Directories\<close>

text \<open>
  A name in a \<open>char\<close> array is a function from the index. \<open>namecmp\<close> compares at most \<open>DIRSIZ\<close> bytes and
  stops at a null byte; \<open>strncpy\<close> pads with null bytes. A directory entry is 16 bytes: the inode
  number and the name.
\<close>

fun ncmp :: "nat \<Rightarrow> (nat \<Rightarrow> u8) \<Rightarrow> (nat \<Rightarrow> u8) \<Rightarrow> nat \<Rightarrow> bool" where
  "ncmp 0 p q i = True"
| "ncmp (Suc n) p q i = (if p i \<noteq> 0 \<and> p i = q i then ncmp n p q (Suc i) else p i = q i)"

definition namecmp_eq :: "(nat \<Rightarrow> u8) \<Rightarrow> (nat \<Rightarrow> u8) \<Rightarrow> bool" where
  "namecmp_eq s t = ncmp DIRSIZ s t 0"

record dirent =
  d_inum :: u16
  d_name :: "nat \<Rightarrow> u8"

definition dirent_of :: "u8 list \<Rightarrow> dirent" where
  "dirent_of bs = \<lparr>d_inum = get16 (\<lambda>i. bs ! i) 0, d_name = (\<lambda>i. bs ! (2 + i))\<rparr>"

definition no_readers :: "'s readers" where "no_readers = (\<lambda>_. None)"
definition no_writers :: "'s writers" where "no_writers = (\<lambda>_. None)"

function dirlookup_loop :: "nat \<Rightarrow> (nat \<Rightarrow> u8) \<Rightarrow> nat \<Rightarrow> ('z kfs_scheme, (nat \<times> nat) option) K" where
  "dirlookup_loop dp name off s =
     (if off < unat (i_size (inodes s dp)) then
        bindK (readi no_readers dp (of_nat off) 16) (\<lambda>(r, bs).
        if r \<noteq> 16 then panicK ''dirlink read''
        else
          let de = dirent_of bs in
          if d_inum de \<noteq> 0 \<and> namecmp_eq name (d_name de) then
            bindK (getK (\<lambda>s. i_dev (inodes s dp))) (\<lambda>dev.
            bindK (iget dev (unat (d_inum de))) (\<lambda>ip. retK (Some (ip, off))))
          else if off + 16 < 2 ^ 32 then dirlookup_loop dp name (off + 16) else stopK Spin) s
      else (Inr None, s))"
  by pat_completeness auto
termination
  by (relation "measure (\<lambda>(dp, name, off, s). 2 ^ 32 - off)") auto

declare dirlookup_loop.simps [simp del]

definition dirlookup :: "nat \<Rightarrow> (nat \<Rightarrow> u8) \<Rightarrow> ('z kfs_scheme, (nat \<times> nat) option) K" where
  "dirlookup dp name =
     bindK (getK (\<lambda>s. i_type (inodes s dp))) (\<lambda>t.
     if t \<noteq> T_DIR then panicK ''dirlookup not DIR'' else dirlookup_loop dp name 0)"

function dirlink_loop :: "nat \<Rightarrow> nat \<Rightarrow> ('z kfs_scheme, nat) K" where
  "dirlink_loop dp off s =
     (if off < unat (i_size (inodes s dp)) then
        bindK (readi no_readers dp (of_nat off) 16) (\<lambda>(r, bs).
        if r \<noteq> 16 then panicK ''dirlink read''
        else if d_inum (dirent_of bs) = 0 then retK off
        else if off + 16 < 2 ^ 32 then dirlink_loop dp (off + 16) else stopK Spin) s
      else (Inr off, s))"
  by pat_completeness auto
termination
  by (relation "measure (\<lambda>(dp, off, s). 2 ^ 32 - off)") auto

declare dirlink_loop.simps [simp del]

text \<open>\<open>strncpy\<close> of a name into a directory entry.\<close>

fun ncpy :: "nat \<Rightarrow> (nat \<Rightarrow> u8) \<Rightarrow> nat \<Rightarrow> u8 list" where
  "ncpy 0 t i = []"
| "ncpy (Suc n) t i = (if t i = 0 then replicate (Suc n) 0 else t i # ncpy n t (Suc i))"

definition dirent_bytes :: "(nat \<Rightarrow> u8) \<Rightarrow> nat \<Rightarrow> u8 list" where
  "dirent_bytes name inum =
     [ucast (of_nat inum :: u16), ucast (drop_bit 8 (of_nat inum :: u16))] @ ncpy DIRSIZ name 0"

definition dirlink :: "nat \<Rightarrow> (nat \<Rightarrow> u8) \<Rightarrow> nat \<Rightarrow> ('z kfs_scheme, int) K" where
  "dirlink dp name inum =
     bindK (dirlookup dp name) (\<lambda>r.
     case r of
       Some (ip, _) \<Rightarrow> bindK (iput ip) (\<lambda>_. retK (- 1))
     | None \<Rightarrow>
         bindK (dirlink_loop dp 0) (\<lambda>off.
         bindK (writei no_writers dp (\<lambda>i. dirent_bytes name inum ! i) (of_nat off) 16) (\<lambda>r.
         if r \<noteq> 16 then panicK ''dirlink'' else retK 0)))"

section \<open>Paths\<close>

text \<open>
  A path is the string up to its null byte. \<open>skipelem\<close> returns the rest and the new contents of the
  array \<open>name\<close>, which keeps its old bytes behind what is written.
\<close>

definition slash :: u8 where [simp]: "slash = 0x2F"

definition skipelem :: "u8 list \<Rightarrow> (nat \<Rightarrow> u8) \<Rightarrow> (u8 list \<times> (nat \<Rightarrow> u8)) option" where
  "skipelem path name =
     (let p = dropWhile (\<lambda>c. c = slash) path in
      if p = [] then None
      else
        let s = takeWhile (\<lambda>c. c \<noteq> slash) p; len = length s;
            name' = (if len \<ge> DIRSIZ then (\<lambda>i. if i < DIRSIZ then s ! i else name i)
                     else (\<lambda>i. if i < len then s ! i else if i = len then 0 else name i))
        in Some (dropWhile (\<lambda>c. c = slash) (drop len p), name'))"

lemma skipelem_length: "skipelem p n = Some (q, n') \<Longrightarrow> length q < length p"
proof -
  assume a: "skipelem p n = Some (q, n')"
  let ?p = "dropWhile (\<lambda>c. c = slash) p" and ?P = "\<lambda>c. c \<noteq> slash"
  have ne: "?p \<noteq> []" using a by (auto simp: skipelem_def Let_def split: if_splits)
  then have "hd ?p \<noteq> slash" by (metis (full_types) hd_dropWhile)
  then have "0 < length (takeWhile ?P ?p)" using ne by (cases ?p) auto
  moreover have "q = dropWhile (\<lambda>c. c = slash) (drop (length (takeWhile ?P ?p)) ?p)"
    using a ne unfolding skipelem_def by (simp add: Let_def split: if_splits)
  ultimately show ?thesis using ne
    by (metis (no_types, lifting) diff_less le_less_trans length_drop length_dropWhile_le length_greater_0_conv
        less_le_trans)
qed

function namex_loop :: "nat \<Rightarrow> u8 list \<Rightarrow> bool \<Rightarrow> (nat \<Rightarrow> u8) \<Rightarrow> ('z kfs_scheme, nat option \<times> (nat \<Rightarrow> u8)) K" where
  "namex_loop ip path nameiparent name s =
     (case skipelem path name of
        None \<Rightarrow>
          (if nameiparent then bindK (iput ip) (\<lambda>_. retK (None, name)) else retK (Some ip, name)) s
      | Some (path', name') \<Rightarrow>
          bindK (ilock (Some ip)) (\<lambda>_.
          bindK (getK (\<lambda>s. i_type (inodes s ip))) (\<lambda>t.
          if t \<noteq> T_DIR then bindK (iunlockput ip) (\<lambda>_. retK (None, name'))
          else if nameiparent \<and> path' = [] then bindK (iunlock (Some ip)) (\<lambda>_. retK (Some ip, name'))
          else
            bindK (dirlookup ip name') (\<lambda>r.
            case r of
              None \<Rightarrow> bindK (iunlockput ip) (\<lambda>_. retK (None, name'))
            | Some (nxt, _) \<Rightarrow>
                bindK (iunlockput ip) (\<lambda>_. namex_loop nxt path' nameiparent name')))) s)"
  by pat_completeness auto
termination
  by (relation "measure (\<lambda>(ip, path, np, name, s). length path)") (auto dest: skipelem_length)

declare namex_loop.simps [simp del]

definition namex :: "u8 list \<Rightarrow> bool \<Rightarrow> (nat \<Rightarrow> u8) \<Rightarrow> ('z kfs_scheme, nat option \<times> (nat \<Rightarrow> u8)) K" where
  "namex path nameiparent name =
     bindK (if path \<noteq> [] \<and> hd path = slash then iget ROOTDEV ROOTINO
            else
              bindK (getK the_proc) (\<lambda>c.
              bindK (derefK c) (\<lambda>p.
              bindK (getK (\<lambda>s. p_cwd (pt_proc (kptable s) p))) (\<lambda>w.
              bindK (derefK w) idup)))) (\<lambda>ip.
     namex_loop ip path nameiparent name)"

definition namei :: "u8 list \<Rightarrow> ('z kfs_scheme, nat option) K" where
  "namei path = bindK (namex path False (\<lambda>_. 0)) (\<lambda>(r, _). retK r)"

definition nameiparent :: "u8 list \<Rightarrow> (nat \<Rightarrow> u8) \<Rightarrow> ('z kfs_scheme, nat option \<times> (nat \<Rightarrow> u8)) K" where
  "nameiparent path name = namex path True name"

end
