(* ===== verification/File.thy ===== *)
theory File
  imports Fs Pipe Vm
begin

text \<open>
  Open files (\<open>file.c\<close>) and \<open>pipealloc\<close> (\<open>pipe.c\<close>). The state now has the table of open files, the
  kernel memory with its page allocator, and the pipes, each under the address of its page. A pointer
  to \<open>ftable.file[i]\<close> is \<open>i\<close>.

  \<open>k_end\<close> is the linker symbol \<open>end\<close>, \<open>k_data\<close> the symbol \<open>data\<close>.
\<close>

section \<open>State\<close>

datatype fdtype = FD_NONE | FD_PIPE | FD_INODE

record ofile =
  f_type :: fdtype
  f_ref :: int
  f_readable :: bool
  f_writable :: bool
  f_pipe :: u32
  f_ip :: nat
  f_off :: u32

record kfile = kfs +
  files :: "nat \<Rightarrow> ofile"
  pipes :: "u32 \<Rightarrow> pipe"
  kmemory :: kmem
  k_end :: u32
  k_data :: u32

definition onmem :: "(kmem, 'a) K \<Rightarrow> ('z kfile_scheme, 'a) K" where
  "onmem m = liftK kmemory (\<lambda>x s. s\<lparr>kmemory := x\<rparr>) m"

definition upd_file :: "nat \<Rightarrow> (ofile \<Rightarrow> ofile) \<Rightarrow> ('z kfile_scheme, unit) K" where
  "upd_file f g = modK (\<lambda>s. s\<lparr>files := (files s)(f := g (files s f))\<rparr>)"

text \<open>The current process, which must exist.\<close>

definition curK :: "('z kfile_scheme, nat) K" where
  "curK = bindK (getK the_proc) derefK"

section \<open>Pipes in the kernel state\<close>

text \<open>
  \<open>pipeclose\<close>, \<open>piperead\<close> and \<open>pipewrite\<close> of \<open>Pipe\<close> with their locks: the lock of the pipe around the
  whole, the lock of the process table around the wakeups. Going to sleep exchanges the lock of the
  pipe for that of the table and enters the scheduler.
\<close>

definition pipe_step :: "u32 \<Rightarrow> (pipe \<Rightarrow> ptable \<Rightarrow> 'a \<times> pipe \<times> ptable) \<Rightarrow> ('z kfile_scheme, 'a) K" where
  "pipe_step a f =
     bindK (acquire PtableLock) (\<lambda>_.
     bindK (\<lambda>s. case f (pipes s a) (kptable s) of (r, p, t) \<Rightarrow>
              (Inr r, s\<lparr>pipes := (pipes s)(a := p), kptable := t\<rparr>)) (\<lambda>r.
     bindK (release PtableLock) (\<lambda>_. retK r)))"

definition file_pipeclose :: "u32 \<Rightarrow> bool \<Rightarrow> ('z kfile_scheme, unit) K" where
  "file_pipeclose a writable =
     bindK (acquire (PipeLock (unat a))) (\<lambda>_.
     bindK (pipe_step a (pipeclose (unat a) writable)) (\<lambda>gone.
     bindK (release (PipeLock (unat a))) (\<lambda>_.
     whenK gone (bindK (getK k_end) (\<lambda>kend. onmem (kfree kend a))))))"

definition sleep_in_pipe :: "u32 \<Rightarrow> ('z kfile_scheme, 'a) K" where
  "sleep_in_pipe a =
     bindK (acquire PtableLock) (\<lambda>_.
     bindK (release (PipeLock (unat a))) (\<lambda>_.
     bindK sched (\<lambda>_. stopK Swtch)))"

definition file_piperead :: "u32 \<Rightarrow> int \<Rightarrow> ('z kfile_scheme, int \<times> u8 list) K" where
  "file_piperead a n =
     bindK curK (\<lambda>cur.
     bindK (acquire (PipeLock (unat a))) (\<lambda>_.
     bindK (pipe_step a (piperead (unat a) cur n)) (\<lambda>r.
     case r of
       RSleep \<Rightarrow> sleep_in_pipe a
     | RRet k bs \<Rightarrow> bindK (release (PipeLock (unat a))) (\<lambda>_. retK (k, bs)))))"

definition file_pipewrite :: "u32 \<Rightarrow> (nat \<Rightarrow> u8) \<Rightarrow> int \<Rightarrow> ('z kfile_scheme, int) K" where
  "file_pipewrite a addr n =
     bindK curK (\<lambda>cur.
     bindK (acquire (PipeLock (unat a))) (\<lambda>_.
     bindK (pipe_step a (pipewrite (unat a) cur (map addr [0..<nat n]))) (\<lambda>r.
     case r of
       WSleep rest \<Rightarrow> sleep_in_pipe a
     | WRet k \<Rightarrow> bindK (release (PipeLock (unat a))) (\<lambda>_. retK (if n < 0 then n else k)))))"

section \<open>Operations\<close>

definition fileinit :: "('z kfile_scheme, unit) K" where
  "fileinit = initlock FtableLock"

definition filealloc :: "('z kfile_scheme, nat option) K" where
  "filealloc =
     bindK (acquire FtableLock) (\<lambda>_.
     bindK (getK (\<lambda>s. List.find (\<lambda>f. f_ref (files s f) = 0) [0..<NFILE])) (\<lambda>r.
     case r of
       Some f \<Rightarrow>
         bindK (upd_file f (\<lambda>x. x\<lparr>f_ref := 1\<rparr>)) (\<lambda>_.
         bindK (release FtableLock) (\<lambda>_. retK (Some f)))
     | None \<Rightarrow> bindK (release FtableLock) (\<lambda>_. retK None)))"

definition filedup :: "nat \<Rightarrow> ('z kfile_scheme, nat) K" where
  "filedup f =
     bindK (acquire FtableLock) (\<lambda>_.
     bindK (getK (\<lambda>s. f_ref (files s f))) (\<lambda>r.
     if r < 1 then panicK ''filedup''
     else
       bindK (upd_file f (\<lambda>x. x\<lparr>f_ref := f_ref x + 1\<rparr>)) (\<lambda>_.
       bindK (release FtableLock) (\<lambda>_. retK f))))"

definition fileclose :: "nat \<Rightarrow> ('z kfile_scheme, unit) K" where
  "fileclose f =
     bindK (acquire FtableLock) (\<lambda>_.
     bindK (getK (\<lambda>s. f_ref (files s f))) (\<lambda>r.
     if r < 1 then panicK ''fileclose''
     else
       bindK (upd_file f (\<lambda>x. x\<lparr>f_ref := f_ref x - 1\<rparr>)) (\<lambda>_.
       if r - 1 > 0 then release FtableLock
       else
         bindK (getK (\<lambda>s. files s f)) (\<lambda>ff.
         bindK (upd_file f (\<lambda>x. x\<lparr>f_ref := 0, f_type := FD_NONE\<rparr>)) (\<lambda>_.
         bindK (release FtableLock) (\<lambda>_.
         case f_type ff of
           FD_PIPE \<Rightarrow> file_pipeclose (f_pipe ff) (f_writable ff)
         | FD_INODE \<Rightarrow> bindK begin_op (\<lambda>_. bindK (iput (f_ip ff)) (\<lambda>_. end_op))
         | FD_NONE \<Rightarrow> retK ()))))))"

definition filestat :: "nat \<Rightarrow> ('z kfile_scheme, stat option) K" where
  "filestat f =
     bindK (getK (\<lambda>s. files s f)) (\<lambda>x.
     if f_type x = FD_INODE then
       bindK (ilock (Some (f_ip x))) (\<lambda>_.
       bindK (getK (stati (f_ip x))) (\<lambda>st.
       bindK (iunlock (Some (f_ip x))) (\<lambda>_. retK (Some st))))
     else retK None)"

definition fileread :: "'z kfile_scheme readers \<Rightarrow> nat \<Rightarrow> int \<Rightarrow> ('z kfile_scheme, int \<times> u8 list) K" where
  "fileread devs f n =
     bindK (getK (\<lambda>s. files s f)) (\<lambda>x.
     if \<not> f_readable x then retK (- 1, [])
     else case f_type x of
       FD_PIPE \<Rightarrow> file_piperead (f_pipe x) n
     | FD_INODE \<Rightarrow>
         bindK (ilock (Some (f_ip x))) (\<lambda>_.
         bindK (getK (\<lambda>s. f_off (files s f))) (\<lambda>off.
         bindK (readi devs (f_ip x) off (of_int n)) (\<lambda>(r, bs).
         bindK (whenK (r > 0) (upd_file f (\<lambda>y. y\<lparr>f_off := f_off y + of_int r\<rparr>))) (\<lambda>_.
         bindK (iunlock (Some (f_ip x))) (\<lambda>_. retK (r, bs))))))
     | FD_NONE \<Rightarrow> panicK ''fileread'')"

definition FILEMAX :: int where [simp]: "FILEMAX = (int LOGSIZE - 1 - 1 - 2) div 2 * 512"

function filewrite_loop :: "'z kfile_scheme writers \<Rightarrow> nat \<Rightarrow> (nat \<Rightarrow> u8) \<Rightarrow> int \<Rightarrow> int \<Rightarrow> ('z kfile_scheme, int) K" where
  "filewrite_loop devs f addr n i s =
     (if i < n then
        let n1 = min (n - i) FILEMAX in
        bindK begin_op (\<lambda>_.
        bindK (getK (\<lambda>s. f_ip (files s f))) (\<lambda>ip.
        bindK (ilock (Some ip)) (\<lambda>_.
        bindK (getK (\<lambda>s. f_off (files s f))) (\<lambda>off.
        bindK (writei devs ip (\<lambda>k. addr (nat i + k)) off (of_int n1)) (\<lambda>r.
        bindK (whenK (r > 0) (upd_file f (\<lambda>y. y\<lparr>f_off := f_off y + of_int r\<rparr>))) (\<lambda>_.
        bindK (iunlock (Some ip)) (\<lambda>_.
        bindK end_op (\<lambda>_.
        if r < 0 then retK i
        else if r \<noteq> n1 then panicK ''short filewrite''
        else filewrite_loop devs f addr n (i + n1))))))))) s
      else (Inr i, s))"
  by pat_completeness auto
termination
  by (relation "measure (\<lambda>(devs, f, addr, n, i, s). nat (n - i))") auto

declare filewrite_loop.simps [simp del]

definition filewrite :: "'z kfile_scheme writers \<Rightarrow> nat \<Rightarrow> (nat \<Rightarrow> u8) \<Rightarrow> int \<Rightarrow> ('z kfile_scheme, int) K" where
  "filewrite devs f addr n =
     bindK (getK (\<lambda>s. files s f)) (\<lambda>x.
     if \<not> f_writable x then retK (- 1)
     else case f_type x of
       FD_PIPE \<Rightarrow> file_pipewrite (f_pipe x) addr n
     | FD_INODE \<Rightarrow> bindK (filewrite_loop devs f addr n 0) (\<lambda>i. retK (if i = n then n else - 1))
     | FD_NONE \<Rightarrow> panicK ''filewrite'')"

text \<open>
  \<open>pipealloc\<close>: two files and a page, or none of them. The struct begins with its lock, 52 bytes.
\<close>

definition pipealloc :: "('z kfile_scheme, (nat \<times> nat) option) K" where
  "pipealloc =
     bindK filealloc (\<lambda>r0.
     case r0 of
       None \<Rightarrow> retK None
     | Some f0 \<Rightarrow>
         bindK filealloc (\<lambda>r1.
         case r1 of
           None \<Rightarrow> bindK (fileclose f0) (\<lambda>_. retK None)
         | Some f1 \<Rightarrow>
             bindK (onmem kalloc) (\<lambda>p.
             if p = 0 then bindK (fileclose f0) (\<lambda>_. bindK (fileclose f1) (\<lambda>_. retK None))
             else
               bindK (modK (\<lambda>s. s\<lparr>pipes := (pipes s)(p :=
                        pipe_init (\<lambda>i. km_mem (kmemory s) (p + 52 + of_nat i)))\<rparr>)) (\<lambda>_.
               bindK (initlock (PipeLock (unat p))) (\<lambda>_.
               bindK (upd_file f0 (\<lambda>x. x\<lparr>f_type := FD_PIPE, f_readable := True, f_writable := False, f_pipe := p\<rparr>)) (\<lambda>_.
               bindK (upd_file f1 (\<lambda>x. x\<lparr>f_type := FD_PIPE, f_readable := False, f_writable := True, f_pipe := p\<rparr>)) (\<lambda>_.
               retK (Some (f0, f1)))))))))"

end
