(* ===== verification/Stride.thy ===== *)
theory Stride
  imports Proc_Table
begin

text \<open>
  The stride scheduler of \<open>proc.c\<close>: the binary heap \<open>ptable.stride_queue\<close> of
  processes ordered by \<open>stride_count\<close> (slots 1 to \<open>stride_queue_size\<close>), insertion,
  deletion, the search for the process to run, the choice between the stride queue
  and the feedback queue, and the system calls that change CPU shares.

  The definitions follow the code literally, with its pointer comparison in
  \<open>stride_queue_heapify_up\<close> and its use of \<open>proc\<close> instead of the parameter in
  \<open>stride_queue_delete\<close>.
\<close>

section \<open>Operations\<close>

text \<open>The pass value of a process, as the signed number the code compares.\<close>

definition scount :: "ptable \<Rightarrow> nat \<Rightarrow> int" where
  "scount s p = sint (p_stride_count (pt_proc s p))"

text \<open>
  Comparison of \<open>struct proc\<close> pointers: null is address 0, and the slots of
  \<open>ptable.proc\<close> lie at increasing addresses.
\<close>

fun ptr_less :: "nat option \<Rightarrow> nat option \<Rightarrow> bool" where
  "ptr_less None (Some _) = True"
| "ptr_less (Some i) (Some j) = (i < j)"
| "ptr_less _ None = False"

lemma ptr_less_irrefl [simp]: "\<not> ptr_less a a"
  by (cases a) auto

function heapify_up_loop :: "nat \<Rightarrow> (nat \<Rightarrow> nat option) \<Rightarrow> nat \<times> (nat \<Rightarrow> nat option)" where
  "heapify_up_loop i q =
     (if i \<noteq> 1 \<and> ptr_less (q i) (q (i div 2))
      then heapify_up_loop (i div 2) (q(i := q (i div 2)))
      else (i, q))"
  by pat_completeness auto
termination
proof (relation "measure fst")
  fix i :: nat and q :: "nat \<Rightarrow> nat option"
  assume "i \<noteq> 1 \<and> ptr_less (q i) (q (i div 2))"
  then have "i \<noteq> 0" by (auto intro: ccontr)
  then show "((i div 2, q(i := q (i div 2))), i, q) \<in> measure fst" by simp
qed simp

declare heapify_up_loop.simps [simp del]

definition stride_queue_heapify_up :: "nat \<Rightarrow> (ptable, unit) K" where
  "stride_queue_heapify_up stride_idx = (\<lambda>s.
     if stride_idx < NSTRIDE_QUEUE then
       let target_proc = stride_queue s stride_idx;
           (j, q) = heapify_up_loop stride_idx (stride_queue s)
       in (Inr (), s\<lparr>stride_queue := q(j := target_proc)\<rparr>)
     else (Inl OutOfBounds, s))"

text \<open>
  The loop of \<open>stride_queue_heapify_down\<close>, with \<open>p\<close> the process being moved and \<open>i\<close>
  the current index; it returns the final index. The guard \<open>0 < i\<close> only excludes
  slot 0, which the code never uses.
\<close>

function heapify_down_loop :: "nat option \<Rightarrow> nat \<Rightarrow> ptable \<Rightarrow> (stop + nat) \<times> ptable" where
  "heapify_down_loop p i s =
     (if 0 < i \<and> i * 2 < NPROC \<and> i \<le> stride_queue_size s then
        (case (stride_queue s (i * 2), stride_queue s (i * 2 + 1)) of
           (Some l, Some r) \<Rightarrow>
             let c = (if scount s l < scount s r then i * 2 else i * 2 + 1);
                 ch = (if scount s l < scount s r then l else r)
             in (case p of None \<Rightarrow> (Inl NullPtr, s)
                 | Some pp \<Rightarrow>
                     if scount s ch < scount s pp
                     then heapify_down_loop p c (s\<lparr>stride_queue := (stride_queue s)(i := Some ch)\<rparr>)
                     else (Inr i, s))
         | (Some l, None) \<Rightarrow>
             (case p of None \<Rightarrow> (Inl NullPtr, s)
              | Some pp \<Rightarrow>
                  if scount s l < scount s pp
                  then (Inr (i * 2), s\<lparr>stride_queue := (stride_queue s)(i := Some l)\<rparr>)
                  else (Inr i, s))
         | (None, _) \<Rightarrow> (Inr i, s))
      else (Inr i, s))"
  by pat_completeness auto
termination
  by (relation "measure (\<lambda>(p, i, s). NPROC - i)") auto

declare heapify_down_loop.simps [simp del]

definition stride_queue_heapify_down :: "nat \<Rightarrow> (ptable, unit) K" where
  "stride_queue_heapify_down stride_idx = (\<lambda>s.
     if stride_idx < NSTRIDE_QUEUE then
       let p = stride_queue s stride_idx in
       (case heapify_down_loop p stride_idx s of
          (Inl e, t) \<Rightarrow> (Inl e, t)
        | (Inr j, t) \<Rightarrow> (Inr (), t\<lparr>stride_queue := (stride_queue t)(j := p)\<rparr>))
     else (Inl OutOfBounds, s))"

text \<open>
  \<open>stride_queue_push\<close>: the new process takes the smallest pass value, and the path
  from the new last slot to the root is shifted down to make room at the root.
\<close>

function push_loop :: "nat \<Rightarrow> (nat \<Rightarrow> nat option) \<Rightarrow> (nat \<Rightarrow> nat option)" where
  "push_loop idx q = (if 1 < idx then push_loop (idx div 2) (q(idx := q (idx div 2))) else q)"
  by pat_completeness auto
termination
  by (relation "measure fst") auto

declare push_loop.simps [simp del]

definition stride_queue_push :: "nat \<Rightarrow> (ptable, unit) K" where
  "stride_queue_push proc = (\<lambda>s.
     let s1 = (case stride_queue s 1 of
                 None \<Rightarrow> s
               | Some r \<Rightarrow> upd_proc proc (\<lambda>p. p\<lparr>p_stride_count := p_stride_count (pt_proc s r)\<rparr>) s);
         n = stride_queue_size s + 1;
         s2 = s1\<lparr>stride_queue_size := n\<rparr>
     in if n < NSTRIDE_QUEUE
        then (Inr (), s2\<lparr>stride_queue := (push_loop n (stride_queue s2))(1 := Some proc)\<rparr>)
        else (Inl OutOfBounds, s2))"

text \<open>
  \<open>stride_queue_delete(p)\<close> with \<open>cur\<close> for the global \<open>proc\<close>: the body names \<open>proc\<close>
  everywhere and never its parameter. \<open>junk\<close> is the value the local variable
  \<open>heapify_up\<close> has when no branch assigns it. A hit of the search in an empty queue,
  where the code would write slot 0, is out of bounds.
\<close>

definition delete_flag :: "nat \<Rightarrow> bool \<Rightarrow> (ptable, bool) K" where
  "delete_flag stride_idx junk = (\<lambda>s.
     if stride_idx = 1 then (Inr False, s)
     else if stride_idx \<le> stride_queue_size s then
       (case (stride_queue s stride_idx, stride_queue s (stride_idx div 2)) of
          (Some a, Some b) \<Rightarrow> (Inr (scount s a < scount s b), s)
        | _ \<Rightarrow> (Inl NullPtr, s))
     else (Inr junk, s))"

definition stride_queue_delete :: "nat \<Rightarrow> nat \<Rightarrow> bool \<Rightarrow> (ptable, unit) K" where
  "stride_queue_delete cur p junk =
     bindK (modK (\<lambda>s. s\<lparr>sum_cpu_share := sum_cpu_share s - p_cpu_share (pt_proc s cur)\<rparr>)) (\<lambda>_.
     bindK (getK (\<lambda>s. List.find (\<lambda>i. stride_queue s i = Some cur) [1..<NSTRIDE_QUEUE])) (\<lambda>found.
     case found of
       None \<Rightarrow> panicK ''exit(): a process is not in the stride scheduler''
     | Some stride_idx \<Rightarrow>
         bindK (getK stride_queue_size) (\<lambda>n.
         if n = 0 then stopK OutOfBounds else
         bindK (modK (\<lambda>s. s\<lparr>stride_queue := (stride_queue s)(stride_idx := stride_queue s n, n := None),
                             stride_queue_size := n - 1\<rparr>)) (\<lambda>_.
         bindK (delete_flag stride_idx junk) (\<lambda>heapify_up.
         if n - 1 = 0 \<or> n - 1 = 1 then retK ()
         else if heapify_up then stride_queue_heapify_down stride_idx
         else stride_queue_heapify_up stride_idx)))))"

text \<open>
  \<open>find_idx_of_stride_to_run\<close>: the walk from the root towards the smaller child until a
  \<open>RUNNABLE\<close> process is met, which is charged one stride and moved down; then, if the
  walk fell off the heap, the scan of the whole array.
\<close>

function find_idx_loop :: "nat \<Rightarrow> ptable \<Rightarrow> (stop + nat) \<times> ptable" where
  "find_idx_loop i s =
     (if 0 < i \<and> i \<le> stride_queue_size s then
        (case stride_queue s i of
           None \<Rightarrow> (Inl NullPtr, s)
         | Some p \<Rightarrow>
             if p_state (pt_proc s p) = RUNNABLE then
               (case stride_queue_heapify_down i
                       (upd_proc p (\<lambda>q. q\<lparr>p_stride_count := p_stride_count q + p_stride q\<rparr>) s) of
                  (Inl e, t) \<Rightarrow> (Inl e, t)
                | (Inr _, t) \<Rightarrow> (Inr i, t))
             else if i * 2 + 1 \<le> stride_queue_size s then
               (case (stride_queue s (i * 2), stride_queue s (i * 2 + 1)) of
                  (Some l, Some r) \<Rightarrow>
                    find_idx_loop (if scount s l < scount s r then i * 2 else i * 2 + 1) s
                | _ \<Rightarrow> (Inl NullPtr, s))
             else if stride_queue_size s < i * 2 then (Inr (stride_queue_size s + 1), s)
             else find_idx_loop (i * 2) s)
      else (Inr i, s))"
  by pat_completeness auto
termination
  by (relation "measure (\<lambda>(i, s). stride_queue_size s + 1 - i)") auto

declare find_idx_loop.simps [simp del]

fun find_runnable :: "nat list \<Rightarrow> nat \<Rightarrow> (ptable, nat) K" where
  "find_runnable [] dflt s = (Inr dflt, s)"
| "find_runnable (i # is) dflt s =
     (case stride_queue s i of
        None \<Rightarrow> (Inl NullPtr, s)
      | Some p \<Rightarrow> if p_state (pt_proc s p) = RUNNABLE then (Inr i, s)
                  else find_runnable is dflt s)"

definition find_idx_of_stride_to_run :: "(ptable, nat) K" where
  "find_idx_of_stride_to_run =
     bindK (find_idx_loop 1) (\<lambda>stride_find_idx.
     bindK (getK stride_queue_size) (\<lambda>n.
     if n + 1 \<le> stride_find_idx then find_runnable [1..<n + 1] stride_find_idx
     else retK stride_find_idx))"

text \<open>
  \<open>select_stride_or_MLFQ\<close>, without the lock around the counter: the stride queue gets
  the first \<open>sum_cpu_share / 10\<close> of every hundred decisions.
\<close>

definition select_stride_or_MLFQ :: "ptable \<Rightarrow> bool \<times> ptable" where
  "select_stride_or_MLFQ s =
     (let qs = (queue_selector s + 1) mod 100;
          s1 = s\<lparr>queue_selector := qs\<rparr>
      in if qs < cdiv (sum_cpu_share s) 10 then
           (if stride_queue_size s = 0 then (False, s1\<lparr>sum_cpu_share := 0\<rparr>) else (True, s1))
         else (False, s1))"

subsection \<open>CPU shares\<close>

text \<open>The common tail of the three share-setting functions once the request is accepted.\<close>

definition set_share_fields :: "nat \<Rightarrow> int \<Rightarrow> int \<Rightarrow> ptable \<Rightarrow> ptable" where
  "set_share_fields t required original s =
     upd_proc t (\<lambda>p. p\<lparr>p_cpu_share := required, p_original_cpu_share := original,
                        p_stride := word_of_int (cdiv NSTRIDE required)\<rparr>) s"

definition set_cpu_share_other_threads :: "nat \<Rightarrow> int \<Rightarrow> nat \<Rightarrow> (ptable, int) K" where
  "set_cpu_share_other_threads cur required t = (\<lambda>s.
     if p_tid (pt_proc s cur) \<noteq> 0
     then (Inl (Panic ''(set_cpu_share_other_threads) The argument proc is not a thread.\<newline>''), s)
     else if \<not> (MIN_CPU_SHARE \<le> required \<and> required \<le> MAX_CPU_SHARE) then (Inr (- 1), s)
     else
       let already = p_cpu_share (pt_proc s t);
           desired = sum_cpu_share s - already + required
       in if desired > MAX_CPU_SHARE then (Inr (- 1), s)
          else
            let s1 = set_share_fields t required (p_original_cpu_share (pt_proc s cur))
                       (s\<lparr>sum_cpu_share := desired\<rparr>)
            in if already = 0 then bindK (stride_queue_push t) (\<lambda>_. retK 0) s1
               else (Inr 0, s1))"

definition set_cpu_share :: "nat \<Rightarrow> int \<Rightarrow> (ptable, int) K" where
  "set_cpu_share cur req = (\<lambda>s.
     let threads = p_num_of_threads (pt_proc s cur);
         master = (p_tid (pt_proc s cur) = 0 \<and> threads \<noteq> 0);
         required = (if master then cdiv req (threads + 1) else req)
     in if master \<and> threads + 1 = 0 then (Inl DivZero, s)
        else if \<not> (MIN_CPU_SHARE \<le> required \<and> required \<le> MAX_CPU_SHARE) then (Inr (- 1), s)
        else
          let already = p_cpu_share (pt_proc s cur);
              desired = sum_cpu_share s - already + required
          in if desired > MAX_CPU_SHARE then (Inr (- 1), s)
             else
               let s1 = set_share_fields cur required required (s\<lparr>sum_cpu_share := desired\<rparr>)
               in bindK (whenK (already = 0) (stride_queue_push cur)) (\<lambda>_.
                  bindK (getK (\<lambda>s. p_tid (pt_proc s cur) = 0 \<and> p_num_of_threads (pt_proc s cur) \<noteq> 0))
                    (\<lambda>again.
                  bindK (whenK again (forK [0..<NPROC] (\<lambda>t.
                    bindK (getK (\<lambda>s. p_pid (pt_proc s t) = p_pid (pt_proc s cur)
                                     \<and> p_tid (pt_proc s t) \<noteq> 0)) (\<lambda>hit.
                    whenK hit (bindK (set_cpu_share_other_threads cur required t) (\<lambda>r.
                      whenK (r \<noteq> 0) (panicK
                        ''(set_cpu_share) inserting threads to stride queue is failed.\<newline>'')))))))
                  (\<lambda>_. retK 0))) s1)"

text \<open>
  \<open>set_cpu_share_in_thread_create\<close>: as above, but the total is left alone because the
  new thread's share comes out of the share its process already has.
\<close>

definition set_cpu_share_in_thread_create :: "int \<Rightarrow> nat \<Rightarrow> nat \<Rightarrow> (ptable, int) K" where
  "set_cpu_share_in_thread_create required proc master_thread = (\<lambda>s.
     if \<not> (MIN_CPU_SHARE \<le> required \<and> required \<le> MAX_CPU_SHARE) then (Inr (- 1), s)
     else
       let already = p_cpu_share (pt_proc s proc);
           s1 = set_share_fields proc required (p_original_cpu_share (pt_proc s master_thread)) s
       in if already = 0 then bindK (stride_queue_push proc) (\<lambda>_. retK 0) s1
          else (Inr 0, s1))"

end
