(* ===== verification/Proc.thy ===== *)
theory Proc
  imports File Stride
begin

text \<open>
  The life of processes and threads (\<open>proc.c\<close>): creation, \<open>fork\<close>, \<open>exit\<close>, \<open>wait\<close>, the reference
  counters of page directories, and the thread system calls.

  The trap frame and the kernel context of a process lie on its kernel stack; here they are fields of
  the process. \<open>junk\<close> is the value of a local variable that \<open>stride_queue_delete\<close> may read before it is
  set. Messages on the console are left out. Code that waits stops with \<^const>\<open>Swtch\<close> inside \<open>sched\<close>;
  the loops of \<open>wait\<close> and \<open>thread_join\<close> are definitions of their own, entered again after the sleep.
\<close>

section \<open>State\<close>

record kernel = kfile +
  initproc :: "nat option"
  nextpid :: int
  next_thread_id :: int
  pgdir_ref :: "nat \<Rightarrow> int"
  pgdir_ref_next_idx :: nat
  forkret_first :: bool
  cr3 :: "nat \<Rightarrow> u32"             \<comment> \<open>the page directory register of each processor\<close>
  ts_esp0 :: "nat \<Rightarrow> u32"         \<comment> \<open>\<open>cpu->ts.esp0\<close>\<close>
  k_forkret :: u32                \<comment> \<open>linker symbols\<close>
  k_trapret :: u32
  k_initcode :: u32
  k_initcode_size :: u32

definition onpt :: "(ptable, 'a) K \<Rightarrow> ('z kernel_scheme, 'a) K" where
  "onpt m = liftK kptable (\<lambda>t s. s\<lparr>kptable := t\<rparr>) m"

definition upd :: "nat \<Rightarrow> (proc \<Rightarrow> proc) \<Rightarrow> ('z kernel_scheme, unit) K" where
  "upd p f = modK (mod_ptable (upd_proc p f))"

definition theproc :: "nat \<Rightarrow> ('z kernel_scheme, proc) K" where
  "theproc p = getK (\<lambda>s. pt_proc (kptable s) p)"

text \<open>
  A store of the kernel to a user address goes through the page tables of the running processor; a
  page that is absent or read-only is a fault in kernel mode, where \<open>trap\<close> panics.
\<close>

definition translate :: "mem \<Rightarrow> u32 \<Rightarrow> u32 \<Rightarrow> u32 option" where
  "translate m pgdir va =
     (let pde = load32 m (pgdir + 4 * PDX va) in
      if and pde PTE_P = 0 \<or> and pde PTE_W = 0 then None
      else
        let pte = load32 m (P2V (PTE_ADDR pde) + 4 * PTX va) in
        if and pte PTE_P = 0 \<or> and pte PTE_W = 0 then None
        else Some (P2V (PTE_ADDR pte) + and va 0xFFF))"

definition user_store8 :: "u32 \<Rightarrow> u8 \<Rightarrow> ('z kernel_scheme, unit) K" where
  "user_store8 va b =
     bindK (getK (\<lambda>s. translate (km_mem (kmemory s)) (P2V (cr3 s (me s))) va)) (\<lambda>r.
     case r of
       None \<Rightarrow> panicK ''trap''
     | Some a \<Rightarrow> onmem (upd_mem (\<lambda>m. m(a := b))))"

definition user_store32 :: "u32 \<Rightarrow> u32 \<Rightarrow> ('z kernel_scheme, unit) K" where
  "user_store32 va w =
     forK [0..<4] (\<lambda>k. user_store8 (va + of_nat k) (ucast (drop_bit (8 * k) w)))"

section \<open>Reference counters of page directories\<close>

definition check_pgdir_counter_and_call_freevm :: "nat \<Rightarrow> ('z kernel_scheme, unit) K" where
  "check_pgdir_counter_and_call_freevm p =
     bindK (theproc p) (\<lambda>x.
     bindK (getK k_end) (\<lambda>kend.
     if p_pgdir_ref_idx x = - 1 then onmem (freevm kend (p_pgdir x))
     else if p_pgdir_ref_idx x < 0 \<or> p_pgdir_ref_idx x \<ge> int NPROC then stopK OutOfBounds
     else
       let k = nat (p_pgdir_ref_idx x) in
       bindK (getK (\<lambda>s. pgdir_ref s k)) (\<lambda>c.
       if c \<le> 1 then
         bindK (acquire ThreadLock) (\<lambda>_.
         bindK (modK (\<lambda>s. s\<lparr>pgdir_ref := (pgdir_ref s)(k := 0)\<rparr>)) (\<lambda>_.
         bindK (release ThreadLock) (\<lambda>_.
         onmem (freevm kend (p_pgdir x)))))
       else
         bindK (acquire ThreadLock) (\<lambda>_.
         bindK (modK (\<lambda>s. s\<lparr>pgdir_ref := (pgdir_ref s)(k := pgdir_ref s k - 1)\<rparr>)) (\<lambda>_.
         release ThreadLock)))))"

text \<open>The search of a free counter, with \<open>i\<close> rounds left; it wraps around the ring once.\<close>

primrec find_pgdir_idx :: "nat \<Rightarrow> (nat \<Rightarrow> int) \<Rightarrow> nat \<Rightarrow> nat option \<times> nat" where
  "find_pgdir_idx 0 refs nxt = (None, nxt)"
| "find_pgdir_idx (Suc i) refs nxt =
     (if refs nxt = 0 then (Some nxt, (nxt + 1) mod NPROC)
      else find_pgdir_idx i refs ((nxt + 1) mod NPROC))"

definition allocate_new_pgdir_idx :: "nat \<Rightarrow> ('z kernel_scheme, unit) K" where
  "allocate_new_pgdir_idx p =
     bindK (acquire ThreadLock) (\<lambda>_.
     bindK (getK (\<lambda>s. find_pgdir_idx NPROC (pgdir_ref s) (pgdir_ref_next_idx s))) (\<lambda>(r, nxt).
     bindK (modK (\<lambda>s. s\<lparr>pgdir_ref_next_idx := nxt\<rparr>)) (\<lambda>_.
     case r of
       None \<Rightarrow> panicK (''(allocate_new_pgdir_idx): pgdir referencing counter allocation is failed.'' @ [CHR 0x0A])
     | Some k \<Rightarrow>
         bindK (upd p (\<lambda>x. x\<lparr>p_pgdir_ref_idx := int k\<rparr>)) (\<lambda>_.
         bindK (modK (\<lambda>s. s\<lparr>pgdir_ref := (pgdir_ref s)(k := 1)\<rparr>)) (\<lambda>_.
         release ThreadLock)))))"

section \<open>Creation\<close>

definition pinit :: "('z kernel_scheme, unit) K" where
  "pinit =
     bindK (initlock PtableLock) (\<lambda>_.
     bindK (initlock ThreadLock) (\<lambda>_.
     modK (mod_ptable ptable_init)))"

definition allocproc :: "('z kernel_scheme, nat option) K" where
  "allocproc =
     bindK (acquire PtableLock) (\<lambda>_.
     bindK (getK (\<lambda>s. List.find (\<lambda>p. p_state (pt_proc (kptable s) p) = UNUSED) [0..<NPROC])) (\<lambda>r.
     case r of
       None \<Rightarrow> bindK (release PtableLock) (\<lambda>_. retK None)
     | Some p \<Rightarrow>
         bindK (getK nextpid) (\<lambda>pid.
         bindK (modK (\<lambda>s. s\<lparr>nextpid := pid + 1\<rparr>)) (\<lambda>_.
         bindK (upd p (\<lambda>x. x\<lparr>p_state := EMBRYO, p_pid := pid, p_tick_used := 0, p_level_of_MLFQ := 0,
                  p_time_quantum_used := 0, p_cpu_share := 0, p_stride := 0, p_stride_count := 0, p_tid := 0,
                  p_pgdir_ref_idx := - 1, p_thread_return := 0, p_num_of_threads := 0,
                  p_proc_forked_in_thread := None, p_original_cpu_share := 0\<rparr>)) (\<lambda>_.
         bindK (release PtableLock) (\<lambda>_.
         bindK (onmem kalloc) (\<lambda>k.
         bindK (upd p (\<lambda>x. x\<lparr>p_kstack := k\<rparr>)) (\<lambda>_.
         if k = 0 then bindK (upd p (\<lambda>x. x\<lparr>p_state := UNUSED\<rparr>)) (\<lambda>_. retK None)
         else
           bindK (getK k_trapret) (\<lambda>tr.
           bindK (onmem (upd_mem (store32 (k + of_nat KSTACKSIZE - 76 - 4) tr))) (\<lambda>_.
           bindK (getK k_forkret) (\<lambda>fr.
           bindK (upd p (\<lambda>x. x\<lparr>p_context := kcontext_zero\<lparr>c_eip := fr\<rparr>\<rparr>)) (\<lambda>_.
           retK (Some p)))))))))))))"

definition SEG_UCODE :: u16 where [simp]: "SEG_UCODE = 4"
definition SEG_UDATA :: u16 where [simp]: "SEG_UDATA = 5"
definition DPL_USER :: u16 where [simp]: "DPL_USER = 3"
definition FL_IF :: u32 where [simp]: "FL_IF = 0x200"

definition user_frame :: trapframe where
  "user_frame = trapframe_zero\<lparr>tf_cs := or (push_bit 3 SEG_UCODE) DPL_USER,
     tf_ds := or (push_bit 3 SEG_UDATA) DPL_USER, tf_es := or (push_bit 3 SEG_UDATA) DPL_USER,
     tf_ss := or (push_bit 3 SEG_UDATA) DPL_USER, tf_eflags := FL_IF, tf_esp := PGSIZE, tf_eip := 0\<rparr>"

definition userinit :: "('z kernel_scheme, unit) K" where
  "userinit =
     bindK allocproc (\<lambda>r.
     bindK (modK (\<lambda>s. s\<lparr>initproc := r\<rparr>)) (\<lambda>_.
     bindK (getK k_data) (\<lambda>kdata.
     bindK (onmem (setupkvm kdata)) (\<lambda>d.
     bindK (derefK r) (\<lambda>p.
     bindK (upd p (\<lambda>x. x\<lparr>p_pgdir := d\<rparr>)) (\<lambda>_.
     if d = 0 then panicK ''userinit: out of memory?''
     else
       bindK (getK (\<lambda>s. (k_initcode s, k_initcode_size s))) (\<lambda>(code, sz).
       bindK (onmem (inituvm d code sz)) (\<lambda>_.
       bindK (upd p (\<lambda>x. x\<lparr>p_sz := PGSIZE, p_tf := user_frame, p_name := ''initcode''\<rparr>)) (\<lambda>_.
       bindK (namei [slash]) (\<lambda>ip.
       bindK (upd p (\<lambda>x. x\<lparr>p_cwd := ip\<rparr>)) (\<lambda>_.
       bindK (acquire PtableLock) (\<lambda>_.
       bindK (upd p (\<lambda>x. x\<lparr>p_state := RUNNABLE\<rparr>)) (\<lambda>_.
       release PtableLock)))))))))))))"

definition switchuvm :: "nat option \<Rightarrow> ('z kernel_scheme, unit) K" where
  "switchuvm r =
     (case r of
        None \<Rightarrow> panicK ''switchuvm: no process''
      | Some p \<Rightarrow>
          bindK (theproc p) (\<lambda>x.
          if p_kstack x = 0 then panicK ''switchuvm: no kstack''
          else if p_pgdir x = 0 then panicK ''switchuvm: no pgdir''
          else
            bindK pushcli (\<lambda>_.
            bindK (modK (\<lambda>s. s\<lparr>ts_esp0 := (ts_esp0 s)(me s := p_kstack x + of_nat KSTACKSIZE),
                              cr3 := (cr3 s)(me s := V2P (p_pgdir x))\<rparr>)) (\<lambda>_.
            popcli))))"

text \<open>The sizes are unsigned: adding \<open>n\<close> wraps around.\<close>

definition growproc :: "int \<Rightarrow> ('z kernel_scheme, int) K" where
  "growproc n =
     bindK curK (\<lambda>cur.
     bindK (theproc cur) (\<lambda>x.
     bindK (getK k_end) (\<lambda>kend.
     bindK (if n > 0 then onmem (allocuvm kend (p_pgdir x) (p_sz x) (p_sz x + of_int n))
            else if n < 0 then onmem (deallocuvm kend (p_pgdir x) (p_sz x) (p_sz x + of_int n))
            else retK (p_sz x)) (\<lambda>sz.
     if n \<noteq> 0 \<and> sz = 0 then retK (- 1)
     else
       bindK (upd cur (\<lambda>x. x\<lparr>p_sz := sz\<rparr>)) (\<lambda>_.
       bindK (switchuvm (Some cur)) (\<lambda>_. retK 0))))))"

text \<open>Duplicating the open files and the directory of \<open>from\<close> into \<open>to\<close>, under \<open>thread_lock\<close>.\<close>

definition dup_file :: "nat \<Rightarrow> nat \<Rightarrow> nat \<Rightarrow> ('z kernel_scheme, unit) K" where
  "dup_file from to i =
     bindK (theproc from) (\<lambda>x.
     case p_ofile x i of
       None \<Rightarrow> retK ()
     | Some f \<Rightarrow>
         bindK (acquire ThreadLock) (\<lambda>_.
         bindK (filedup f) (\<lambda>g.
         bindK (upd to (\<lambda>y. y\<lparr>p_ofile := (p_ofile y)(i := Some g)\<rparr>)) (\<lambda>_.
         release ThreadLock))))"

definition dup_cwd :: "nat \<Rightarrow> nat \<Rightarrow> ('z kernel_scheme, unit) K" where
  "dup_cwd from to =
     bindK (acquire ThreadLock) (\<lambda>_.
     bindK (theproc from) (\<lambda>x.
     bindK (derefK (p_cwd x)) (\<lambda>w.
     bindK (idup w) (\<lambda>ip.
     bindK (upd to (\<lambda>y. y\<lparr>p_cwd := Some ip\<rparr>)) (\<lambda>_.
     release ThreadLock)))))"

definition fork_master_thread :: "nat \<Rightarrow> ('z kernel_scheme, int) K" where
  "fork_master_thread t =
     bindK curK (\<lambda>cur.
     bindK (theproc t) (\<lambda>tx.
     bindK (derefK (p_parent tx)) (\<lambda>old.
     bindK allocproc (\<lambda>r.
     case r of
       None \<Rightarrow> retK (- 1)
     | Some np \<Rightarrow>
         bindK (theproc old) (\<lambda>ox.
         bindK (upd np (\<lambda>x. x\<lparr>p_pid := p_pid tx, p_pgdir := p_pgdir ox, p_sz := p_sz ox, p_parent := Some old\<rparr>)) (\<lambda>_.
         bindK (upd t (\<lambda>x. x\<lparr>p_parent := Some np\<rparr>)) (\<lambda>_.
         bindK (upd cur (\<lambda>x. x\<lparr>p_proc_forked_in_thread := Some np\<rparr>)) (\<lambda>_.
         bindK (upd np (\<lambda>x. x\<lparr>p_tf := p_tf ox, p_pgdir_ref_idx := p_pgdir_ref_idx tx\<rparr>)) (\<lambda>_.
         if p_pgdir_ref_idx tx < 0 \<or> p_pgdir_ref_idx tx \<ge> int NPROC then stopK OutOfBounds
         else
           let k = nat (p_pgdir_ref_idx tx) in
           bindK (acquire ThreadLock) (\<lambda>_.
           bindK (modK (\<lambda>s. s\<lparr>pgdir_ref := (pgdir_ref s)(k := pgdir_ref s k + 1)\<rparr>)) (\<lambda>_.
           bindK (upd np (\<lambda>x. x\<lparr>p_num_of_threads := p_num_of_threads x + 1\<rparr>)) (\<lambda>_.
           bindK (release ThreadLock) (\<lambda>_.
           bindK (upd np (\<lambda>x. x\<lparr>p_tf := (p_tf x)\<lparr>tf_eax := 0\<rparr>\<rparr>)) (\<lambda>_.
           bindK (forK [0..<NOFILE] (dup_file t t)) (\<lambda>_.
           bindK (dup_cwd t np) (\<lambda>_.
           bindK (upd np (\<lambda>x. x\<lparr>p_name := p_name tx\<rparr>)) (\<lambda>_.
           bindK (acquire PtableLock) (\<lambda>_.
           bindK (theproc old) (\<lambda>ox'.
           bindK (upd np (\<lambda>x. x\<lparr>p_state := p_state ox'\<rparr>)) (\<lambda>_.
           bindK (release PtableLock) (\<lambda>_.
           retK (p_pid tx))))))))))))))))))))))"

text \<open>
  \<open>fork\<close>. The branch for threads at the end is dead: the test at the beginning has returned already.
\<close>

definition fork :: "('z kernel_scheme, int) K" where
  "fork =
     bindK curK (\<lambda>cur.
     bindK (theproc cur) (\<lambda>px.
     if p_tid px \<noteq> 0 then retK (- 1)
     else
       bindK allocproc (\<lambda>r.
       case r of
         None \<Rightarrow> retK (- 1)
       | Some np \<Rightarrow>
           bindK (getK (\<lambda>s. (k_end s, k_data s))) (\<lambda>(kend, kdata).
           bindK (onmem (copyuvm kend kdata (p_pgdir px) (p_sz px))) (\<lambda>d.
           bindK (upd np (\<lambda>x. x\<lparr>p_pgdir := d\<rparr>)) (\<lambda>_.
           if d = 0 then
             bindK (theproc np) (\<lambda>nx.
             bindK (onmem (kfree kend (p_kstack nx))) (\<lambda>_.
             bindK (upd np (\<lambda>x. x\<lparr>p_kstack := 0, p_state := UNUSED\<rparr>)) (\<lambda>_.
             retK (- 1))))
           else
             bindK (upd np (\<lambda>x. x\<lparr>p_sz := p_sz px, p_parent := Some cur, p_tf := p_tf px\<rparr>)) (\<lambda>_.
             bindK (allocate_new_pgdir_idx np) (\<lambda>_.
             bindK (upd np (\<lambda>x. x\<lparr>p_tf := (p_tf x)\<lparr>tf_eax := 0\<rparr>\<rparr>)) (\<lambda>_.
             bindK (forK [0..<NOFILE] (dup_file cur np)) (\<lambda>_.
             bindK (dup_cwd cur np) (\<lambda>_.
             bindK (upd np (\<lambda>x. x\<lparr>p_name := p_name px\<rparr>)) (\<lambda>_.
             bindK (theproc np) (\<lambda>nx.
             bindK (theproc cur) (\<lambda>cx.
             bindK (whenK (p_tid cx \<noteq> 0)
               (bindK (getK next_thread_id) (\<lambda>tid.
                bindK (modK (\<lambda>s. s\<lparr>next_thread_id := tid + 1\<rparr>)) (\<lambda>_.
                bindK (upd np (\<lambda>x. x\<lparr>p_tid := tid, p_parent := p_parent cx\<rparr>)) (\<lambda>_.
                bindK (fork_master_thread np) (\<lambda>q.
                whenK (q = - 1) (panicK ''creating a new master thread is failed.''))))))) (\<lambda>_.
             bindK (acquire PtableLock) (\<lambda>_.
             bindK (upd np (\<lambda>x. x\<lparr>p_state := RUNNABLE\<rparr>)) (\<lambda>_.
             bindK (release PtableLock) (\<lambda>_.
             retK (p_pid nx)))))))))))))))))))"

definition forkret :: "('z kernel_scheme, unit) K" where
  "forkret =
     bindK (release PtableLock) (\<lambda>_.
     bindK (getK forkret_first) (\<lambda>f.
     whenK f
       (bindK (modK (\<lambda>s. s\<lparr>forkret_first := False\<rparr>)) (\<lambda>_.
        bindK (iinit ROOTDEV) (\<lambda>_. initlog ROOTDEV)))))"

section \<open>Termination\<close>

text \<open>\<open>wakeup1\<close> with a channel that may be null.\<close>

definition wakeup1_ptr :: "chan option \<Rightarrow> ptable \<Rightarrow> ptable" where
  "wakeup1_ptr c s = fold (\<lambda>i s.
     if p_state (pt_proc s i) = SLEEPING \<and> p_chan (pt_proc s i) = c
     then upd_proc i (\<lambda>p. p\<lparr>p_state := RUNNABLE\<rparr>) s else s) [0..<NPROC] s"

definition close_fd :: "nat \<Rightarrow> nat \<Rightarrow> ('z kernel_scheme, unit) K" where
  "close_fd q fd =
     bindK (theproc q) (\<lambda>x.
     case p_ofile x fd of
       None \<Rightarrow> retK ()
     | Some f \<Rightarrow>
         bindK (acquire ThreadLock) (\<lambda>_.
         bindK (fileclose f) (\<lambda>_.
         bindK (release ThreadLock) (\<lambda>_.
         upd q (\<lambda>y. y\<lparr>p_ofile := (p_ofile y)(fd := None)\<rparr>)))))"

definition adopt_child :: "nat \<Rightarrow> nat \<Rightarrow> ('z kernel_scheme, unit) K" where
  "adopt_child q i =
     bindK (theproc i) (\<lambda>x.
     whenK (p_parent x = Some q)
       (bindK (getK initproc) (\<lambda>ini.
        bindK (upd i (\<lambda>y. y\<lparr>p_parent := ini\<rparr>)) (\<lambda>_.
        whenK (p_state x = ZOMBIE) (modK (mod_ptable (wakeup1_ptr (map_option ProcChan ini))))))))"

text \<open>The part that \<open>common_exit\<close> and \<open>thread_exit\<close> share after the table lock is taken.\<close>

definition exit_table :: "bool \<Rightarrow> nat \<Rightarrow> ('z kernel_scheme, unit) K" where
  "exit_table junk q =
     bindK (theproc q) (\<lambda>x.
     bindK (whenK (p_cpu_share x \<noteq> 0)
       (bindK (acquire ThreadLock) (\<lambda>_.
        bindK curK (\<lambda>cur.
        bindK (onpt (stride_queue_delete cur q junk)) (\<lambda>_.
        release ThreadLock))))) (\<lambda>_.
     bindK (modK (mod_ptable (wakeup1_ptr (map_option ProcChan (p_parent x))))) (\<lambda>_.
     bindK (forK [0..<NPROC] (adopt_child q)) (\<lambda>_.
     upd q (\<lambda>y. y\<lparr>p_state := ZOMBIE\<rparr>)))))"

definition exit_files :: "nat \<Rightarrow> ('z kernel_scheme, unit) K" where
  "exit_files q =
     bindK (forK [0..<NOFILE] (close_fd q)) (\<lambda>_.
     bindK begin_op (\<lambda>_.
     bindK (theproc q) (\<lambda>x.
     bindK (derefK (p_cwd x)) (\<lambda>w.
     bindK (iput w) (\<lambda>_.
     bindK end_op (\<lambda>_.
     upd q (\<lambda>y. y\<lparr>p_cwd := None\<rparr>)))))))"

definition common_exit :: "bool \<Rightarrow> nat \<Rightarrow> ('z kernel_scheme, unit) K" where
  "common_exit junk q =
     bindK (exit_files q) (\<lambda>_.
     bindK (acquire PtableLock) (\<lambda>_.
     exit_table junk q))"

definition clear_proc :: "nat \<Rightarrow> ('z kernel_scheme, int) K" where
  "clear_proc p =
     bindK (theproc p) (\<lambda>x.
     bindK (getK k_end) (\<lambda>kend.
     bindK (onmem (kfree kend (p_kstack x))) (\<lambda>_.
     bindK (upd p (\<lambda>y. y\<lparr>p_kstack := 0\<rparr>)) (\<lambda>_.
     bindK (check_pgdir_counter_and_call_freevm p) (\<lambda>_.
     bindK (upd p (\<lambda>y. y\<lparr>p_pid := 0, p_parent := None, p_name := [], p_killed := False, p_tick_used := 0,
              p_time_quantum_used := 0, p_level_of_MLFQ := 0, p_cpu_share := 0, p_stride := 0, p_stride_count := 0,
              p_tid := 0, p_pgdir_ref_idx := - 1, p_thread_return := 0, p_num_of_threads := 0,
              p_proc_forked_in_thread := None, p_original_cpu_share := 0, p_state := UNUSED\<rparr>)) (\<lambda>_.
     retK (p_pid x)))))))"

text \<open>\<open>sleep(chan, &ptable.lock)\<close> for a channel that may be null.\<close>

definition sleep_ptable :: "chan option \<Rightarrow> ('z kernel_scheme, unit) K" where
  "sleep_ptable c =
     bindK (getK the_proc) (\<lambda>cp.
     case cp of
       None \<Rightarrow> panicK ''sleep''
     | Some p \<Rightarrow> bindK (upd p (\<lambda>x. x\<lparr>p_chan := c, p_state := SLEEPING\<rparr>)) (\<lambda>_. sched))"

text \<open>
  The common shape of the waiting loops, entered with the table lock held: reap the first child that
  is a zombie; without children, or when killed, fail; otherwise sleep.
\<close>

definition wait_normal_loop :: "('z kernel_scheme, int) K" where
  "wait_normal_loop =
     bindK curK (\<lambda>cur.
     bindK (getK (\<lambda>s p. p_parent (pt_proc (kptable s) p) = Some cur \<and> p_tid (pt_proc (kptable s) p) = 0)) (\<lambda>kid.
     bindK (getK (\<lambda>s. List.find (\<lambda>p. kid p \<and> p_state (pt_proc (kptable s) p) = ZOMBIE) [0..<NPROC])) (\<lambda>r.
     case r of
       Some p \<Rightarrow> bindK (clear_proc p) (\<lambda>pid. bindK (release PtableLock) (\<lambda>_. retK pid))
     | None \<Rightarrow>
         bindK (theproc cur) (\<lambda>x.
         if \<not> (\<exists>p\<in>set [0..<NPROC]. kid p) \<or> p_killed x then bindK (release PtableLock) (\<lambda>_. retK (- 1))
         else bindK (sleep_ptable (Some (ProcChan cur))) (\<lambda>_. stopK Swtch)))))"

definition wait_normal :: "('z kernel_scheme, int) K" where
  "wait_normal = bindK (acquire PtableLock) (\<lambda>_. wait_normal_loop)"

definition wait_thread_loop :: "('z kernel_scheme, int) K" where
  "wait_thread_loop =
     bindK curK (\<lambda>cur.
     bindK (getK (\<lambda>s p. p_parent (pt_proc (kptable s) p) = p_proc_forked_in_thread (pt_proc (kptable s) cur))) (\<lambda>kid.
     bindK (getK (\<lambda>s. List.find (\<lambda>p. kid p \<and> p_state (pt_proc (kptable s) p) = ZOMBIE) [0..<NPROC])) (\<lambda>r.
     case r of
       Some p \<Rightarrow> bindK (clear_proc p) (\<lambda>pid. bindK (release PtableLock) (\<lambda>_. retK pid))
     | None \<Rightarrow>
         bindK (theproc cur) (\<lambda>x.
         if \<not> (\<exists>p\<in>set [0..<NPROC]. kid p) \<or> p_killed x then bindK (release PtableLock) (\<lambda>_. retK (- 1))
         else bindK (sleep_ptable (map_option ProcChan (p_proc_forked_in_thread x))) (\<lambda>_. stopK Swtch)))))"

definition wait_thread :: "('z kernel_scheme, int) K" where
  "wait_thread = bindK (acquire PtableLock) (\<lambda>_. wait_thread_loop)"

definition wait :: "('z kernel_scheme, int) K" where
  "wait =
     bindK curK (\<lambda>cur.
     bindK (theproc cur) (\<lambda>x.
     if p_tid x = 0 then wait_normal else wait_thread))"

section \<open>Threads\<close>

definition remove_thread_stack :: "nat option \<Rightarrow> ('z kernel_scheme, unit) K" where
  "remove_thread_stack r =
     (case r of
        None \<Rightarrow> panicK (''p should not be a zero.'' @ [CHR 0x0A])
      | Some p \<Rightarrow>
          bindK (theproc p) (\<lambda>x.
          if p_pgdir_ref_idx x < 0 \<or> p_pgdir_ref_idx x \<ge> int NPROC then stopK OutOfBounds
          else
            bindK (getK (\<lambda>s. pgdir_ref s (nat (p_pgdir_ref_idx x)))) (\<lambda>c.
            bindK (whenK (c > 1)
              (bindK (getK k_end) (\<lambda>kend.
               bindK (onmem (deallocuvm kend (p_pgdir x) (p_sz x) (p_sz x - 2 * PGSIZE))) (\<lambda>newsz.
               bindK (derefK (p_parent x)) (\<lambda>q.
               upd q (\<lambda>y. y\<lparr>p_sz := (if newsz < p_sz y then newsz else p_sz y)\<rparr>)))))) (\<lambda>_.
            bindK (acquire ThreadLock) (\<lambda>_.
            bindK (derefK (p_parent x)) (\<lambda>q.
            bindK (upd q (\<lambda>y. y\<lparr>p_num_of_threads := p_num_of_threads y - 1\<rparr>)) (\<lambda>_.
            release ThreadLock)))))))"

definition thread_join_loop :: "int \<Rightarrow> u32 \<Rightarrow> ('z kernel_scheme, int) K" where
  "thread_join_loop thread retval =
     bindK curK (\<lambda>cur.
     bindK (getK (\<lambda>s p. p_parent (pt_proc (kptable s) p) = Some cur \<and> p_tid (pt_proc (kptable s) p) = thread)) (\<lambda>kid.
     bindK (getK (\<lambda>s. List.find (\<lambda>p. kid p \<and> p_state (pt_proc (kptable s) p) = ZOMBIE) [0..<NPROC])) (\<lambda>r.
     case r of
       Some p \<Rightarrow>
         bindK (theproc p) (\<lambda>x.
         bindK (user_store32 retval (p_thread_return x)) (\<lambda>_.
         bindK (remove_thread_stack (Some p)) (\<lambda>_.
         bindK (clear_proc p) (\<lambda>_.
         bindK (release PtableLock) (\<lambda>_. retK 0)))))
     | None \<Rightarrow>
         bindK (theproc cur) (\<lambda>x.
         if \<not> (\<exists>p\<in>set [0..<NPROC]. kid p) \<or> p_killed x then bindK (release PtableLock) (\<lambda>_. retK (- 1))
         else bindK (sleep_ptable (Some (ProcChan cur))) (\<lambda>_. stopK Swtch)))))"

definition thread_join :: "int \<Rightarrow> u32 \<Rightarrow> ('z kernel_scheme, int) K" where
  "thread_join thread retval = bindK (acquire PtableLock) (\<lambda>_. thread_join_loop thread retval)"

definition thread_exit :: "bool \<Rightarrow> u32 \<Rightarrow> ('z kernel_scheme, unit) K" where
  "thread_exit junk retval =
     bindK curK (\<lambda>cur.
     bindK (getK initproc) (\<lambda>ini.
     if ini = Some cur then panicK ''init exiting''
     else
       bindK (exit_files cur) (\<lambda>_.
       bindK (acquire PtableLock) (\<lambda>_.
       bindK (upd cur (\<lambda>x. x\<lparr>p_thread_return := retval\<rparr>)) (\<lambda>_.
       bindK (exit_table junk cur) (\<lambda>_.
       bindK sched (\<lambda>_. panicK ''zombie exit'')))))))"

text \<open>One round of the loops of \<open>exit\<close> over the other threads of a process.\<close>

definition exit_join_thread :: "bool \<Rightarrow> nat \<Rightarrow> nat \<Rightarrow> ('z kernel_scheme, unit) K" where
  "exit_join_thread junk cur p =
     bindK (theproc cur) (\<lambda>cx.
     bindK (theproc p) (\<lambda>x.
     whenK (p_pid x = p_pid cx \<and> p_tid x \<noteq> 0)
       (bindK (common_exit junk p) (\<lambda>_.
        bindK (release PtableLock) (\<lambda>_.
        bindK (thread_join (p_tid x) 0) (\<lambda>_. retK ()))))))"

definition exit_remove_thread :: "bool \<Rightarrow> nat \<Rightarrow> nat \<Rightarrow> ('z kernel_scheme, unit) K" where
  "exit_remove_thread junk cur p =
     bindK (theproc cur) (\<lambda>cx.
     bindK (theproc p) (\<lambda>x.
     whenK (p_pid x = p_pid cx \<and> p_tid x \<noteq> 0 \<and> p \<noteq> cur)
       (bindK (acquire PtableLock) (\<lambda>_.
        bindK (remove_thread_stack (Some p)) (\<lambda>_.
        bindK (release PtableLock) (\<lambda>_.
        bindK (common_exit junk p) (\<lambda>_.
        bindK (clear_proc p) (\<lambda>_.
        release PtableLock))))))))"

definition exit :: "bool \<Rightarrow> ('z kernel_scheme, unit) K" where
  "exit junk =
     bindK curK (\<lambda>cur.
     bindK (getK initproc) (\<lambda>ini.
     if ini = Some cur then panicK ''init exiting''
     else
       bindK (theproc cur) (\<lambda>x.
       if p_tid x = 0 \<and> p_num_of_threads x = 0 then
         bindK (common_exit junk cur) (\<lambda>_. bindK sched (\<lambda>_. panicK ''zombie exit''))
       else if p_tid x = 0 \<and> p_num_of_threads x \<noteq> 0 then
         bindK (forK [0..<NPROC] (exit_join_thread junk cur)) (\<lambda>_.
         bindK (common_exit junk cur) (\<lambda>_. bindK sched (\<lambda>_. panicK ''zombie exit'')))
       else if p_tid x \<noteq> 0 \<and> p_num_of_threads x = 0 then
         bindK (forK [0..<NPROC] (exit_remove_thread junk cur)) (\<lambda>_.
         bindK (derefK (p_parent x)) (\<lambda>master.
         bindK (common_exit junk master) (\<lambda>_.
         bindK (release PtableLock) (\<lambda>_.
         bindK (acquire PtableLock) (\<lambda>_.
         bindK (remove_thread_stack (Some cur)) (\<lambda>_.
         bindK (release PtableLock) (\<lambda>_.
         bindK (common_exit junk cur) (\<lambda>_.
         bindK (upd cur (\<lambda>y. y\<lparr>p_state := UNUSED\<rparr>)) (\<lambda>_.
         bindK sched (\<lambda>_. panicK ''zombie exit''))))))))))
       else panicK ''panic in exit(). tid != 0 && num_of_threads != 0. Wrong case.'')))"

text \<open>
  The last part of \<open>thread_create\<close>: a process with a CPU share divides it anew among its threads.
\<close>

definition thread_create_share :: "nat \<Rightarrow> nat \<Rightarrow> ('z kernel_scheme, unit) K" where
  "thread_create_share cur np =
     bindK (theproc cur) (\<lambda>x.
     whenK (p_cpu_share x \<noteq> 0)
       (if p_num_of_threads x + 1 = 0 then stopK DivZero
        else
          let share = cdiv (p_original_cpu_share x) (p_num_of_threads x + 1) in
          bindK (onpt (set_cpu_share_in_thread_create share np cur)) (\<lambda>r.
          if r \<noteq> 0 then panicK (''(thread_create) making a new thread in stride is failed.'' @ [CHR 0x0A] @ '' '')
          else
            forK [0..<NPROC] (\<lambda>p.
              bindK (theproc p) (\<lambda>y.
              bindK (theproc cur) (\<lambda>cx.
              whenK (p_pid y = p_pid cx)
                (upd p (\<lambda>z. z\<lparr>p_cpu_share := share, p_stride := of_int (cdiv NSTRIDE share)\<rparr>))))))))"

definition thread_create :: "u32 \<Rightarrow> u32 \<Rightarrow> u32 \<Rightarrow> ('z kernel_scheme, int) K" where
  "thread_create thread start_routine arg =
     bindK curK (\<lambda>cur.
     bindK allocproc (\<lambda>r.
     case r of
       None \<Rightarrow> retK (- 1)
     | Some np \<Rightarrow>
         bindK (theproc cur) (\<lambda>px.
         bindK (getK next_thread_id) (\<lambda>tid.
         bindK (modK (\<lambda>s. s\<lparr>next_thread_id := tid + 1\<rparr>)) (\<lambda>_.
         bindK (upd np (\<lambda>x. x\<lparr>p_pid := p_pid px, p_tid := tid\<rparr>)) (\<lambda>_.
         bindK (user_store32 thread (of_int tid)) (\<lambda>_.
         bindK (upd np (\<lambda>x. x\<lparr>p_pgdir := p_pgdir px, p_sz := p_sz px, p_parent := Some cur, p_tf := p_tf px,
                  p_pgdir_ref_idx := p_pgdir_ref_idx px\<rparr>)) (\<lambda>_.
         if p_pgdir_ref_idx px < 0 \<or> p_pgdir_ref_idx px \<ge> int NPROC then stopK OutOfBounds
         else
           let k = nat (p_pgdir_ref_idx px) in
           bindK (acquire ThreadLock) (\<lambda>_.
           bindK (modK (\<lambda>s. s\<lparr>pgdir_ref := (pgdir_ref s)(k := pgdir_ref s k + 1)\<rparr>)) (\<lambda>_.
           bindK (release ThreadLock) (\<lambda>_.
           bindK (upd np (\<lambda>x. x\<lparr>p_tf := (p_tf x)\<lparr>tf_eax := 0\<rparr>\<rparr>)) (\<lambda>_.
           bindK (forK [0..<NOFILE] (dup_file cur np)) (\<lambda>_.
           bindK (dup_cwd cur np) (\<lambda>_.
           bindK (upd np (\<lambda>x. x\<lparr>p_name := p_name px\<rparr>)) (\<lambda>_.
           bindK (acquire ThreadLock) (\<lambda>_.
           bindK (theproc cur) (\<lambda>cx.
           bindK (getK k_end) (\<lambda>kend.
           bindK (onmem (allocuvm kend (p_pgdir cx) (PGROUNDUP (p_sz cx)) (PGROUNDUP (p_sz cx) + 2 * PGSIZE))) (\<lambda>sz.
           bindK (upd np (\<lambda>x. x\<lparr>p_sz := sz\<rparr>)) (\<lambda>_.
           if sz = 0 then retK (- 1)
           else
             bindK (onmem (clearpteu (p_pgdir cx) (sz - 2 * PGSIZE))) (\<lambda>_.
             bindK (upd cur (\<lambda>x. x\<lparr>p_sz := sz + PGSIZE * (1024 - 2)\<rparr>)) (\<lambda>_.
             bindK (if p_tid cx = 0 then upd cur (\<lambda>x. x\<lparr>p_num_of_threads := p_num_of_threads x + 1\<rparr>)
                    else bindK (derefK (p_parent cx)) (\<lambda>q.
                         upd q (\<lambda>x. x\<lparr>p_num_of_threads := p_num_of_threads x + 1\<rparr>))) (\<lambda>_.
             bindK (release ThreadLock) (\<lambda>_.
             bindK (upd np (\<lambda>x. x\<lparr>p_tf := (p_tf x)\<lparr>tf_eip := start_routine, tf_esp := sz - 8\<rparr>\<rparr>)) (\<lambda>_.
             bindK (user_store32 (sz - 8) 0xDEADDEAD) (\<lambda>_.
             bindK (user_store32 (sz - 8 + 4) arg) (\<lambda>_.
             bindK (acquire PtableLock) (\<lambda>_.
             bindK (upd np (\<lambda>x. x\<lparr>p_state := RUNNABLE\<rparr>)) (\<lambda>_.
             bindK (release PtableLock) (\<lambda>_.
             bindK (thread_create_share cur np) (\<lambda>_.
             retK 0)))))))))))))))))))))))))))))))"

end
