(* ===== verification/Exec.thy ===== *)
theory Exec
  imports Proc
begin

text \<open>
  Loading a program (\<open>exec.c\<close>, and \<open>loaduvm\<close> of \<open>vm.c\<close>, which reads the file). The argument strings
  lie in the old address space and the words below them in an array on the kernel stack, so
  \<open>copyout_bytes\<close> is \<open>copyout\<close> with the source given by its bytes. \<open>devs\<close> is the table \<open>devsw\<close>, which
  \<open>readi\<close> consults for device files.
\<close>

unbundle bit_operations_syntax

section \<open>Reading and writing user memory\<close>

text \<open>A read of the kernel at a user address needs the page present only.\<close>

definition translate_read :: "mem \<Rightarrow> u32 \<Rightarrow> u32 \<Rightarrow> u32 option" where
  "translate_read m pgdir va =
     (let pde = load32 m (pgdir + 4 * PDX va) in
      if pde AND PTE_P = 0 then None
      else
        let pte = load32 m (P2V (PTE_ADDR pde) + 4 * PTX va) in
        if pte AND PTE_P = 0 then None else Some (P2V (PTE_ADDR pte) + (va AND 0xFFF)))"

definition user_load8 :: "u32 \<Rightarrow> ('z kernel_scheme, u8) K" where
  "user_load8 va =
     bindK (getK (\<lambda>s. translate_read (km_mem (kmemory s)) (P2V (cr3 s (me s))) va)) (\<lambda>r.
     case r of
       None \<Rightarrow> panicK ''trap''
     | Some a \<Rightarrow> getK (\<lambda>s. km_mem (kmemory s) a))"

primrec user_loads :: "nat \<Rightarrow> u32 \<Rightarrow> ('z kernel_scheme, u8 list) K" where
  "user_loads 0 va = retK []"
| "user_loads (Suc n) va =
     bindK (user_load8 va) (\<lambda>b. bindK (user_loads n (va + 1)) (\<lambda>bs. retK (b # bs)))"

definition user_load32 :: "u32 \<Rightarrow> ('z kernel_scheme, u32) K" where
  "user_load32 va = bindK (user_loads 4 va) (\<lambda>bs. retK (get32 (\<lambda>i. bs ! i) 0))"

primrec user_stores :: "u32 \<Rightarrow> u8 list \<Rightarrow> ('z kernel_scheme, unit) K" where
  "user_stores va [] = retK ()"
| "user_stores va (b # bs) = bindK (user_store8 va b) (\<lambda>_. user_stores (va + 1) bs)"

primrec store_bytes :: "u32 \<Rightarrow> u8 list \<Rightarrow> mem \<Rightarrow> mem" where
  "store_bytes a [] m = m"
| "store_bytes a (b # bs) m = store_bytes (a + 1) bs (m(a := b))"

definition word_bytes :: "u32 \<Rightarrow> u8 list" where
  "word_bytes w = [ucast w, ucast (drop_bit 8 w), ucast (drop_bit 16 w), ucast (drop_bit 24 w)]"

function copyout_bytes :: "u32 \<Rightarrow> u32 \<Rightarrow> u8 list \<Rightarrow> (kmem, int) K" where
  "copyout_bytes pgdir va bs s =
     (if bs \<noteq> [] then
        let va0 = PGROUNDDOWN va; n = unat (copyout_count va (of_nat (length bs))) in
        bindK (uva2ka pgdir va0) (\<lambda>pa0.
        if pa0 = 0 then retK (- 1)
        else if n = 0 then stopK Spin
        else
          bindK (upd_mem (store_bytes (pa0 + (va - va0)) (take n bs))) (\<lambda>_.
          copyout_bytes pgdir (va0 + PGSIZE) (drop n bs))) s
      else (Inr 0, s))"
  by pat_completeness auto
termination
  by (relation "measure (\<lambda>(_, _, bs, _). length bs)") auto

declare copyout_bytes.simps [simp del]

section \<open>The program file\<close>

record elfhdr =
  e_magic :: u32
  e_type :: u16
  e_machine :: u16
  e_version :: u32
  e_entry :: u32
  e_phoff :: u32
  e_shoff :: u32
  e_flags :: u32
  e_ehsize :: u16
  e_phentsize :: u16
  e_phnum :: u16
  e_shentsize :: u16
  e_shnum :: u16
  e_shstrndx :: u16

record proghdr =
  ph_type :: u32
  ph_off :: u32
  ph_vaddr :: u32
  ph_paddr :: u32
  ph_filesz :: u32
  ph_memsz :: u32
  ph_flags :: u32
  ph_align :: u32

definition ELF_MAGIC :: u32 where "ELF_MAGIC = 0x464C457F"
definition ELF_PROG_LOAD :: u32 where "ELF_PROG_LOAD = 1"

text \<open>The structs at their offsets in the file, 52 and 32 bytes.\<close>

definition elfhdr_of :: "u8 list \<Rightarrow> elfhdr" where
  "elfhdr_of bs = (let d = (\<lambda>i. bs ! i) in
     \<lparr>e_magic = get32 d 0, e_type = get16 d 16, e_machine = get16 d 18, e_version = get32 d 20,
      e_entry = get32 d 24, e_phoff = get32 d 28, e_shoff = get32 d 32, e_flags = get32 d 36,
      e_ehsize = get16 d 40, e_phentsize = get16 d 42, e_phnum = get16 d 44, e_shentsize = get16 d 46,
      e_shnum = get16 d 48, e_shstrndx = get16 d 50\<rparr>)"

definition proghdr_of :: "u8 list \<Rightarrow> proghdr" where
  "proghdr_of bs = (let d = (\<lambda>i. bs ! i) in
     \<lparr>ph_type = get32 d 0, ph_off = get32 d 4, ph_vaddr = get32 d 8, ph_paddr = get32 d 12,
      ph_filesz = get32 d 16, ph_memsz = get32 d 20, ph_flags = get32 d 24, ph_align = get32 d 28\<rparr>)"

section \<open>Loading\<close>

function loaduvm_loop ::
  "'z kernel_scheme readers \<Rightarrow> u32 \<Rightarrow> u32 \<Rightarrow> nat \<Rightarrow> u32 \<Rightarrow> u32 \<Rightarrow> u32 \<Rightarrow> ('z kernel_scheme, int) K" where
  "loaduvm_loop devs pgdir addr ip off sz i s =
     (if i < sz then
        bindK (onmem (walkpgdir pgdir (addr + i) False)) (\<lambda>pte.
        if pte = 0 then panicK ''loaduvm: address should exist''
        else
          bindK (onmem (rd32 pte)) (\<lambda>e.
          let n = (if sz - i < PGSIZE then sz - i else PGSIZE) in
          bindK (readi devs ip (off + i) n) (\<lambda>(r, bs).
          bindK (onmem (upd_mem (store_bytes (P2V (PTE_ADDR e)) bs))) (\<lambda>_ t.
          if of_int r \<noteq> n then (Inr (- 1), t)
          else if i < i + PGSIZE then loaduvm_loop devs pgdir addr ip off sz (i + PGSIZE) t
          else (Inl Spin, t))))) s
      else (Inr 0, s))"
  by pat_completeness auto
termination
  by (relation "measure (\<lambda>(_, _, _, _, _, _, i, _). 2 ^ 32 - unat i)")
    (auto simp: word_less_nat_alt intro!: diff_less_mono2 unsigned_less [where ?'a = nat, where 'b = 32, simplified])

declare loaduvm_loop.simps [simp del]

definition loaduvm ::
  "'z kernel_scheme readers \<Rightarrow> u32 \<Rightarrow> u32 \<Rightarrow> nat \<Rightarrow> u32 \<Rightarrow> u32 \<Rightarrow> ('z kernel_scheme, int) K" where
  "loaduvm devs pgdir addr ip off sz =
     (if addr mod PGSIZE \<noteq> 0 then panicK ''loaduvm: addr must be page aligned''
      else loaduvm_loop devs pgdir addr ip off sz 0)"

text \<open>The loop over the program headers, \<open>k\<close> of them left; \<open>None\<close> is the jump to \<open>bad\<close>.\<close>

fun load_segments :: "'z kernel_scheme readers \<Rightarrow> nat \<Rightarrow> u32 \<Rightarrow> nat \<Rightarrow> u32 \<Rightarrow> u32 \<Rightarrow> ('z kernel_scheme, u32 option) K" where
  "load_segments devs ip pgdir 0 off sz = retK (Some sz)"
| "load_segments devs ip pgdir (Suc k) off sz =
     bindK (readi devs ip off 32) (\<lambda>(r, bs).
     if r \<noteq> 32 then retK None
     else
       let ph = proghdr_of bs in
       if ph_type ph \<noteq> ELF_PROG_LOAD then load_segments devs ip pgdir k (off + 32) sz
       else if ph_memsz ph < ph_filesz ph then retK None
       else if ph_vaddr ph + ph_memsz ph < ph_vaddr ph then retK None
       else
         bindK (getK k_end) (\<lambda>kend.
         bindK (onmem (allocuvm kend pgdir sz (ph_vaddr ph + ph_memsz ph))) (\<lambda>sz'.
         if sz' = 0 then retK None
         else if ph_vaddr ph mod PGSIZE \<noteq> 0 then retK None
         else
           bindK (loaduvm devs pgdir (ph_vaddr ph) ip (ph_off ph) (ph_filesz ph)) (\<lambda>l.
           if l < 0 then retK None
           else load_segments devs ip pgdir k (off + 32) sz'))))"

text \<open>
  The loop over the arguments: the strings go on the stack from the top down, each aligned to a word;
  the result is the stack pointer and the addresses of the strings.
\<close>

fun push_args :: "u32 \<Rightarrow> nat \<Rightarrow> u8 list list \<Rightarrow> u32 \<Rightarrow> u32 list \<Rightarrow> (kmem, (u32 \<times> u32 list) option) K" where
  "push_args pgdir argc [] sp ustack = retK (Some (sp, ustack))"
| "push_args pgdir argc (a # as) sp ustack =
     (if argc \<ge> MAXARG then retK None
      else
        let sp' = (sp - (of_nat (length a) + 1)) AND NOT 3 in
        bindK (copyout_bytes pgdir sp' (a @ [0])) (\<lambda>r.
        if r < 0 then retK None else push_args pgdir (argc + 1) as sp' (ustack @ [sp'])))"

definition exec_bad :: "u32 \<Rightarrow> nat option \<Rightarrow> ('z kernel_scheme, int) K" where
  "exec_bad pgdir ip =
     bindK (getK k_end) (\<lambda>kend.
     bindK (whenK (pgdir \<noteq> 0) (onmem (freevm kend pgdir))) (\<lambda>_.
     bindK (case ip of None \<Rightarrow> retK () | Some i \<Rightarrow> bindK (iunlockput i) (\<lambda>_. end_op)) (\<lambda>_.
     retK (- 1))))"

text \<open>The end of \<open>exec\<close>: the new image replaces the old one, which is freed unless a thread uses it.\<close>

definition exec_commit :: "u8 list \<Rightarrow> u32 \<Rightarrow> u32 \<Rightarrow> u32 \<Rightarrow> u32 \<Rightarrow> ('z kernel_scheme, int) K" where
  "exec_commit path pgdir sz entry sp =
     bindK curK (\<lambda>cur.
     bindK (upd cur (\<lambda>x. x\<lparr>p_name := map (\<lambda>b. char_of (unat b))
              (take 15 (rev (takeWhile (\<lambda>c. c \<noteq> slash) (rev path))))\<rparr>)) (\<lambda>_.
     bindK (theproc cur) (\<lambda>old.
     bindK (upd cur (\<lambda>x. x\<lparr>p_pgdir := pgdir, p_sz := sz, p_tf := (p_tf x)\<lparr>tf_eip := entry, tf_esp := sp\<rparr>\<rparr>)) (\<lambda>_.
     bindK (switchuvm (Some cur)) (\<lambda>_.
     bindK (getK k_end) (\<lambda>kend.
     bindK
       (if p_pgdir_ref_idx old = - 1 then onmem (freevm kend (p_pgdir old))
        else if p_pgdir_ref_idx old < 0 \<or> p_pgdir_ref_idx old \<ge> int NPROC then stopK OutOfBounds
        else
          let k = nat (p_pgdir_ref_idx old) in
          bindK (getK (\<lambda>s. pgdir_ref s k)) (\<lambda>c.
          whenK (c \<le> 1)
            (bindK (acquire ThreadLock) (\<lambda>_.
             bindK (modK (\<lambda>s. s\<lparr>pgdir_ref := (pgdir_ref s)(k := 0)\<rparr>)) (\<lambda>_.
             bindK (release ThreadLock) (\<lambda>_.
             onmem (freevm kend (p_pgdir old)))))))) (\<lambda>_.
     bindK (allocate_new_pgdir_idx cur) (\<lambda>_.
     retK 0))))))))"

text \<open>From the stack on: the inode is released already.\<close>

definition exec_stack :: "u8 list \<Rightarrow> u8 list list \<Rightarrow> u32 \<Rightarrow> u32 \<Rightarrow> u32 \<Rightarrow> ('z kernel_scheme, int) K" where
  "exec_stack path argv pgdir entry sz0 =
     bindK (getK k_end) (\<lambda>kend.
     bindK (onmem (allocuvm kend pgdir (PGROUNDUP sz0) (PGROUNDUP sz0 + 2 * PGSIZE))) (\<lambda>sz.
     if sz = 0 then exec_bad pgdir None
     else
       bindK (onmem (clearpteu pgdir (sz - 2 * PGSIZE))) (\<lambda>_.
       bindK (onmem (push_args pgdir 0 argv sz [])) (\<lambda>r.
       case r of
         None \<Rightarrow> exec_bad pgdir None
       | Some (sp, addrs) \<Rightarrow>
           let argc = of_nat (length addrs);
               ustack = [0xFFFFFFFF, argc, sp - (argc + 1) * 4] @ addrs @ [0];
               sp' = sp - (3 + argc + 1) * 4
           in
           bindK (onmem (copyout_bytes pgdir sp' (concat (map word_bytes ustack)))) (\<lambda>c.
           if c < 0 then exec_bad pgdir None
           else exec_commit path pgdir sz entry sp')))))"

definition exec :: "'z kernel_scheme readers \<Rightarrow> u8 list \<Rightarrow> u8 list list \<Rightarrow> ('z kernel_scheme, int) K" where
  "exec devs path argv =
     bindK begin_op (\<lambda>_.
     bindK (namei path) (\<lambda>r.
     case r of
       None \<Rightarrow> bindK end_op (\<lambda>_. retK (- 1))
     | Some ip \<Rightarrow>
         bindK (ilock (Some ip)) (\<lambda>_.
         bindK (readi devs ip 0 52) (\<lambda>(n, bs).
         if n \<noteq> 52 \<or> e_magic (elfhdr_of bs) \<noteq> ELF_MAGIC then exec_bad 0 (Some ip)
         else
           let elf = elfhdr_of bs in
           bindK (getK k_data) (\<lambda>kdata.
           bindK (onmem (setupkvm kdata)) (\<lambda>pgdir.
           if pgdir = 0 then exec_bad 0 (Some ip)
           else
             bindK (load_segments devs ip pgdir (unat (e_phnum elf)) (e_phoff elf) 0) (\<lambda>l.
             case l of
               None \<Rightarrow> exec_bad pgdir (Some ip)
             | Some sz \<Rightarrow>
                 bindK (iunlockput ip) (\<lambda>_.
                 bindK end_op (\<lambda>_.
                 exec_stack path argv pgdir (e_entry elf) sz)))))))))"

end
