(* ===== verification/Stride_Heap.thy ===== *)
theory Stride_Heap
  imports Stride
begin

text \<open>
  Correctness of the stride heap: the well-formedness of the array \<open>sq_wf\<close>, the heap order
  \<open>sq_heap\<close>, and the lemmas that moving a process down and inserting one keep them. All
  orders are on the pass values, the \<open>stride_count\<close> fields read as signed numbers.
\<close>

section \<open>Invariants of the heap\<close>

definition sq_list :: "ptable \<Rightarrow> nat option list" where
  "sq_list s = map (stride_queue s) [1..<Suc (stride_queue_size s)]"

definition sq_wf :: "ptable \<Rightarrow> bool" where
  "sq_wf s \<longleftrightarrow>
     stride_queue_size s \<le> NPROC
     \<and> (\<forall>i<NSTRIDE_QUEUE. (stride_queue s i \<noteq> None) = (1 \<le> i \<and> i \<le> stride_queue_size s))
     \<and> (\<forall>i<NSTRIDE_QUEUE. case stride_queue s i of None \<Rightarrow> True | Some p \<Rightarrow> p < NPROC)
     \<and> distinct (sq_list s)"

text \<open>The pass value stored at an index, for an array \<open>v\<close> of pointers into the table \<open>P\<close>.\<close>

definition vkey :: "(nat \<Rightarrow> proc) \<Rightarrow> (nat \<Rightarrow> nat option) \<Rightarrow> nat \<Rightarrow> int" where
  "vkey P v i = (case v i of None \<Rightarrow> 0 | Some p \<Rightarrow> sint (p_stride_count (P p)))"

definition heap_upto :: "(nat \<Rightarrow> proc) \<Rightarrow> (nat \<Rightarrow> nat option) \<Rightarrow> nat \<Rightarrow> bool" where
  "heap_upto P v n \<longleftrightarrow> (\<forall>j\<le>n. 2 \<le> j \<longrightarrow> vkey P v (j div 2) \<le> vkey P v j)"

definition sq_heap :: "ptable \<Rightarrow> bool" where
  "sq_heap s \<longleftrightarrow> heap_upto (pt_proc s) (stride_queue s) (stride_queue_size s)"

text \<open>A heap but for the edges below \<open>i\<close>, whose children are at least the parent of \<open>i\<close>.\<close>

definition heap_except :: "(nat \<Rightarrow> proc) \<Rightarrow> (nat \<Rightarrow> nat option) \<Rightarrow> nat \<Rightarrow> nat \<Rightarrow> bool" where
  "heap_except P v n i \<longleftrightarrow>
     (\<forall>j\<le>n. 2 \<le> j \<longrightarrow> j div 2 \<noteq> i \<longrightarrow> vkey P v (j div 2) \<le> vkey P v j)
     \<and> (\<forall>j\<le>n. 2 \<le> j \<longrightarrow> j div 2 = i \<longrightarrow> 2 \<le> i \<longrightarrow> vkey P v (i div 2) \<le> vkey P v j)"

section \<open>Moving a process down\<close>

lemma div2_eq: "(j::nat) div 2 = i \<longleftrightarrow> j = i * 2 \<or> j = i * 2 + 1"
  by presburger

lemma heap_upto_swap:
  assumes ex: "heap_except P v n i" and i: "1 \<le> i" and c: "c div 2 = i" "c \<le> n"
    and less: "vkey P v c < vkey P v i"
    and sib: "\<forall>j\<le>n. j div 2 = i \<longrightarrow> vkey P v c \<le> vkey P v j"
  shows "heap_except P (v(i := v c, c := v i)) n c"
proof -
  let ?w = "v(i := v c, c := v i)"
  have ci: "c \<noteq> i" "2 \<le> c" using i c by (auto simp: div2_eq)
  have kw: "vkey P ?w j = (if j = c then vkey P v i else if j = i then vkey P v c else vkey P v j)" for j
    by (simp add: vkey_def)
  show ?thesis unfolding heap_except_def
  proof (intro conjI allI impI)
    fix j assume j: "j \<le> n" "2 \<le> j" "j div 2 \<noteq> c"
    show "vkey P ?w (j div 2) \<le> vkey P ?w j"
    proof (cases "j = i")
      case True
      then have "vkey P v (i div 2) \<le> vkey P v c" using ex c ci j by (auto simp: heap_except_def)
      moreover have "i div 2 \<noteq> i" using i by (auto simp: div2_eq)
      ultimately show ?thesis using True ci j(3) by (simp add: kw)
    next
      case False
      show ?thesis
      proof (cases "j div 2 = i")
        case True
        then show ?thesis using False sib less j by (auto simp: kw)
      next
        case nb: False
        then have "j \<noteq> c" using c by auto
        then show ?thesis using nb False j ex by (auto simp: kw heap_except_def)
      qed
    qed
  next
    fix j assume j: "j \<le> n" "2 \<le> j" "j div 2 = c"
    then have "vkey P v c \<le> vkey P v j" using ex ci by (auto simp: heap_except_def)
    moreover have "j \<noteq> c" "j \<noteq> i" using j c ci by (auto simp: div2_eq)
    ultimately show "vkey P ?w (c div 2) \<le> vkey P ?w j" using c ci by (simp add: kw)
  qed
qed

lemma map_upt_update:
  assumes "1 \<le> i" "i \<le> n"
  shows "map (v(i := a)) [1..<Suc n] = (map v [1..<Suc n])[i - 1 := a]"
  using assms by (intro nth_equalityI) (auto simp: nth_list_update simp del: upt_Suc)

lemma mset_map_swap:
  assumes "1 \<le> i" "i \<le> n" "1 \<le> c" "c \<le> n"
  shows "mset (map (v(i := v c, c := v i)) [1..<Suc n]) = mset (map v [1..<Suc n])"
proof -
  let ?l = "map v [1..<Suc n]"
  have "?l ! (c - 1) = v c" "?l ! (i - 1) = v i"
    using assms by (auto simp del: upt_Suc)
  then have "map (v(i := v c, c := v i)) [1..<Suc n] = (?l[i - 1 := ?l ! (c - 1)])[c - 1 := ?l ! (i - 1)]"
    using assms by (simp only: map_upt_update)
  also have "mset \<dots> = mset ?l"
    using assms by (intro mset_swap) auto
  finally show ?thesis .
qed

text \<open>What one run of the loop establishes, for the array with the process in hand filled in.\<close>

definition down_result :: "(nat \<Rightarrow> proc) \<Rightarrow> nat \<Rightarrow> nat option \<Rightarrow> (nat \<Rightarrow> nat option) \<Rightarrow> nat \<Rightarrow> nat \<Rightarrow>
    (nat \<Rightarrow> nat option) \<Rightarrow> bool" where
  "down_result P n p v i j q \<longleftrightarrow>
     1 \<le> j \<and> j \<le> n \<and> (heap_except P v n i \<longrightarrow> heap_upto P (q(j := p)) n)
     \<and> mset (map (q(j := p)) [1..<Suc n]) = mset (map v [1..<Suc n])
     \<and> (\<forall>k. (k = 0 \<or> n < k) \<longrightarrow> q k = v k)"

text \<open>
  The loop started at \<open>i\<close> with process \<open>p\<close> in hand only permutes slots 1 to \<open>n\<close>, never
  dereferences null, and turns a heap that is broken only below \<open>i\<close> into a heap. It looks
  at children up to slot 63 only, so \<open>n\<close> must stay below \<open>NPROC\<close>.
\<close>

lemma heapify_down_loop_ok:
  assumes "p = Some pp" and "1 \<le> i" "i \<le> n" and "n = stride_queue_size s" "n < NPROC"
    and "v = (stride_queue s)(i := p)"
    and "\<forall>j. 1 \<le> j \<longrightarrow> j \<le> n \<longrightarrow> v j \<noteq> None"
    and "\<forall>j. n < j \<longrightarrow> j < NSTRIDE_QUEUE \<longrightarrow> v j = None"
  shows "\<exists>j q. heapify_down_loop p i s = (Inr j, s\<lparr>stride_queue := q\<rparr>)
           \<and> down_result (pt_proc s) n p v i j q"
  using assms
proof (induction "NPROC - i" arbitrary: i s v rule: less_induct)
  case less
  let ?P = "pt_proc s"
  note v = less.prems(6)
  have sc: "vkey ?P v j = scount s a" if "v j = Some a" for j a
    using that by (simp add: vkey_def scount_def)
  note unfold = heapify_down_loop.simps [of p i s]
  have vi: "v i = Some pp" using v less.prems(1) by simp
  have off: "stride_queue s j = v j" if "j \<noteq> i" for j using v that by simp
  have stay: ?case
    if "heapify_down_loop p i s = (Inr i, s)" "\<forall>j\<le>n. j div 2 = i \<longrightarrow> vkey ?P v i \<le> vkey ?P v j"
  proof -
    have "heap_except ?P v n i \<longrightarrow> heap_upto ?P v n"
      using that(2) by (auto simp: heap_upto_def heap_except_def)
    then have "down_result ?P n p v i i (stride_queue s)"
      using less.prems(2,3) off by (auto simp: down_result_def v [symmetric])
    then show ?thesis using that(1) by (intro exI [of _ i] exI [of _ "stride_queue s"]) simp
  qed
  show ?case
  proof (cases "i * 2 \<le> n")
    case False
    then have none: "\<forall>j\<le>n. j div 2 \<noteq> i" by (auto simp: div2_eq)
    have "v (i * 2) = None" if "i * 2 < NPROC" using False that less.prems(8) by simp
    then have "heapify_down_loop p i s = (Inr i, s)"
      using less.prems(2) off [of "i * 2"] by (auto simp: unfold)
    then show ?thesis using none by (intro stay) auto
  next
    case two: True
    have l0: "i * 2 \<noteq> i" "i * 2 + 1 \<noteq> i" using less.prems(2) by auto
    obtain l where l: "v (i * 2) = Some l" using two less.prems(2,7) by fastforce
    note ql = l [folded off [OF l0(1)]]
    have guard: "0 < i \<and> i * 2 < NPROC \<and> i \<le> stride_queue_size s"
      using less.prems two by auto
    show ?thesis
    proof (cases "i * 2 + 1 \<le> n")
      case True
      then obtain r where r: "v (i * 2 + 1) = Some r" using less.prems(7) by fastforce
      note qr = r [folded off [OF l0(2)]]
      define c where "c = (if scount s l < scount s r then i * 2 else i * 2 + 1)"
      define ch where "ch = (if scount s l < scount s r then l else r)"
      have c: "c div 2 = i" "c \<le> n" "v c = Some ch" "c \<noteq> i" "1 \<le> c" "i < c"
        using True two l r less.prems(2) by (auto simp: c_def ch_def)
      have min: "\<forall>j\<le>n. j div 2 = i \<longrightarrow> vkey ?P v c \<le> vkey ?P v j"
        using l r sc by (auto simp: div2_eq c_def)
      show ?thesis
      proof (cases "scount s ch < scount s pp")
        case False
        have eq: "heapify_down_loop p i s = (Inr i, s)"
          using guard ql qr False less.prems(1) by (subst unfold) (auto simp: ch_def Let_def)
        have "vkey ?P v i \<le> vkey ?P v c" using False c(3) sc vi by auto
        with min eq show ?thesis by (intro stay) (auto intro: order_trans)
      next
        case True
        let ?s' = "s\<lparr>stride_queue := (stride_queue s)(i := Some ch)\<rparr>"
        let ?w = "v(i := v c, c := v i)"
        have eq: "heapify_down_loop p i s = heapify_down_loop p c ?s'"
          using guard ql qr True less.prems(1) by (subst unfold) (auto simp: ch_def c_def Let_def)
        have w: "?w = (stride_queue ?s')(c := p)"
          using c v less.prems(1) by (auto simp: fun_eq_iff)
        have ex: "heap_except ?P v n i \<longrightarrow> heap_except ?P ?w n c"
          using heap_upto_swap [OF _ less.prems(2) c(1,2) _ min] True sc c(3) vi by auto
        have "\<exists>j q. heapify_down_loop p c ?s' = (Inr j, ?s'\<lparr>stride_queue := q\<rparr>)
                 \<and> down_result (pt_proc ?s') n p ?w c j q"
          by (rule less.hyps [OF _ less.prems(1) c(5,2) _ less.prems(5) w])
            (use guard c less.prems in auto)
        then show ?thesis using eq ex mset_map_swap [OF less.prems(2,3) c(5,2), of v] c less.prems(2,3)
          by (auto simp: down_result_def simp del: upt_Suc)
      qed
    next
      case False
      then have n: "n = i * 2" using two by simp
      have nr: "stride_queue s (i * 2 + 1) = None"
        using less.prems(5,8) off [OF l0(2)] n by auto
      show ?thesis
      proof (cases "scount s l < scount s pp")
        case False
        have eq: "heapify_down_loop p i s = (Inr i, s)"
          using guard ql nr False less.prems(1) by (subst unfold) auto
        then show ?thesis using False l sc vi n by (intro stay) (auto simp: div2_eq)
      next
        case True
        let ?q = "(stride_queue s)(i := Some l)"
        let ?w = "v(i := v (i * 2), i * 2 := v i)"
        have eq: "heapify_down_loop p i s = (Inr (i * 2), s\<lparr>stride_queue := ?q\<rparr>)"
          using guard ql nr True less.prems(1) by (subst unfold) auto
        have w: "?w = ?q(i * 2 := p)" using l0 l v less.prems(1) by (auto simp: fun_eq_iff)
        have "heap_except ?P ?w n (i * 2)" if "heap_except ?P v n i"
          by (rule heap_upto_swap [OF that less.prems(2)]) (use n True l vi sc in \<open>auto simp: div2_eq\<close>)
        moreover have "j div 2 \<noteq> i * 2" if "j \<le> n" for j
          using that n less.prems(2) by (auto simp: div2_eq)
        ultimately have "heap_except ?P v n i \<longrightarrow> heap_upto ?P ?w n"
          by (auto simp: heap_except_def heap_upto_def)
        then have "down_result ?P n p v i (i * 2) ?q"
          using mset_map_swap [OF less.prems(2,3) _ two, of v] less.prems(2,3) n off
          by (auto simp: down_result_def w simp del: upt_Suc)
        then show ?thesis using eq by blast
      qed
    qed
  qed
qed


subsection \<open>The whole operation\<close>

lemma sq_wf_D:
  assumes "sq_wf s"
  shows "1 \<le> i \<Longrightarrow> i \<le> stride_queue_size s \<Longrightarrow> \<exists>p<NPROC. stride_queue s i = Some p"
    and "stride_queue_size s < i \<Longrightarrow> i < NSTRIDE_QUEUE \<Longrightarrow> stride_queue s i = None"
    and "stride_queue s 0 = None"
    and "stride_queue_size s \<le> NPROC"
proof -
  from assms have n: "stride_queue_size s \<le> NPROC"
    and dom: "\<And>i. i < NSTRIDE_QUEUE \<Longrightarrow> (stride_queue s i \<noteq> None) = (1 \<le> i \<and> i \<le> stride_queue_size s)"
    and rng: "\<And>i. i < NSTRIDE_QUEUE \<Longrightarrow> case stride_queue s i of None \<Rightarrow> True | Some p \<Rightarrow> p < NPROC"
    unfolding sq_wf_def by blast+
  show "\<exists>p<NPROC. stride_queue s i = Some p" if "1 \<le> i" "i \<le> stride_queue_size s"
    using dom [of i] rng [of i] n that by (cases "stride_queue s i") auto
  show "stride_queue_size s < i \<Longrightarrow> i < NSTRIDE_QUEUE \<Longrightarrow> stride_queue s i = None"
    using dom [of i] by auto
  show "stride_queue s 0 = None" using dom [of 0] by simp
  show "stride_queue_size s \<le> NPROC" by (rule n)
qed

text \<open>
  Well-formedness depends on the slots only through the list of queued processes and
  the empty rest of the array.
\<close>

lemma sq_wf_perm:
  assumes wf: "sq_wf s" and n: "stride_queue_size t = stride_queue_size s"
    and m: "mset (sq_list t) = mset (sq_list s)"
    and rest: "\<forall>k. (k = 0 \<or> stride_queue_size s < k) \<longrightarrow> stride_queue t k = stride_queue s k"
  shows "sq_wf t"
proof -
  have mem: "\<exists>p<NPROC. stride_queue t i = Some p" if i: "1 \<le> i" "i \<le> stride_queue_size s" for i
  proof -
    have "stride_queue t i \<in> set (sq_list t)" using i n by (auto simp: sq_list_def simp del: upt_Suc)
    then have "stride_queue t i \<in> set (sq_list s)" using m by (metis set_mset_mset)
    then obtain k where "1 \<le> k" "k \<le> stride_queue_size s" "stride_queue t i = stride_queue s k"
      by (auto simp: sq_list_def simp del: upt_Suc)
    with sq_wf_D(1) [OF wf] show ?thesis by metis
  qed
  have "distinct (sq_list t)" using wf m by (metis mset_eq_imp_distinct_iff sq_wf_def)
  moreover have "(stride_queue t i \<noteq> None) = (1 \<le> i \<and> i \<le> stride_queue_size s)"
    and "case stride_queue t i of None \<Rightarrow> True | Some p \<Rightarrow> p < NPROC" if "i < NSTRIDE_QUEUE" for i
  proof (atomize (full), cases "1 \<le> i \<and> i \<le> stride_queue_size s")
    case True
    then show "(stride_queue t i \<noteq> None) = (1 \<le> i \<and> i \<le> stride_queue_size s) \<and>
        (case stride_queue t i of None \<Rightarrow> True | Some p \<Rightarrow> p < NPROC)" using mem [of i] by auto
  next
    case False
    then have "stride_queue t i = None"
      using rest sq_wf_D(2) [OF wf _ that] sq_wf_D(3) [OF wf] by (cases i) auto
    then show "(stride_queue t i \<noteq> None) = (1 \<le> i \<and> i \<le> stride_queue_size s) \<and>
        (case stride_queue t i of None \<Rightarrow> True | Some p \<Rightarrow> p < NPROC)" using False by simp
  qed
  ultimately show ?thesis using wf n by (simp add: sq_wf_def)
qed

lemma stride_queue_heapify_down_ok:
  assumes wf: "sq_wf s" and i: "1 \<le> i" "i \<le> stride_queue_size s" and n: "stride_queue_size s < NPROC"
  obtains q where
    "stride_queue_heapify_down i s = (Inr (), s\<lparr>stride_queue := q\<rparr>)"
    "sq_wf (s\<lparr>stride_queue := q\<rparr>)"
    "mset (sq_list (s\<lparr>stride_queue := q\<rparr>)) = mset (sq_list s)"
    "heap_except (pt_proc s) (stride_queue s) (stride_queue_size s) i \<longrightarrow> sq_heap (s\<lparr>stride_queue := q\<rparr>)"
proof -
  let ?n = "stride_queue_size s" and ?v = "stride_queue s"
  obtain pp where pp: "?v i = Some pp" using sq_wf_D(1) [OF wf i] by auto
  have "\<exists>j q. heapify_down_loop (Some pp) i s = (Inr j, s\<lparr>stride_queue := q\<rparr>)
           \<and> down_result (pt_proc s) ?n (Some pp) ?v i j q"
    by (rule heapify_down_loop_ok [OF refl i refl n]) (use pp sq_wf_D [OF wf] in fastforce)+
  then obtain j q where eq: "heapify_down_loop (Some pp) i s = (Inr j, s\<lparr>stride_queue := q\<rparr>)"
    and r: "down_result (pt_proc s) ?n (Some pp) ?v i j q" by blast
  let ?q = "q(j := Some pp)"
  have run: "stride_queue_heapify_down i s = (Inr (), s\<lparr>stride_queue := ?q\<rparr>)"
    using i n pp eq by (simp add: stride_queue_heapify_down_def)
  have m: "mset (sq_list (s\<lparr>stride_queue := ?q\<rparr>)) = mset (sq_list s)"
    using r by (simp add: down_result_def sq_list_def del: upt_Suc)
  have "sq_wf (s\<lparr>stride_queue := ?q\<rparr>)"
    by (rule sq_wf_perm [OF wf _ m]) (use r in \<open>auto simp: down_result_def\<close>)
  moreover have "heap_except (pt_proc s) ?v ?n i \<longrightarrow> sq_heap (s\<lparr>stride_queue := ?q\<rparr>)"
    using r by (simp add: down_result_def sq_heap_def)
  ultimately show thesis using that [of ?q] run m by blast
qed


section \<open>Inserting a process\<close>

text \<open>A heap but for the edge above \<open>i\<close>, whose children are at least the parent of \<open>i\<close>.\<close>

definition heap_above :: "(nat \<Rightarrow> proc) \<Rightarrow> (nat \<Rightarrow> nat option) \<Rightarrow> nat \<Rightarrow> nat \<Rightarrow> bool" where
  "heap_above P v n i \<longleftrightarrow>
     (\<forall>j\<le>n. 2 \<le> j \<longrightarrow> j \<noteq> i \<longrightarrow> vkey P v (j div 2) \<le> vkey P v j)
     \<and> (\<forall>j\<le>n. 2 \<le> j \<longrightarrow> j div 2 = i \<longrightarrow> 2 \<le> i \<longrightarrow> vkey P v (i div 2) \<le> vkey P v j)
     \<and> (\<forall>j\<le>n. 1 \<le> j \<longrightarrow> vkey P v i \<le> vkey P v j)"

lemma heap_above_swap:
  assumes ab: "heap_above P v n i" and i: "2 \<le> i" "i \<le> n" and h: "h = i div 2"
  shows "heap_above P (v(i := v h, h := v i)) n h"
proof -
  let ?w = "v(i := v h, h := v i)"
  have hi: "h \<noteq> i" "1 \<le> h" "h < i" using i h by auto
  have kw: "vkey P ?w j = (if j = h then vkey P v i else if j = i then vkey P v h else vkey P v j)" for j
    by (simp add: vkey_def)
  have low: "vkey P v i \<le> vkey P v j" if "j \<le> n" "1 \<le> j" for j
    using ab that by (auto simp: heap_above_def)
  have edge: "vkey P v (j div 2) \<le> vkey P v j" if "j \<le> n" "2 \<le> j" "j \<noteq> i" for j
    using ab that by (auto simp: heap_above_def)
  have skip: "vkey P v h \<le> vkey P v j" if "j \<le> n" "2 \<le> j" "j div 2 = i" for j
    using ab that i h by (auto simp: heap_above_def)
  show ?thesis unfolding heap_above_def
  proof (intro conjI allI impI)
    fix j assume j: "j \<le> n" "2 \<le> j" "j \<noteq> h"
    show "vkey P ?w (j div 2) \<le> vkey P ?w j"
      using j edge [of j] skip [of j] low [of j] low [of h] hi i h [symmetric]
      by (cases "j = i"; cases "j div 2 = h"; cases "j div 2 = i") (auto simp: kw)
  next
    fix j assume j: "j \<le> n" "2 \<le> j" "j div 2 = h" "2 \<le> h"
    have "h div 2 \<noteq> h" "h div 2 \<noteq> i" using j hi by (auto simp: div2_eq)
    moreover have "vkey P v (h div 2) \<le> vkey P v h" using edge [of h] j hi i by auto
    moreover have "vkey P v h \<le> vkey P v j" if "j \<noteq> i" using edge [of j] j that by simp
    ultimately show "vkey P ?w (h div 2) \<le> vkey P ?w j"
      using j hi by (auto simp: kw div2_eq)
  next
    fix j assume j: "j \<le> n" "1 \<le> j"
    show "vkey P ?w h \<le> vkey P ?w j" using low [of j] low [of h] j hi i by (auto simp: kw)
  qed
qed

lemma push_loop_ok:
  assumes "1 \<le> i" "i \<le> n" and "v = q(i := a)" and "w = (push_loop i q)(1 := a)"
  shows "(heap_above P v n i \<longrightarrow> heap_upto P w n)
    \<and> mset (map w [1..<Suc n]) = mset (map v [1..<Suc n])
    \<and> (\<forall>k. (k = 0 \<or> n < k) \<longrightarrow> w k = v k) \<and> w 1 = a"
  using assms
proof (induction i arbitrary: q v w rule: less_induct)
  case (less i)
  show ?case
  proof (cases "1 < i")
    case False
    then have "i = 1" using less.prems(1) by simp
    then have "w = v" using less.prems(3,4) by (simp add: push_loop.simps)
    then show ?thesis using \<open>i = 1\<close> less.prems(3) by (auto simp: heap_above_def heap_upto_def)
  next
    case True
    let ?h = "i div 2"
    let ?u = "v(i := v ?h, ?h := v i)"
    have h: "1 \<le> ?h" "?h \<le> n" "?h < i" using True less.prems(2) by auto
    have w: "w = (push_loop ?h (q(i := q ?h)))(1 := a)"
      unfolding less.prems(4) using True by (subst push_loop.simps) simp
    have u: "?u = (q(i := q ?h))(?h := a)" using h less.prems(3) by (auto simp: fun_eq_iff)
    have IH: "(heap_above P ?u n ?h \<longrightarrow> heap_upto P w n)
      \<and> mset (map w [1..<Suc n]) = mset (map ?u [1..<Suc n])
      \<and> (\<forall>k. (k = 0 \<or> n < k) \<longrightarrow> w k = ?u k) \<and> w 1 = a"
      by (rule less.IH [OF h(3) h(1) h(2) u w])
    have "heap_above P v n i \<longrightarrow> heap_above P ?u n ?h"
      using heap_above_swap [of P v n i ?h] True less.prems(2) by auto
    then show ?thesis
      using IH mset_map_swap [OF less.prems(1,2) h(1,2), of v] h less.prems(1,2)
      by (auto simp del: upt_Suc)
  qed
qed

lemma sq_list_mem: "x \<in> set (sq_list s) \<longleftrightarrow> (\<exists>i. 1 \<le> i \<and> i \<le> stride_queue_size s \<and> stride_queue s i = x)"
  by (auto simp: sq_list_def simp del: upt_Suc)

lemma vkey_cong:
  assumes "\<forall>j. 1 \<le> j \<longrightarrow> j \<le> n \<longrightarrow> v j \<noteq> Some p" and "1 \<le> i" "i \<le> n"
  shows "vkey (P(p := x)) v i = vkey P v i"
  using assms by (auto simp: vkey_def split: option.splits)

lemma heap_root_min:
  assumes "heap_upto P v n" and "1 \<le> j" "j \<le> n"
  shows "vkey P v 1 \<le> vkey P v j"
  using assms(2,3)
proof (induction j rule: less_induct)
  case (less j)
  show ?case
  proof (cases "j = 1")
    case False
    then have "1 \<le> j div 2" "j div 2 < j" "2 \<le> j" using less.prems by auto
    then have "vkey P v 1 \<le> vkey P v (j div 2)" using less by simp
    also have "\<dots> \<le> vkey P v j" using assms(1) \<open>2 \<le> j\<close> less.prems by (simp add: heap_upto_def)
    finally show ?thesis .
  qed simp
qed

lemma stride_queue_push_ok:
  assumes wf: "sq_wf s" and p: "p < NPROC" and new: "Some p \<notin> set (sq_list s)"
    and n: "stride_queue_size s < NPROC"
  obtains t where "stride_queue_push p s = (Inr (), t)"
    "sq_wf t" "stride_queue_size t = stride_queue_size s + 1"
    "mset (sq_list t) = add_mset (Some p) (mset (sq_list s))"
    "stride_queue t 1 = Some p" "sq_heap s \<longrightarrow> sq_heap t"
    "sum_cpu_share t = sum_cpu_share s"
    "\<forall>i. i \<noteq> p \<longrightarrow> pt_proc t i = pt_proc s i"
    "pt_proc t p = (pt_proc s p)\<lparr>p_stride_count := (case stride_queue s 1 of None \<Rightarrow> p_stride_count (pt_proc s p)
        | Some r \<Rightarrow> p_stride_count (pt_proc s r))\<rparr>"
proof -
  let ?n = "stride_queue_size s + 1" and ?q = "stride_queue s"
  define sc where "sc = (case ?q 1 of None \<Rightarrow> p_stride_count (pt_proc s p)
        | Some r \<Rightarrow> p_stride_count (pt_proc s r))"
  let ?P = "(pt_proc s)(p := (pt_proc s p)\<lparr>p_stride_count := sc\<rparr>)"
  let ?w = "(push_loop ?n ?q)(1 := Some p)"
  let ?v = "?q(?n := Some p)"
  let ?t = "s\<lparr>pt_proc := ?P, stride_queue := ?w, stride_queue_size := ?n\<rparr>"
  have run: "stride_queue_push p s = (Inr (), ?t)"
    using n by (auto simp: stride_queue_push_def sc_def upd_proc_def Let_def split: option.splits)
  have notin: "\<forall>j. 1 \<le> j \<longrightarrow> j \<le> stride_queue_size s \<longrightarrow> ?q j \<noteq> Some p"
    using new by (auto simp: sq_list_mem)
  have r: "(heap_above ?P ?v ?n ?n \<longrightarrow> heap_upto ?P ?w ?n)
    \<and> mset (map ?w [1..<Suc ?n]) = mset (map ?v [1..<Suc ?n])
    \<and> (\<forall>k. (k = 0 \<or> ?n < k) \<longrightarrow> ?w k = ?v k) \<and> ?w 1 = Some p"
    by (rule push_loop_ok) auto
  have lv: "map ?v [1..<Suc ?n] = sq_list s @ [Some p]"
    by (simp add: sq_list_def)
  have "sq_list ?t = map ?w [1..<Suc ?n]" by (simp add: sq_list_def del: upt_Suc)
  then have m: "mset (sq_list ?t) = add_mset (Some p) (mset (sq_list s))"
    using r lv by (metis add_mset_add_single mset_append mset_single_iff_right mset.simps)
  have hp: "sq_heap ?t" if "sq_heap s"
  proof -
    have k: "vkey ?P ?v j = vkey (pt_proc s) ?q j" if "1 \<le> j" "j \<le> stride_queue_size s" for j
      using vkey_cong [OF notin that] that by (simp add: vkey_def)
    have kn: "vkey ?P ?v ?n = sint sc" by (simp add: vkey_def)
    have root: "sint sc = vkey (pt_proc s) ?q 1" if "1 \<le> stride_queue_size s"
      using sq_wf_D(1) [OF wf _ that] by (auto simp: sc_def vkey_def)
    have "heap_above ?P ?v ?n ?n"
      unfolding heap_above_def
    proof (intro conjI allI impI)
      fix j assume "j \<le> ?n" "2 \<le> j" "j \<noteq> ?n"
      then show "vkey ?P ?v (j div 2) \<le> vkey ?P ?v j"
        using \<open>sq_heap s\<close> k [of j] k [of "j div 2"] by (simp add: sq_heap_def heap_upto_def)
    next
      fix j assume "j \<le> ?n" "2 \<le> j" "j div 2 = ?n"
      then show "vkey ?P ?v (?n div 2) \<le> vkey ?P ?v j" by (auto simp: div2_eq)
    next
      fix j assume j: "j \<le> ?n" "1 \<le> j"
      show "vkey ?P ?v ?n \<le> vkey ?P ?v j"
      proof (cases "j = ?n")
        case False
        then have j': "j \<le> stride_queue_size s" "1 \<le> stride_queue_size s" using j by auto
        show ?thesis
          using heap_root_min [of "pt_proc s" ?q "stride_queue_size s" j] \<open>sq_heap s\<close> j j' kn root k [of j]
          by (simp add: sq_heap_def)
      qed simp
    qed
    then show ?thesis using r by (simp add: sq_heap_def)
  qed
  have wft: "sq_wf ?t"
  proof -
    have mem: "\<exists>x<NPROC. ?w i = Some x" if "1 \<le> i" "i \<le> ?n" for i
    proof -
      have "?w i \<in> set (sq_list ?t)" using that by (auto simp: sq_list_mem)
      then have "?w i = Some p \<or> ?w i \<in> set (sq_list s)" using m
        by (metis set_mset_mset set_mset_add_mset_insert insert_iff)
      then show ?thesis using p sq_wf_D(1) [OF wf] by (auto simp: sq_list_mem) metis+
    qed
    have none: "?w i = None" if "i < NSTRIDE_QUEUE" "\<not> (1 \<le> i \<and> i \<le> ?n)" for i
      using r sq_wf_D(2) [OF wf _ that(1)] sq_wf_D(3) [OF wf] that
      by (cases i) auto
    have "distinct (sq_list ?t)"
      using wf m new by (metis distinct.simps(2) mset.simps(2) mset_eq_imp_distinct_iff sq_wf_def)
    moreover have "(?w i \<noteq> None) = (1 \<le> i \<and> i \<le> ?n) \<and> (case ?w i of None \<Rightarrow> True | Some x \<Rightarrow> x < NPROC)"
      if "i < NSTRIDE_QUEUE" for i
      using mem [of i] none [OF that] by (cases "1 \<le> i \<and> i \<le> ?n") auto
    ultimately show ?thesis using n by (simp add: sq_wf_def)
  qed
  show thesis
    by (rule that [OF run wft]) (use m r hp in \<open>simp_all add: sc_def\<close>)
qed

end
