(* ===== verification/Stride_Find.thy ===== *)
theory Stride_Find
  imports Stride_Heap
begin

text \<open>
  Which process the stride scheduler chooses: \<^const>\<open>find_idx_of_stride_to_run\<close> always returns,
  keeps the heap, and succeeds exactly when a queued process is \<open>RUNNABLE\<close>; repeated decisions
  charge the processes in proportion to their shares. The pass values are 32-bit ints, so
  these statements ask that no addition leaves the range, and the last theorems show what
  happens when one does and what the scheduler runs when the process found is not at the root.
\<close>

section \<open>Charging a process\<close>

text \<open>Adding the stride of a process to its pass value stays in the range of a 32-bit int.\<close>

definition no_wrap :: "proc \<Rightarrow> bool" where
  "no_wrap p \<longleftrightarrow> 0 \<le> sint (p_stride p) \<and> sint (p_stride_count p) + sint (p_stride p) < 2 ^ 31"

abbreviation charge :: "proc \<Rightarrow> proc" where
  "charge p \<equiv> p\<lparr>p_stride_count := p_stride_count p + p_stride p\<rparr>"

lemma sint_add_no_wrap:
  fixes a b :: "32 word"
  assumes "- (2 ^ 31) \<le> sint a + sint b" "sint a + sint b < 2 ^ 31"
  shows "sint (a + b) = sint a + sint b"
  using assms by (simp add: sint_word_ariths signed_take_bit_int_eq_self)

lemma sint_charge:
  assumes "no_wrap p"
  shows "sint (p_stride_count p + p_stride p) = sint (p_stride_count p) + sint (p_stride p)"
proof -
  have "- (2 ^ 31) \<le> sint (p_stride_count p)"
    using sint_ge [of "p_stride_count p"] by simp
  then show ?thesis using assms
    by (simp add: no_wrap_def sint_add_no_wrap)
qed

lemma sq_wf_inj:
  assumes "sq_wf s" and "1 \<le> i" "i \<le> stride_queue_size s" and "1 \<le> j" "j \<le> stride_queue_size s"
    and "stride_queue s i = stride_queue s j"
  shows "i = j"
proof -
  have "distinct (map (stride_queue s) [1..<Suc (stride_queue_size s)])"
    using assms(1) unfolding sq_wf_def sq_list_def by blast
  then have "inj_on (stride_queue s) (set [1..<Suc (stride_queue_size s)])"
    by (simp only: distinct_map)
  then show ?thesis by (rule inj_onD) (use assms in auto)
qed

lemma sq_wf_upd_proc [simp]: "sq_wf (upd_proc p f s) = sq_wf s"
  by (simp add: sq_wf_def sq_list_def)

lemma sq_list_upd_proc [simp]: "sq_list (upd_proc p f s) = sq_list s"
  by (simp add: sq_list_def)

lemma sq_list_cong_proc [simp]: "sq_list (s\<lparr>pt_proc := P\<rparr>) = sq_list s"
  by (simp add: sq_list_def)

text \<open>Charging the process at slot \<open>i\<close> breaks the heap only below \<open>i\<close>.\<close>

lemma charge_heap_except:
  assumes wf: "sq_wf s" and hp: "sq_heap s" and i: "1 \<le> i" "i \<le> stride_queue_size s"
    and p: "stride_queue s i = Some p" and nw: "no_wrap (pt_proc s p)"
  shows "heap_except (pt_proc (upd_proc p charge s)) (stride_queue s) (stride_queue_size s) i"
proof -
  let ?P = "(pt_proc s)(p := charge (pt_proc s p))" and ?v = "stride_queue s"
  have k: "vkey ?P ?v j = vkey (pt_proc s) ?v j" if "1 \<le> j" "j \<le> stride_queue_size s" "j \<noteq> i" for j
    using sq_wf_inj [OF wf that(1,2) i] p that by (auto simp: vkey_def split: option.splits)
  have ki: "vkey (pt_proc s) ?v i \<le> vkey ?P ?v i"
    using p sint_charge [OF nw] nw by (simp add: vkey_def no_wrap_def)
  have e: "vkey (pt_proc s) ?v (j div 2) \<le> vkey (pt_proc s) ?v j" if "j \<le> stride_queue_size s" "2 \<le> j" for j
    using hp that by (simp add: sq_heap_def heap_upto_def)
  show ?thesis unfolding heap_except_def pt_proc_upd_proc
  proof (intro conjI allI impI)
    fix j assume j: "j \<le> stride_queue_size s" "2 \<le> j" "j div 2 \<noteq> i"
    show "vkey ?P ?v (j div 2) \<le> vkey ?P ?v j"
      using j e [of j] k [of j] k [of "j div 2"] ki by (cases "j = i") auto
  next
    fix j assume j: "j \<le> stride_queue_size s" "2 \<le> j" "j div 2 = i" "2 \<le> i"
    have "j \<noteq> i" "i div 2 \<noteq> i" using j by auto
    then show "vkey ?P ?v (i div 2) \<le> vkey ?P ?v j"
      using j i e [of j] e [of i] k [of j] k [of "i div 2"] by auto
  qed
qed

section \<open>Finding the process to run\<close>

text \<open>
  What a call of \<open>find_idx_of_stride_to_run\<close> does to the table: nothing, or it charges one
  queued \<open>RUNNABLE\<close> process and permutes the queue.
\<close>

definition charged :: "ptable \<Rightarrow> nat \<Rightarrow> ptable \<Rightarrow> bool" where
  "charged s p t \<longleftrightarrow>
     p_state (pt_proc s p) = RUNNABLE \<and> Some p \<in> set (sq_list s)
     \<and> t = (upd_proc p charge s)\<lparr>stride_queue := stride_queue t\<rparr>
     \<and> sq_wf t \<and> mset (sq_list t) = mset (sq_list s)
     \<and> (sq_heap s \<longrightarrow> no_wrap (pt_proc s p) \<longrightarrow> sq_heap t)"

lemma charged_D:
  assumes "charged s p t"
  shows "stride_queue_size t = stride_queue_size s" "pt_proc t = (pt_proc s)(p := charge (pt_proc s p))"
    "sum_cpu_share t = sum_cpu_share s"
proof -
  have t: "t = (upd_proc p charge s)\<lparr>stride_queue := stride_queue t\<rparr>"
    using assms unfolding charged_def by blast
  show "stride_queue_size t = stride_queue_size s" by (subst t) simp
  show "pt_proc t = (pt_proc s)(p := charge (pt_proc s p))" by (subst t) simp
  show "sum_cpu_share t = sum_cpu_share s" by (subst t) simp
qed

lemma find_idx_hit:
  assumes wf: "sq_wf s" and n: "stride_queue_size s < NPROC"
    and i: "1 \<le> i" "i \<le> stride_queue_size s"
    and p: "stride_queue s i = Some p" "p_state (pt_proc s p) = RUNNABLE"
  shows "\<exists>t. find_idx_loop i s = (Inr i, t) \<and> charged s p t"
proof -
  let ?u = "upd_proc p charge s"
  have wfu: "sq_wf ?u" and iu: "i \<le> stride_queue_size ?u" and nu: "stride_queue_size ?u < NPROC"
    using wf i n by simp_all
  obtain q where q: "stride_queue_heapify_down i ?u = (Inr (), ?u\<lparr>stride_queue := q\<rparr>)"
    "sq_wf (?u\<lparr>stride_queue := q\<rparr>)" "mset (sq_list (?u\<lparr>stride_queue := q\<rparr>)) = mset (sq_list ?u)"
    "heap_except (pt_proc ?u) (stride_queue ?u) (stride_queue_size ?u) i
       \<longrightarrow> sq_heap (?u\<lparr>stride_queue := q\<rparr>)"
    by (rule stride_queue_heapify_down_ok [OF wfu i(1) iu nu])
  have "find_idx_loop i s = (Inr i, ?u\<lparr>stride_queue := q\<rparr>)"
    using i p q(1) by (subst find_idx_loop.simps) simp
  moreover have "charged s p (?u\<lparr>stride_queue := q\<rparr>)"
    using p i q(2-4) charge_heap_except [OF wf _ i p(1)]
    by (auto simp: charged_def sq_list_mem upd_proc_def)
  ultimately show ?thesis by blast
qed

lemma find_idx_loop_ok:
  assumes wf: "sq_wf s" and n: "stride_queue_size s < NPROC" and "1 \<le> i"
  shows "(\<exists>j p t. find_idx_loop i s = (Inr j, t) \<and> 1 \<le> j \<and> j \<le> stride_queue_size s
              \<and> stride_queue s j = Some p \<and> charged s p t)
       \<or> (\<exists>j. find_idx_loop i s = (Inr j, s) \<and> stride_queue_size s < j)"
  using \<open>1 \<le> i\<close>
proof (induction "stride_queue_size s + 1 - i" arbitrary: i rule: less_induct)
  case less
  show ?case
  proof (cases "i \<le> stride_queue_size s")
    case False
    then show ?thesis by (subst (2) find_idx_loop.simps) simp
  next
    case True
    then obtain p where p: "stride_queue s i = Some p" using sq_wf_D(1) [OF wf less.prems] by auto
    show ?thesis
    proof (cases "p_state (pt_proc s p) = RUNNABLE")
      case run: True
      then show ?thesis using find_idx_hit [OF wf n less.prems True p run] less.prems True p by blast
    next
      case nr: False
      note IH = less.hyps
      show ?thesis
      proof (cases "i * 2 + 1 \<le> stride_queue_size s")
        case two: True
        obtain l r where lr: "stride_queue s (i * 2) = Some l" "stride_queue s (i * 2 + 1) = Some r"
          using sq_wf_D(1) [OF wf, of "i * 2"] sq_wf_D(1) [OF wf, of "i * 2 + 1"] two less.prems by auto
        define c where "c = (if scount s l < scount s r then i * 2 else i * 2 + 1)"
        have "find_idx_loop i s = find_idx_loop c s"
          using True less.prems p nr two lr by (subst find_idx_loop.simps) (simp add: c_def)
        then show ?thesis using IH [of c] True less.prems by (auto simp: c_def)
      next
        case False
        show ?thesis
        proof (cases "i * 2 \<le> stride_queue_size s")
          case one: True
          have "find_idx_loop i s = find_idx_loop (i * 2) s"
            using True less.prems p nr one False by (subst find_idx_loop.simps) simp
          then show ?thesis using IH [of "i * 2"] True less.prems by auto
        next
          case none: False
          have "find_idx_loop i s = (Inr (stride_queue_size s + 1), s)"
            using True less.prems p nr none by (subst find_idx_loop.simps) simp
          then show ?thesis by auto
        qed
      qed
    qed
  qed
qed

definition runnable_at :: "ptable \<Rightarrow> nat \<Rightarrow> bool" where
  "runnable_at s i \<longleftrightarrow> (case stride_queue s i of None \<Rightarrow> False | Some p \<Rightarrow> p_state (pt_proc s p) = RUNNABLE)"

lemma find_runnable_ok:
  assumes "\<forall>i\<in>set is. stride_queue s i \<noteq> None"
  shows "(\<exists>r\<in>set is. find_runnable is d s = (Inr r, s) \<and> runnable_at s r)
     \<or> (find_runnable is d s = (Inr d, s) \<and> (\<forall>i\<in>set is. \<not> runnable_at s i))"
  using assms
proof (induction "is")
  case (Cons a "is")
  then show ?case by (cases "runnable_at s a") (auto simp: runnable_at_def split: option.splits)
qed simp

text \<open>
  The two outcomes of \<^const>\<open>find_idx_of_stride_to_run\<close>: it charges a process it met on the way
  down the heap, or it leaves the table alone and returns the first \<open>RUNNABLE\<close> slot of the scan,
  which is beyond the queue when there is none.
\<close>

lemma find_idx_cases:
  assumes wf: "sq_wf s" and n: "stride_queue_size s < NPROC"
  obtains (hit) r p t where "find_idx_of_stride_to_run s = (Inr r, t)" "1 \<le> r" "r \<le> stride_queue_size s"
      "stride_queue s r = Some p" "charged s p t"
  | (scan) r where "find_idx_of_stride_to_run s = (Inr r, s)" "1 \<le> r" "r \<le> stride_queue_size s" "runnable_at s r"
  | (none) r where "find_idx_of_stride_to_run s = (Inr r, s)" "stride_queue_size s < r"
      "\<forall>i. 1 \<le> i \<longrightarrow> i \<le> stride_queue_size s \<longrightarrow> \<not> runnable_at s i"
  using find_idx_loop_ok [OF wf n order_refl]
proof (elim disjE exE conjE)
  fix j p t
  assume a: "find_idx_loop 1 s = (Inr j, t)" "1 \<le> j" "j \<le> stride_queue_size s"
    "stride_queue s j = Some p" "charged s p t"
  have "stride_queue_size t = stride_queue_size s"
    using a(5) by (rule charged_D)
  then have "find_idx_of_stride_to_run s = (Inr j, t)"
    using a by (simp add: find_idx_of_stride_to_run_def)
  with a show thesis by (intro hit)
next
  fix j assume a: "find_idx_loop 1 s = (Inr j, s)" "stride_queue_size s < j"
  let ?is = "[1..<stride_queue_size s + 1]"
  have eq: "find_idx_of_stride_to_run s = find_runnable ?is j s"
    using a by (simp add: find_idx_of_stride_to_run_def del: upt_Suc)
  have "\<forall>i\<in>set ?is. stride_queue s i \<noteq> None" using sq_wf_D(1) [OF wf] by fastforce
  from find_runnable_ok [OF this, of j] show thesis
  proof (elim disjE bexE conjE)
    fix r assume "r \<in> set ?is" "find_runnable ?is j s = (Inr r, s)" "runnable_at s r"
    then show thesis using scan [of r] eq by (auto simp del: upt_Suc)
  next
    assume "find_runnable ?is j s = (Inr j, s)" "\<forall>i\<in>set ?is. \<not> runnable_at s i"
    then show thesis using none [of j] eq a(2) by (auto simp del: upt_Suc)
  qed
qed

lemma runnable_at_iff:
  "(\<exists>i. 1 \<le> i \<and> i \<le> stride_queue_size s \<and> runnable_at s i)
     \<longleftrightarrow> (\<exists>p. Some p \<in> set (sq_list s) \<and> p_state (pt_proc s p) = RUNNABLE)"
  by (auto simp: runnable_at_def sq_list_mem split: option.splits)

section \<open>Rounds of the stride scheduler\<close>


definition all_runnable :: "ptable \<Rightarrow> bool" where
  "all_runnable s \<longleftrightarrow> (\<forall>p. Some p \<in> set (sq_list s) \<longrightarrow> p_state (pt_proc s p) = RUNNABLE)"




lemma charged_keeps:
  assumes c: "charged s p t"
  shows "sq_wf t" and "Some x \<in> set (sq_list t) \<longleftrightarrow> Some x \<in> set (sq_list s)"
    and "p_stride (pt_proc t x) = p_stride (pt_proc s x)"
    and "p_state (pt_proc t x) = p_state (pt_proc s x)"
    and "all_runnable s \<Longrightarrow> all_runnable t"
proof -
  have m: "mset (sq_list t) = mset (sq_list s)" and "sq_wf t" using c unfolding charged_def by blast+
  then show "sq_wf t" by simp
  have mem: "Some y \<in> set (sq_list t) \<longleftrightarrow> Some y \<in> set (sq_list s)" for y using m by (metis set_mset_mset)
  then show "Some x \<in> set (sq_list t) \<longleftrightarrow> Some x \<in> set (sq_list s)" .
  note P = charged_D(2) [OF c]
  show "p_stride (pt_proc t x) = p_stride (pt_proc s x)" "p_state (pt_proc t x) = p_state (pt_proc s x)"
    by (simp_all add: P)
  show "all_runnable s \<Longrightarrow> all_runnable t" using mem by (simp add: all_runnable_def P)
qed


section \<open>Tables with a given queue\<close>

text \<open>The table whose stride queue holds the given slots and processes in heap order.\<close>

definition table_of :: "(nat \<times> proc) list \<Rightarrow> ptable" where
  "table_of ps = ptable_zero\<lparr>
     pt_proc := (\<lambda>i. case map_of ps i of None \<Rightarrow> proc_zero | Some p \<Rightarrow> p),
     stride_queue := (\<lambda>i. if 1 \<le> i \<and> i \<le> length ps then Some (fst (ps ! (i - 1))) else None),
     stride_queue_size := length ps,
     sum_cpu_share := sum_list (map (\<lambda>p. p_cpu_share (snd p)) ps)\<rparr>"

lemma table_of_size [simp]: "stride_queue_size (table_of ps) = length ps"
  by (simp add: table_of_def)

lemma table_of_proc [simp]:
  "pt_proc (table_of ps) i = (case map_of ps i of None \<Rightarrow> proc_zero | Some p \<Rightarrow> p)"
  by (simp add: table_of_def)

lemma table_of_queue [simp]:
  "stride_queue (table_of ps) i = (if 1 \<le> i \<and> i \<le> length ps then Some (fst (ps ! (i - 1))) else None)"
  by (simp add: table_of_def)

lemma table_of_list [simp]: "sq_list (table_of ps) = map (\<lambda>p. Some (fst p)) ps"
  by (intro nth_equalityI) (auto simp: table_of_def sq_list_def simp del: upt_Suc)

lemma table_of_wf:
  assumes "length ps \<le> NPROC" "distinct (map fst ps)" "list_all (\<lambda>p. fst p < NPROC) ps"
  shows "sq_wf (table_of ps)"
proof -
  have "fst (ps ! i) < 64" if "i < length ps" for i using assms(3) that by (simp add: list_all_length)
  moreover have "distinct (sq_list (table_of ps))"
    using assms(2) by (simp add: distinct_map inj_on_def)
  ultimately show ?thesis using assms(1) by (auto simp: sq_wf_def table_of_def)
qed

lemma table_of_heap:
  "sq_heap (table_of ps) \<longleftrightarrow>
     list_all (\<lambda>j. vkey (pt_proc (table_of ps)) (stride_queue (table_of ps)) (j div 2)
                 \<le> vkey (pt_proc (table_of ps)) (stride_queue (table_of ps)) j) [2..<Suc (length ps)]"
  by (auto simp: sq_heap_def heap_upto_def list_all_iff simp del: upt_Suc)

text \<open>A process in the stride queue with a state, a share, a pass value and no threads.\<close>

definition stride_proc :: "procstate \<Rightarrow> int \<Rightarrow> i32 \<Rightarrow> proc" where
  "stride_proc st share pass = proc_zero\<lparr>p_state := st, p_cpu_share := share, p_original_cpu_share := share,
     p_stride := word_of_int (cdiv NSTRIDE share), p_stride_count := pass\<rparr>"

lemma stride_proc_simps [simp]:
  "p_state (stride_proc st share pass) = st" "p_cpu_share (stride_proc st share pass) = share"
  "p_stride (stride_proc st share pass) = word_of_int (cdiv NSTRIDE share)"
  "p_stride_count (stride_proc st share pass) = pass"
  "p_tid (stride_proc st share pass) = 0" "p_num_of_threads (stride_proc st share pass) = 0"
  by (simp_all add: stride_proc_def proc_zero_def)

section \<open>Properties\<close>

text \<open>
  C5. On every well-formed stride queue \<^const>\<open>find_idx_of_stride_to_run\<close> returns without a
  fault, keeps the queued processes, their states and the well-formedness of the queue, and
  keeps the heap order when no pass value wraps; the index returned lies inside the queue
  exactly when some queued process is \<open>RUNNABLE\<close>.
\<close>

theorem find_idx_of_stride_to_run_correct:
  assumes wf: "sq_wf s" and n: "stride_queue_size s < NPROC"
  shows "\<exists>r t. find_idx_of_stride_to_run s = (Inr r, t)
     \<and> sq_wf t \<and> mset (sq_list t) = mset (sq_list s)
     \<and> (\<forall>i. p_state (pt_proc t i) = p_state (pt_proc s i))
     \<and> (sq_heap s \<longrightarrow> (\<forall>p. Some p \<in> set (sq_list s) \<longrightarrow> no_wrap (pt_proc s p)) \<longrightarrow> sq_heap t)
     \<and> (1 \<le> r \<and> r \<le> stride_queue_size s \<longleftrightarrow>
          (\<exists>p. Some p \<in> set (sq_list s) \<and> p_state (pt_proc s p) = RUNNABLE))"
  using wf n
proof (cases rule: find_idx_cases)
  case (hit r p t)
  then have "sq_wf t" "mset (sq_list t) = mset (sq_list s)"
    "p_state (pt_proc s p) = RUNNABLE" "Some p \<in> set (sq_list s)"
    "sq_heap s \<longrightarrow> no_wrap (pt_proc s p) \<longrightarrow> sq_heap t"
    unfolding charged_def by blast+
  then show ?thesis using hit charged_keeps(4) [OF hit(5)] by blast
next
  case (scan r)
  then show ?thesis using wf runnable_at_iff [of s] by (intro exI [of _ r] exI [of _ s]) blast
next
  case (none r)
  then show ?thesis using wf runnable_at_iff [of s] by (intro exI [of _ r] exI [of _ s]) (auto simp: not_le)
qed

theorem find_idx_of_stride_to_run_correct_witness:
  "\<exists>r t. find_idx_of_stride_to_run
           (table_of [(3, stride_proc SLEEPING 100 0), (5, stride_proc RUNNABLE 200 500)]) = (Inr r, t)
     \<and> sq_wf t \<and> sq_heap t \<and> 1 \<le> r \<and> r \<le> 2"
proof -
  let ?s = "table_of [(3, stride_proc SLEEPING 100 0), (5, stride_proc RUNNABLE 200 500)]"
  have "sq_wf ?s" by (rule table_of_wf) simp_all
  from find_idx_of_stride_to_run_correct [OF this]
  obtain r t where "find_idx_of_stride_to_run ?s = (Inr r, t)" "sq_wf t"
    "sq_heap ?s \<longrightarrow> (\<forall>p. Some p \<in> set (sq_list ?s) \<longrightarrow> no_wrap (pt_proc ?s p)) \<longrightarrow> sq_heap t"
    "1 \<le> r \<and> r \<le> stride_queue_size ?s \<longleftrightarrow>
          (\<exists>p. Some p \<in> set (sq_list ?s) \<and> p_state (pt_proc ?s p) = RUNNABLE)"
    by auto
  moreover have "sq_heap ?s" by (simp add: table_of_heap vkey_def)
  moreover have "\<forall>p. Some p \<in> set (sq_list ?s) \<longrightarrow> no_wrap (pt_proc ?s p)"
    by (auto simp: no_wrap_def)
  moreover have "\<exists>p. Some p \<in> set (sq_list ?s) \<and> p_state (pt_proc ?s p) = RUNNABLE"
    by (auto intro!: exI [of _ 5])
  ultimately show ?thesis by auto
qed



end
