(* ===== verification/Stride_Delete.thy ===== *)
theory Stride_Delete
  imports Stride_Find
begin

text \<open>
  Deletion from the stride queue: when it removes exactly the current process and keeps the
  queue well formed, and the states in which it panics, corrupts the queue or loses the heap
  order.
\<close>

section \<open>Deleting a process\<close>




text \<open>The queue after the last entry replaced the one at \<open>i\<close>, before any reordering.\<close>

definition sq_removed :: "nat \<Rightarrow> ptable \<Rightarrow> ptable" where
  "sq_removed i s = s\<lparr>stride_queue := (stride_queue s)(i := stride_queue s (stride_queue_size s),
                         stride_queue_size s := None),
                      stride_queue_size := stride_queue_size s - 1\<rparr>"




text \<open>The call once the process has been found at slot \<open>i\<close>.\<close>

lemma stride_queue_delete_found:
  assumes wf: "sq_wf s" and i: "1 \<le> i" "i \<le> stride_queue_size s" and cur: "stride_queue s i = Some cur"
  shows "stride_queue_delete cur p junk s =
    bindK (delete_flag i junk) (\<lambda>up.
      if stride_queue_size s - 1 = 0 \<or> stride_queue_size s - 1 = 1 then retK ()
      else if up then stride_queue_heapify_down i else stride_queue_heapify_up i)
    (sq_removed i (s\<lparr>sum_cpu_share := sum_cpu_share s - p_cpu_share (pt_proc s cur)\<rparr>))"
proof -
  have "List.find (\<lambda>i. stride_queue s i = Some cur) [1..<NSTRIDE_QUEUE] = Some i"
  proof (cases "List.find (\<lambda>i. stride_queue s i = Some cur) [1..<NSTRIDE_QUEUE]")
    case None
    then show ?thesis using i cur sq_wf_D(4) [OF wf] by (auto simp: find_None_iff)
  next
    case (Some k)
    from find_upt_Some [OF this] have k: "1 \<le> k" "k < NSTRIDE_QUEUE" "stride_queue s k = Some cur" by auto
    then have "k \<le> stride_queue_size s" using sq_wf_D(2) [OF wf] by (metis not_le option.distinct(1))
    then show ?thesis using Some sq_wf_inj [OF wf _ _ i] k cur by simp
  qed
  then show ?thesis using i by (simp add: stride_queue_delete_def sq_removed_def del: upt_Suc)
qed

lemma heapify_up_loop_frame:
  "heapify_up_loop i q = (j, w) \<Longrightarrow> j \<le> i \<and> (\<forall>k>i. w k = q k)"
proof (induction i arbitrary: q rule: less_induct)
  case (less i)
  show ?case
  proof (cases "i \<noteq> 1 \<and> ptr_less (q i) (q (i div 2))")
    case False
    then have "heapify_up_loop i q = (i, q)" by (subst heapify_up_loop.simps) (simp only: if_False)
    then show ?thesis using less.prems by simp
  next
    case True
    then have h: "i div 2 < i" by (cases "i = 0") auto
    have "heapify_up_loop (i div 2) (q(i := q (i div 2))) = (j, w)"
      using less.prems heapify_up_loop.simps [of i q] True by metis
    from less.IH [OF h this] show ?thesis using h by auto
  qed
qed

lemma sq_wf_sum [simp]: "sq_wf (s\<lparr>sum_cpu_share := x\<rparr>) = sq_wf s"
  by (simp add: sq_wf_def sq_list_def)

lemma sq_list_sum [simp]: "sq_list (s\<lparr>sum_cpu_share := x\<rparr>) = sq_list s"
  by (simp add: sq_list_def)

lemma sq_removed_simps [simp]:
  "stride_queue_size (sq_removed i s) = stride_queue_size s - 1"
  "pt_proc (sq_removed i s) = pt_proc s" "sum_cpu_share (sq_removed i s) = sum_cpu_share s"
  by (simp_all add: sq_removed_def)





text \<open>
  C10. \<^const>\<open>stride_queue_delete\<close> removes the \<^emph>\<open>current\<close> process, whatever process it is given:
  when the current process is not queued it panics, also if the process passed to it is
  queued, and the share of the current process has been subtracted all the same.
\<close>

theorem stride_queue_delete_panics:
  assumes wf: "sq_wf s" and cur: "Some cur \<notin> set (sq_list s)"
  shows "stride_queue_delete cur p junk s =
     (Inl (Panic ''exit(): a process is not in the stride scheduler''),
      s\<lparr>sum_cpu_share := sum_cpu_share s - p_cpu_share (pt_proc s cur)\<rparr>)"
proof -
  have "stride_queue s i \<noteq> Some cur" if "1 \<le> i" "i < NSTRIDE_QUEUE" for i
    using that cur sq_wf_D(2) [OF wf _ that(2)] by (cases "i \<le> stride_queue_size s") (auto simp: sq_list_mem)
  then have "List.find (\<lambda>i. stride_queue s i = Some cur) [1..<NSTRIDE_QUEUE] = None"
    by (auto simp: find_None_iff simp del: upt_Suc)
  then show ?thesis by (simp add: stride_queue_delete_def del: upt_Suc)
qed

theorem stride_queue_delete_panics_witness:
  "let s = table_of [(3, stride_proc RUNNABLE 100 0)] in
     Some 3 \<in> set (sq_list s) \<and>
     fst (stride_queue_delete 7 3 False s) = Inl (Panic ''exit(): a process is not in the stride scheduler'')"
proof -
  have "sq_wf (table_of [(3, stride_proc RUNNABLE 100 0)])" by (rule table_of_wf) simp_all
  then show ?thesis by (simp add: stride_queue_delete_panics Let_def)
qed

text \<open>
  C11. Deleting the last entry of a queue of three or more when the uninitialised
  \<open>heapify_up\<close> happens to be zero returns normally and leaves a corrupt queue: a null pointer
  is moved into the heap and a process stays beyond its end.
\<close>

theorem stride_queue_delete_last_corrupts:
  assumes wf: "sq_wf s" and n: "3 \<le> stride_queue_size s"
    and cur: "stride_queue s (stride_queue_size s) = Some cur"
  shows "\<exists>t. stride_queue_delete cur p False s = (Inr (), t) \<and> \<not> sq_wf t"
proof -
  let ?n = "stride_queue_size s"
  let ?u = "sq_removed ?n (s\<lparr>sum_cpu_share := sum_cpu_share s - p_cpu_share (pt_proc s cur)\<rparr>)"
  let ?q = "stride_queue ?u"
  have b: "1 \<le> ?n" "?n < NSTRIDE_QUEUE" using n sq_wf_D(4) [OF wf] by simp_all
  have q: "?q ?n = None" "?q (?n div 2) = stride_queue s (?n div 2)"
    using n by (auto simp: sq_removed_def)
  obtain x where x: "stride_queue s (?n div 2) = Some x"
    using sq_wf_D(1) [OF wf, of "?n div 2"] n by (auto simp: Suc_le_eq)
  have f: "(?n - 1 = 0 \<or> ?n - 1 = 1) = False" using n by presburger
  obtain j w where w: "heapify_up_loop (?n div 2) (?q(?n := Some x)) = (j, w)" by fastforce
  have "heapify_up_loop ?n ?q = (j, w)"
    using n q x w by (subst heapify_up_loop.simps) simp
  then have "stride_queue_heapify_up ?n ?u = (Inr (), ?u\<lparr>stride_queue := w(j := None)\<rparr>)"
    using b q by (simp add: stride_queue_heapify_up_def)
  moreover have "\<not> ?n \<le> stride_queue_size ?u" "?n \<noteq> 1" using n by auto
  then have "delete_flag ?n False ?u = (Inr False, ?u)" by (simp only: delete_flag_def if_False)
  ultimately have "stride_queue_delete cur p False s = (Inr (), ?u\<lparr>stride_queue := w(j := None)\<rparr>)"
    unfolding stride_queue_delete_found [OF wf b(1) order_refl cur] using f
    by (simp only: bindK_apply) simp
  moreover have "j < ?n" "w ?n = Some x" using heapify_up_loop_frame [OF w] n by auto
  then have "(w(j := None)) ?n \<noteq> None" by simp
  then have "\<not> sq_wf (?u\<lparr>stride_queue := w(j := None)\<rparr>)"
    using sq_wf_D(2) [of "?u\<lparr>stride_queue := w(j := None)\<rparr>" ?n] b n by auto
  ultimately show ?thesis by blast
qed

theorem stride_queue_delete_last_corrupts_witness:
  "\<exists>t. stride_queue_delete 6 6 False
        (table_of [(3, stride_proc RUNNABLE 100 0), (5, stride_proc RUNNABLE 200 0), (6, stride_proc SLEEPING 50 7)])
        = (Inr (), t) \<and> \<not> sq_wf t"
  by (rule stride_queue_delete_last_corrupts, rule table_of_wf) simp_all



end
