(* ===== verification/Stride_Share.thy ===== *)
theory Stride_Share
  imports Stride_Delete
begin

text \<open>
  The division of the processor: the choice between the stride queue and the feedback queue,
  and the accounting of CPU shares under \<^const>\<open>set_cpu_share\<close>.
\<close>

section \<open>Choosing between the two schedulers\<close>

text \<open>\<open>k\<close> consecutive decisions of \<^const>\<open>select_stride_or_MLFQ\<close>.\<close>

primrec select_rounds :: "nat \<Rightarrow> ptable \<Rightarrow> bool list \<times> ptable" where
  "select_rounds 0 s = ([], s)"
| "select_rounds (Suc k) s =
     (let (b, t) = select_stride_or_MLFQ s; (bs, u) = select_rounds k t in (b # bs, u))"

lemma select_nonempty:
  assumes "stride_queue_size s \<noteq> 0" "0 \<le> sum_cpu_share s"
  shows "select_stride_or_MLFQ s =
    ((queue_selector s + 1) mod 100 < sum_cpu_share s div 10, s\<lparr>queue_selector := (queue_selector s + 1) mod 100\<rparr>)"
  using assms by (simp add: select_stride_or_MLFQ_def Let_def)

lemma select_rounds_eq:
  assumes "stride_queue_size s \<noteq> 0" "0 \<le> sum_cpu_share s"
  shows "fst (select_rounds k s) =
     map (\<lambda>i. (queue_selector s + 1 + int i) mod 100 < sum_cpu_share s div 10) [0..<k]"
  using assms
proof (induction k arbitrary: s)
  case (Suc k)
  let ?t = "s\<lparr>queue_selector := (queue_selector s + 1) mod 100\<rparr>"
  have IH: "fst (select_rounds k ?t) =
     map (\<lambda>i. (queue_selector ?t + 1 + int i) mod 100 < sum_cpu_share ?t div 10) [0..<k]"
    by (rule Suc.IH) (use Suc.prems in simp_all)
  have m: "((queue_selector s + 1) mod 100 + 1 + int i) mod 100 = (queue_selector s + 1 + int (Suc i)) mod 100" for i
  proof -
    have "((queue_selector s + 1) mod 100 + (1 + int i)) mod 100 = ((queue_selector s + 1) + (1 + int i)) mod 100"
      by (rule mod_add_left_eq)
    then show ?thesis by (simp add: add.assoc)
  qed
  have "[0..<Suc k] = 0 # map Suc [0..<k]" by (simp add: upt_conv_Cons map_Suc_upt del: upt_Suc)
  then show ?case using IH Suc.prems
    by (simp add: select_nonempty Let_def split_def m del: upt_Suc)
qed simp

lemma residues_count:
  fixes a m :: int
  assumes "0 \<le> m" "m \<le> 100"
  shows "card {i. i < 100 \<and> (a + int i) mod 100 < m} = nat m"
proof -
  let ?A = "{i. i < 100 \<and> (a + int i) mod 100 < m}"
  have "bij_betw (\<lambda>i. nat ((a + int i) mod 100)) ?A {..<nat m}"
  proof (rule bij_betw_byWitness [where f' = "\<lambda>j. nat ((int j - a) mod 100)"])
    show "\<forall>i\<in>?A. nat ((int (nat ((a + int i) mod 100)) - a) mod 100) = i" by (simp add: mod_simps)
    show "\<forall>j\<in>{..<nat m}. nat ((a + int (nat ((int j - a) mod 100))) mod 100) = j"
      using assms by (simp add: mod_simps)
    show "(\<lambda>i. nat ((a + int i) mod 100)) ` ?A \<subseteq> {..<nat m}"
    proof (rule image_subsetI)
      fix i assume "i \<in> ?A"
      then have "0 \<le> (a + int i) mod 100" "(a + int i) mod 100 < m" by simp_all
      then show "nat ((a + int i) mod 100) \<in> {..<nat m}" by simp
    qed
    show "(\<lambda>j. nat ((int j - a) mod 100)) ` {..<nat m} \<subseteq> ?A"
      using assms by (auto simp: nat_less_iff mod_simps)
  qed
  then show ?thesis by (simp add: bij_betw_same_card)
qed

text \<open>
  C6. The split between the two schedulers is exact: whatever the counter's position, among
  any hundred consecutive decisions with a non-empty stride queue exactly
  \<open>sum_cpu_share / 10\<close> select the stride queue.
\<close>

theorem select_stride_or_MLFQ_share:
  assumes "stride_queue_size s \<noteq> 0" "0 \<le> sum_cpu_share s" "sum_cpu_share s \<le> 1000"
  shows "length (filter id (fst (select_rounds 100 s))) = nat (sum_cpu_share s div 10)"
proof -
  let ?f = "\<lambda>i. (queue_selector s + 1 + int i) mod 100 < sum_cpu_share s div 10"
  have "length (filter id (fst (select_rounds 100 s))) = length (filter ?f [0..<100])"
    by (simp only: select_rounds_eq [OF assms(1,2)] filter_map length_map o_def id_apply)
  also have "\<dots> = card {i. i < 100 \<and> ?f i}"
  proof -
    have "length (filter ?f [0..<100]) = card (set (filter ?f [0..<100]))"
      by (intro distinct_card [symmetric]) (simp only: distinct_filter distinct_upt)
    also have "set (filter ?f [0..<100]) = {i. i < 100 \<and> ?f i}" by (simp only: set_filter set_upt) auto
    finally show ?thesis .
  qed
  also have "\<dots> = nat (sum_cpu_share s div 10)" by (rule residues_count) (use assms in auto)
  finally show ?thesis .
qed

theorem select_stride_or_MLFQ_share_witness:
  "length (filter id (fst (select_rounds 100
     (table_of [(3, stride_proc RUNNABLE 100 0), (5, stride_proc RUNNABLE 155 0)])))) = 25"
proof -
  let ?s = "table_of [(3, stride_proc RUNNABLE 100 0), (5, stride_proc RUNNABLE 155 0)]"
  have "sum_cpu_share ?s = 255" by (simp add: table_of_def)
  then show ?thesis using select_stride_or_MLFQ_share [of ?s] by simp
qed

section \<open>CPU shares\<close>

text \<open>
  The accounting of shares: the total covers the shares of all processes and stays below the
  maximum, exactly the processes with a share are queued, and each has the stride of its share.
\<close>

definition shares_sum :: "ptable \<Rightarrow> int" where
  "shares_sum s = (\<Sum>i<NPROC. p_cpu_share (pt_proc s i))"

definition share_inv :: "ptable \<Rightarrow> bool" where
  "share_inv s \<longleftrightarrow> sq_wf s \<and> shares_sum s \<le> sum_cpu_share s \<and> sum_cpu_share s \<le> MAX_CPU_SHARE
     \<and> (\<forall>i<NPROC. 0 \<le> p_cpu_share (pt_proc s i)
          \<and> (p_cpu_share (pt_proc s i) \<noteq> 0 \<longleftrightarrow> Some i \<in> set (sq_list s))
          \<and> (p_cpu_share (pt_proc s i) \<noteq> 0 \<longrightarrow>
               p_stride (pt_proc s i) = word_of_int (cdiv NSTRIDE (p_cpu_share (pt_proc s i)))))"

lemma sq_room:
  assumes wf: "sq_wf s" and p: "p < NPROC" "Some p \<notin> set (sq_list s)"
  shows "stride_queue_size s < NPROC"
proof -
  have "set (sq_list s) \<subseteq> Some ` ({..<NPROC} - {p})"
    using sq_wf_D(1) [OF wf] p(2) by (fastforce simp: sq_list_mem)
  then have "card (set (sq_list s)) \<le> card (Some ` ({..<NPROC} - {p}))" by (intro card_mono) auto
  also have "\<dots> = NPROC - 1" using p by (simp add: card_image)
  also have "card (set (sq_list s)) = stride_queue_size s"
    using wf unfolding sq_wf_def by (auto simp: distinct_card) (simp add: sq_list_def)
  finally show ?thesis by simp
qed

text \<open>
  The accepted branch of the three share-setting functions, with the new total \<open>desired\<close>.
\<close>

definition grant :: "nat \<Rightarrow> int \<Rightarrow> int \<Rightarrow> int \<Rightarrow> (ptable, unit) K" where
  "grant p required original desired = (\<lambda>s.
     whenK (p_cpu_share (pt_proc s p) = 0) (stride_queue_push p)
       (set_share_fields p required original (s\<lparr>sum_cpu_share := desired\<rparr>)))"

definition same_threads :: "ptable \<Rightarrow> ptable \<Rightarrow> bool" where
  "same_threads s t \<longleftrightarrow> (\<forall>i. p_pid (pt_proc t i) = p_pid (pt_proc s i) \<and> p_tid (pt_proc t i) = p_tid (pt_proc s i)
     \<and> p_num_of_threads (pt_proc t i) = p_num_of_threads (pt_proc s i) \<and> p_state (pt_proc t i) = p_state (pt_proc s i))"

lemma heap_upto_cong:
  "\<forall>i. p_stride_count (P i) = p_stride_count (Q i) \<Longrightarrow> heap_upto P v n = heap_upto Q v n"
  using fun_cong [of "vkey P v" "vkey Q v"]
  by (subgoal_tac "vkey P v = vkey Q v") (auto simp: heap_upto_def vkey_def fun_eq_iff split: option.splits)

lemma set_share_fields_proc:
  "pt_proc (set_share_fields p required original s) =
     (pt_proc s)(p := (pt_proc s p)\<lparr>p_cpu_share := required, p_original_cpu_share := original,
                        p_stride := word_of_int (cdiv NSTRIDE required)\<rparr>)"
  by (simp add: set_share_fields_def)

lemma set_share_fields_other [simp]:
  "stride_queue (set_share_fields p required original s) = stride_queue s"
  "stride_queue_size (set_share_fields p required original s) = stride_queue_size s"
  "sum_cpu_share (set_share_fields p required original s) = sum_cpu_share s"
  "sq_wf (set_share_fields p required original s) = sq_wf s"
  "sq_list (set_share_fields p required original s) = sq_list s"
  by (simp_all add: set_share_fields_def)

lemma shares_sum_upd:
  assumes "p < NPROC" and "\<forall>i. i \<noteq> p \<longrightarrow> p_cpu_share (pt_proc t i) = p_cpu_share (pt_proc s i)"
  shows "shares_sum t = shares_sum s - p_cpu_share (pt_proc s p) + p_cpu_share (pt_proc t p)"
proof -
  have "shares_sum t = p_cpu_share (pt_proc t p) + (\<Sum>i\<in>{..<NPROC} - {p}. p_cpu_share (pt_proc t i))"
    "shares_sum s = p_cpu_share (pt_proc s p) + (\<Sum>i\<in>{..<NPROC} - {p}. p_cpu_share (pt_proc s i))"
    unfolding shares_sum_def by (rule sum.remove; use assms(1) in simp)+
  moreover have "(\<Sum>i\<in>{..<NPROC} - {p}. p_cpu_share (pt_proc t i)) = (\<Sum>i\<in>{..<NPROC} - {p}. p_cpu_share (pt_proc s i))"
    using assms(2) by (intro sum.cong) auto
  ultimately show ?thesis by simp
qed

lemma grant_ok:
  assumes inv: "share_inv s" and p: "p < NPROC" and r: "1 \<le> required" "required \<le> MAX_CPU_SHARE"
    and d: "desired = sum_cpu_share s - p_cpu_share (pt_proc s p) + required" "desired \<le> MAX_CPU_SHARE"
  shows "\<exists>t. grant p required original desired s = (Inr (), t) \<and> share_inv t \<and> same_threads s t
     \<and> sum_cpu_share t = desired \<and> p_cpu_share (pt_proc t p) = required
     \<and> p_original_cpu_share (pt_proc t p) = original
     \<and> (\<forall>i. i \<noteq> p \<longrightarrow> pt_proc t i = pt_proc s i) \<and> (sq_heap s \<longrightarrow> sq_heap t)"
proof -
  let ?s1 = "set_share_fields p required original (s\<lparr>sum_cpu_share := desired\<rparr>)"
  have wf: "sq_wf s" and sums: "shares_sum s \<le> sum_cpu_share s"
    and each: "\<And>i. i < NPROC \<Longrightarrow> 0 \<le> p_cpu_share (pt_proc s i)
          \<and> (p_cpu_share (pt_proc s i) \<noteq> 0 \<longleftrightarrow> Some i \<in> set (sq_list s))
          \<and> (p_cpu_share (pt_proc s i) \<noteq> 0 \<longrightarrow>
               p_stride (pt_proc s i) = word_of_int (cdiv NSTRIDE (p_cpu_share (pt_proc s i))))"
    using inv unfolding share_inv_def by blast+
  have wf1: "sq_wf ?s1" and l1: "sq_list ?s1 = sq_list s" using wf by simp_all
  have hp1: "sq_heap ?s1" if "sq_heap s"
    using that heap_upto_cong [of "pt_proc ?s1" "pt_proc s"] by (simp add: sq_heap_def set_share_fields_proc)
  obtain t where t: "grant p required original desired s = (Inr (), t)" "sq_wf t"
    "set (sq_list t) = insert (Some p) (set (sq_list s))" "sq_heap s \<longrightarrow> sq_heap t"
    "sum_cpu_share t = desired" "\<forall>i. i \<noteq> p \<longrightarrow> pt_proc t i = pt_proc s i"
    "\<exists>c. pt_proc t p = (pt_proc ?s1 p)\<lparr>p_stride_count := c\<rparr>"
  proof (cases "p_cpu_share (pt_proc s p) = 0")
    case True
    then have new: "Some p \<notin> set (sq_list ?s1)" using each [OF p] l1 by auto
    have room: "stride_queue_size ?s1 < NPROC" by (rule sq_room [OF wf1 p new])
    obtain t where t: "stride_queue_push p ?s1 = (Inr (), t)" "sq_wf t"
      "mset (sq_list t) = add_mset (Some p) (mset (sq_list ?s1))" "sq_heap ?s1 \<longrightarrow> sq_heap t"
      "sum_cpu_share t = sum_cpu_share ?s1" "\<forall>i. i \<noteq> p \<longrightarrow> pt_proc t i = pt_proc ?s1 i"
      "pt_proc t p = (pt_proc ?s1 p)\<lparr>p_stride_count := (case stride_queue ?s1 1 of None \<Rightarrow> p_stride_count (pt_proc ?s1 p)
        | Some r \<Rightarrow> p_stride_count (pt_proc ?s1 r))\<rparr>"
      by (rule stride_queue_push_ok [OF wf1 p new room]) blast
    have "set (sq_list t) = insert (Some p) (set (sq_list s))"
      using t(3) l1 by (metis set_mset_add_mset_insert set_mset_mset)
    moreover have "grant p required original desired s = (Inr (), t)" using t(1) True by (simp add: grant_def)
    moreover have "\<forall>i. i \<noteq> p \<longrightarrow> pt_proc t i = pt_proc s i" using t(6) by (simp add: set_share_fields_proc)
    moreover have "sum_cpu_share t = desired" using t(5) by simp
    ultimately show thesis using that [of t] t(2,4,7) hp1 by blast
  next
    case False
    then have "Some p \<in> set (sq_list s)" using each [OF p] by auto
    then have "set (sq_list ?s1) = insert (Some p) (set (sq_list s))" using l1 by auto
    moreover have "grant p required original desired s = (Inr (), ?s1)" using False by (simp add: grant_def)
    moreover have "\<forall>i. i \<noteq> p \<longrightarrow> pt_proc ?s1 i = pt_proc s i" by (simp add: set_share_fields_proc)
    moreover have "pt_proc ?s1 p = (pt_proc ?s1 p)\<lparr>p_stride_count := p_stride_count (pt_proc s p)\<rparr>"
      by (simp add: set_share_fields_proc)
    moreover have "sum_cpu_share ?s1 = desired" by simp
    ultimately show thesis using that [of ?s1] wf1 hp1 by blast
  qed
  have tp: "p_cpu_share (pt_proc t p) = required" "p_original_cpu_share (pt_proc t p) = original"
      "p_stride (pt_proc t p) = word_of_int (cdiv NSTRIDE required)"
    using t(7) by (auto simp: set_share_fields_proc)
  have "shares_sum t = shares_sum s - p_cpu_share (pt_proc s p) + required"
    using shares_sum_upd [OF p, of t s] t(6) tp by simp
  then have "shares_sum t \<le> desired" using sums d by simp
  moreover have "0 \<le> p_cpu_share (pt_proc t i)
          \<and> (p_cpu_share (pt_proc t i) \<noteq> 0 \<longleftrightarrow> Some i \<in> set (sq_list t))
          \<and> (p_cpu_share (pt_proc t i) \<noteq> 0 \<longrightarrow>
               p_stride (pt_proc t i) = word_of_int (cdiv NSTRIDE (p_cpu_share (pt_proc t i))))" if "i < NPROC" for i
    using each [OF that] t(3,6) tp r by (cases "i = p") auto
  ultimately have "share_inv t" using t(2,5) d unfolding share_inv_def by blast
  moreover have "same_threads s t" unfolding same_threads_def
  proof (intro allI)
    fix i show "p_pid (pt_proc t i) = p_pid (pt_proc s i) \<and> p_tid (pt_proc t i) = p_tid (pt_proc s i)
     \<and> p_num_of_threads (pt_proc t i) = p_num_of_threads (pt_proc s i) \<and> p_state (pt_proc t i) = p_state (pt_proc s i)"
      using t(6,7) by (cases "i = p") (auto simp: set_share_fields_proc)
  qed
  ultimately show ?thesis using t tp by blast
qed




text \<open>The call after the request has been accepted and the caller has its share.\<close>

lemma set_cpu_share_unfold:
  assumes "\<not> (p_tid (pt_proc s cur) = 0 \<and> p_num_of_threads (pt_proc s cur) = - 1)"
    and "required = (if p_tid (pt_proc s cur) = 0 \<and> p_num_of_threads (pt_proc s cur) \<noteq> 0
            then cdiv req (p_num_of_threads (pt_proc s cur) + 1) else req)"
    and "desired = sum_cpu_share s - p_cpu_share (pt_proc s cur) + required"
  shows "set_cpu_share cur req s =
    (if \<not> (1 \<le> required \<and> required \<le> MAX_CPU_SHARE) \<or> MAX_CPU_SHARE < desired then (Inr (- 1), s)
     else bindK (grant cur required required desired) (\<lambda>_.
       bindK (getK (\<lambda>s. p_tid (pt_proc s cur) = 0 \<and> p_num_of_threads (pt_proc s cur) \<noteq> 0)) (\<lambda>again.
       bindK (whenK again (forK [0..<NPROC] (\<lambda>t.
         bindK (getK (\<lambda>s. p_pid (pt_proc s t) = p_pid (pt_proc s cur) \<and> p_tid (pt_proc s t) \<noteq> 0)) (\<lambda>hit.
           whenK hit (bindK (set_cpu_share_other_threads cur required t) (\<lambda>r. whenK (r \<noteq> 0)
             (panicK ''(set_cpu_share) inserting threads to stride queue is failed.\<newline>''))))))) (\<lambda>_. retK 0))) s)"
  using assms(1) unfolding assms(2,3)
  by (auto simp: set_cpu_share_def grant_def Let_def bindK_apply simp del: upt_Suc upt_conv_Cons)






text \<open>
  C13. The panic does happen: when the part of the master thread fits under the maximum but
  the part of its first thread no longer does, the request is not refused with -1 but stops
  the kernel.
\<close>

theorem set_cpu_share_threads_panic:
  assumes inv: "share_inv s" and cur: "cur < NPROC" "p_tid (pt_proc s cur) = 0" "0 < p_num_of_threads (pt_proc s cur)"
    and required: "required = cdiv req (p_num_of_threads (pt_proc s cur) + 1)" "1 \<le> required" "required \<le> MAX_CPU_SHARE"
    and fits: "sum_cpu_share s - p_cpu_share (pt_proc s cur) + required \<le> MAX_CPU_SHARE"
    and x: "x < NPROC" "p_pid (pt_proc s x) = p_pid (pt_proc s cur)" "p_tid (pt_proc s x) \<noteq> 0"
    and first: "\<forall>y<x. \<not> (p_pid (pt_proc s y) = p_pid (pt_proc s cur) \<and> p_tid (pt_proc s y) \<noteq> 0)"
    and over: "MAX_CPU_SHARE < sum_cpu_share s - p_cpu_share (pt_proc s cur) + required - p_cpu_share (pt_proc s x) + required"
  shows "fst (set_cpu_share cur req s) =
     Inl (Panic ''(set_cpu_share) inserting threads to stride queue is failed.\<newline>'')"
proof -
  define d where "d = sum_cpu_share s - p_cpu_share (pt_proc s cur) + required"
  let ?body = "\<lambda>t. bindK (getK (\<lambda>s. p_pid (pt_proc s t) = p_pid (pt_proc s cur) \<and> p_tid (pt_proc s t) \<noteq> 0)) (\<lambda>hit.
           whenK hit (bindK (set_cpu_share_other_threads cur required t) (\<lambda>r. whenK (r \<noteq> 0)
             (panicK ''(set_cpu_share) inserting threads to stride queue is failed.\<newline>''))))"
  have nodiv: "\<not> (p_tid (pt_proc s cur) = 0 \<and> p_num_of_threads (pt_proc s cur) = - 1)" using cur by auto
  have req: "required = (if p_tid (pt_proc s cur) = 0 \<and> p_num_of_threads (pt_proc s cur) \<noteq> 0
            then cdiv req (p_num_of_threads (pt_proc s cur) + 1) else req)" using cur required by simp
  obtain t where t: "grant cur required required d s = (Inr (), t)" "same_threads s t" "sum_cpu_share t = d"
      "\<forall>i. i \<noteq> cur \<longrightarrow> pt_proc t i = pt_proc s i"
    using grant_ok [OF inv cur(1) required(2,3) d_def] fits d_def by blast
  have th: "p_pid (pt_proc t i) = p_pid (pt_proc s i)" "p_tid (pt_proc t i) = p_tid (pt_proc s i)"
    "p_num_of_threads (pt_proc t i) = p_num_of_threads (pt_proc s i)" for i
    using t(2) by (simp_all add: same_threads_def)
  have "x \<noteq> cur" using x cur by auto
  then have "set_cpu_share_other_threads cur required x t = (Inr (- 1), t)"
    using over t(3,4) cur(2) required(2,3) by (simp add: set_cpu_share_other_threads_def th d_def Let_def)
  then have px: "?body x t = (Inl (Panic ''(set_cpu_share) inserting threads to stride queue is failed.\<newline>''), t)"
    using x by (simp add: th bindK_apply)
  have "forK [0..<x] ?body t = (Inr (), t)"
    by (rule forK_skip) (use first in \<open>auto simp: th bindK_apply\<close>)
  moreover have "[0..<NPROC] = [0..<x] @ x # [Suc x..<NPROC]" using x(1)
    using upt_add_eq_append [of 0 x "NPROC - x"] upt_conv_Cons [of x NPROC] by simp
  ultimately have "forK [0..<NPROC] ?body t = (Inl (Panic ''(set_cpu_share) inserting threads to stride queue is failed.\<newline>''), t)"
    using px by (simp add: forK_append bindK_apply [of "forK [0..<x] ?body"] bindK_apply [of "?body x"] del: upt_Suc upt_conv_Cons)
  then show ?thesis
    unfolding set_cpu_share_unfold [OF nodiv req d_def] using t(1) required fits cur
    by (simp add: d_def th bindK_apply del: upt_Suc upt_conv_Cons)
qed

theorem set_cpu_share_threads_panic_witness:
  "fst (set_cpu_share 4 800 ((table_of [(3, stride_proc RUNNABLE 300 0)])\<lparr>pt_proc := (\<lambda>i.
     if i = 3 then stride_proc RUNNABLE 300 0
     else if i = 4 then proc_zero\<lparr>p_state := RUNNING, p_pid := 9, p_num_of_threads := 1\<rparr>
     else if i = 5 then proc_zero\<lparr>p_state := RUNNABLE, p_pid := 9, p_tid := 1\<rparr> else proc_zero)\<rparr>))
   = Inl (Panic ''(set_cpu_share) inserting threads to stride queue is failed.\<newline>'')"
proof -
  let ?P = "\<lambda>i::nat. if i = 3 then stride_proc RUNNABLE 300 0
     else if i = 4 then proc_zero\<lparr>p_state := RUNNING, p_pid := 9, p_num_of_threads := 1\<rparr>
     else if i = 5 then proc_zero\<lparr>p_state := RUNNABLE, p_pid := 9, p_tid := 1\<rparr> else proc_zero"
  let ?t = "table_of [(3, stride_proc RUNNABLE 300 0)]"
  have "sq_wf ?t" by (rule table_of_wf) simp_all
  then have wf: "sq_wf (?t\<lparr>pt_proc := ?P\<rparr>)" by (simp add: sq_wf_def)
  have sum: "sum_cpu_share ?t = 300" by (simp add: table_of_def)
  have "shares_sum (?t\<lparr>pt_proc := ?P\<rparr>) = (\<Sum>i<NPROC. if i = 3 then 300 else 0)"
    unfolding shares_sum_def by (intro sum.cong) (auto simp: proc_zero_def)
  also have "\<dots> = 300" by simp
  finally have "share_inv (?t\<lparr>pt_proc := ?P\<rparr>)" using wf sum
    by (simp add: share_inv_def proc_zero_def)
  then show ?thesis
    by (rule set_cpu_share_threads_panic [where x = 5 and required = 400]) (use sum in \<open>auto simp: proc_zero_def stride_proc_def\<close>)
qed

end
