(* ===== verification/Scheduler.thy ===== *)
theory Scheduler
  imports Stride_Share
begin

text \<open>
  The scheduler of \<open>proc.c\<close> and the tick accounting of \<open>trap.c\<close>, on the process table.

  \<open>scheduler\<close> never returns: it runs until it switches to a process, and continues there when
  the process switches back. It is cut at the switch. \<^term>\<open>sched_for\<close> is the inner loop from
  slot \<open>i\<close> on, \<open>sched_while\<close> the loop around it, and both end at the next \<open>swtch\<close> or at the end
  of the round; \<open>sched_after\<close> is the code between the return of \<open>swtch\<close> and the next iteration.
  \<open>ptable.lock\<close> is held throughout. The local variables \<open>choosing_stride_or_MLFQ\<close> and
  \<open>stride_is_selected\<close> are arguments.
\<close>

section \<open>The scheduler loop\<close>

datatype for_result =
    Dispatch nat bool    \<comment> \<open>switch to the process; whether the stride queue was selected\<close>
  | PassEnd bool bool    \<comment> \<open>the loop over the table ended, with the two local variables\<close>

text \<open>The first lines of the loop body: which of the two schedulers chooses.\<close>

definition sched_choose :: "bool \<Rightarrow> bool \<Rightarrow> ptable \<Rightarrow> bool \<times> bool \<times> ptable" where
  "sched_choose choosing stride_is_selected s =
     (if sum_cpu_share s = 0 then (False, False, s)
      else if choosing then (let (b, t) = select_stride_or_MLFQ s in (choosing, b, t))
      else (choosing, stride_is_selected, s))"

text \<open>A process of the feedback queue that may run at the current level.\<close>

definition mlfq_ready :: "ptable \<Rightarrow> nat \<Rightarrow> bool" where
  "mlfq_ready s i \<longleftrightarrow> p_state (pt_proc s i) = RUNNABLE \<and> p_cpu_share (pt_proc s i) = 0
     \<and> p_level_of_MLFQ (pt_proc s i) \<le> queue_level_at_most s"

definition mlfq_take :: "nat \<Rightarrow> ptable \<Rightarrow> ptable" where
  "mlfq_take i s =
     (let l = p_level_of_MLFQ (pt_proc s i);
          m = (if l < queue_level_at_most s then l else queue_level_at_most s)
      in s\<lparr>queue_level_at_most := m, min_of_run_proc_level := m\<rparr>)"

function sched_for :: "nat \<Rightarrow> bool \<Rightarrow> bool \<Rightarrow> (ptable, for_result) K" where
  "sched_for i choosing stride_is_selected s =
     (if i < NPROC then
        (case sched_choose choosing stride_is_selected s of
           (choosing1, True, s1) \<Rightarrow>
             (case find_idx_of_stride_to_run s1 of
                (Inl e, t) \<Rightarrow> (Inl e, t)
              | (Inr r, t) \<Rightarrow>
                  if r \<le> stride_queue_size t then
                    (case stride_queue t r of
                       None \<Rightarrow> (Inl NullPtr, t)
                     | Some p \<Rightarrow> (Inr (Dispatch p True), t))
                  else sched_for (i + 1) False False t)
         | (choosing1, False, s1) \<Rightarrow>
             if mlfq_ready s1 i then (Inr (Dispatch i False), mlfq_take i s1)
             else sched_for (i + 1) False False s1)
      else (Inr (PassEnd choosing stride_is_selected), s))"
  by pat_completeness auto
termination by (relation "measure (\<lambda>(i, _). NPROC - i)") auto

declare sched_for.simps [simp del]

text \<open>What choosing a process leaves alone, faults included.\<close>

definition choice_frame :: "ptable \<Rightarrow> ptable \<Rightarrow> bool" where
  "choice_frame s t \<longleftrightarrow>
     queue_level_at_most t = queue_level_at_most s \<and> min_of_run_proc_level t = min_of_run_proc_level s
     \<and> stride_queue_size t = stride_queue_size s \<and> MLFQ_tick_used t = MLFQ_tick_used s
     \<and> MLFQ_time_quantum t = MLFQ_time_quantum s
     \<and> (\<forall>i. p_state (pt_proc t i) = p_state (pt_proc s i) \<and> p_cpu_share (pt_proc t i) = p_cpu_share (pt_proc s i)
          \<and> p_level_of_MLFQ (pt_proc t i) = p_level_of_MLFQ (pt_proc s i))"

lemma choice_frame_refl [simp]: "choice_frame s s"
  by (simp add: choice_frame_def)

lemma choice_frame_trans: "choice_frame s t \<Longrightarrow> choice_frame t u \<Longrightarrow> choice_frame s u"
  by (simp add: choice_frame_def)

lemma heapify_down_loop_frame: "\<exists>q. snd (heapify_down_loop p i s) = s\<lparr>stride_queue := q\<rparr>"
proof (induction p i s rule: heapify_down_loop.induct)
  case (1 p i s)
  have refl: "\<exists>q. s = s\<lparr>stride_queue := q\<rparr>" by (rule exI [of _ "stride_queue s"]) simp
  show ?case
    by (subst heapify_down_loop.simps)
      (use 1 refl in \<open>auto simp: Let_def split: option.splits if_splits\<close>)
qed

lemma heapify_down_frame: "\<exists>q. snd (stride_queue_heapify_down i s) = s\<lparr>stride_queue := q\<rparr>"
proof -
  have refl: "\<exists>q. s = s\<lparr>stride_queue := q\<rparr>" by (rule exI [of _ "stride_queue s"]) simp
  obtain q where "snd (heapify_down_loop (stride_queue s i) i s) = s\<lparr>stride_queue := q\<rparr>"
    using heapify_down_loop_frame by blast
  then show ?thesis using refl
    by (auto simp: stride_queue_heapify_down_def Let_def split: prod.splits sum.splits)
qed

lemma find_idx_loop_frame: "choice_frame s (snd (find_idx_loop i s))"
proof (induction i s rule: find_idx_loop.induct)
  case (1 i s)
  show ?case
  proof (cases "0 < i \<and> i \<le> stride_queue_size s \<and> (\<exists>p. stride_queue s i = Some p \<and> p_state (pt_proc s p) = RUNNABLE)")
    case True
    then obtain p where p: "stride_queue s i = Some p" "p_state (pt_proc s p) = RUNNABLE" "0 < i" "i \<le> stride_queue_size s" by blast
    obtain q where "snd (stride_queue_heapify_down i (upd_proc p charge s)) = (upd_proc p charge s)\<lparr>stride_queue := q\<rparr>"
      using heapify_down_frame by blast
    then show ?thesis using p
      by (subst find_idx_loop.simps) (auto simp: choice_frame_def split: prod.splits sum.splits)
  next
    case False
    then show ?thesis
      by (subst find_idx_loop.simps) (use 1 in \<open>auto split: option.splits\<close>)
  qed
qed

lemma find_runnable_frame: "snd (find_runnable is d s) = s"
  by (induction "is") (auto split: option.splits)

lemma find_idx_frame: "choice_frame s (snd (find_idx_of_stride_to_run s))"
  using find_idx_loop_frame [of s 1]
  by (auto simp: find_idx_of_stride_to_run_def bindK_apply find_runnable_frame split: prod.splits sum.splits)

lemma select_frame: "choice_frame s (snd (select_stride_or_MLFQ s))"
  by (simp add: select_stride_or_MLFQ_def Let_def choice_frame_def)

lemma sched_choose_frame: "sched_choose c b s = (c', b', t) \<Longrightarrow> choice_frame s t"
  using select_frame [of s] by (auto simp: sched_choose_def split: if_splits prod.splits)

lemma sched_for_PassEnd_frame:
  "sched_for i c b s = (Inr (PassEnd c' b'), t) \<Longrightarrow> choice_frame s t"
proof (induction i c b s rule: sched_for.induct)
  case (1 i c b s)
  obtain c1 b1 s1 where ch: "sched_choose c b s = (c1, b1, s1)" by (metis prod_cases3)
  note f1 = sched_choose_frame [OF ch]
  obtain r t1 where f: "find_idx_of_stride_to_run s1 = (r, t1)" by fastforce
  have f2: "choice_frame s1 t1" using find_idx_frame [of s1] f by simp
  show ?case
    using 1 ch f f1 f2 choice_frame_trans [OF f1] choice_frame_trans [OF choice_frame_trans [OF f1 f2]]
    by (subst (asm) (3) sched_for.simps) (auto split: if_splits sum.splits option.splits bool.splits)
qed

text \<open>
  The loop over the levels, entered in the middle of a pass at slot \<open>i\<close>: the result is the
  process to switch to, or \<^const>\<open>None\<close> when the round is over and the lock is released.
\<close>

definition pass_end :: "ptable \<Rightarrow> ptable" where
  "pass_end s = (if min_of_run_proc_level s = NMLFQ - 1
                 then s\<lparr>queue_level_at_most := queue_level_at_most s + 1\<rparr> else s)"

function sched_while :: "nat \<Rightarrow> bool \<Rightarrow> bool \<Rightarrow> (ptable, (nat \<times> bool) option) K" where
  "sched_while i choosing stride_is_selected s =
     (case sched_for i choosing stride_is_selected s of
        (Inl e, t) \<Rightarrow> (Inl e, t)
      | (Inr (Dispatch p b), t) \<Rightarrow> (Inr (Some (p, b)), t)
      | (Inr (PassEnd c b), t) \<Rightarrow>
          if queue_level_at_most (pass_end t) < NMLFQ
          then sched_while 0 c b ((pass_end t)\<lparr>min_of_run_proc_level := NMLFQ - 1\<rparr>)
          else (Inr None, pass_end t))"
  by pat_completeness auto
termination
  by (relation "measure (\<lambda>(_, _, _, s). 2 * nat (NMLFQ - queue_level_at_most s)
         + (if min_of_run_proc_level s = NMLFQ - 1 then 0 else 1))")
    (auto dest!: sched_for_PassEnd_frame [OF sym] simp: choice_frame_def pass_end_def)

declare sched_while.simps [simp del]

text \<open>One round of \<open>for(;;)\<close> up to the first switch.\<close>

definition scheduler_round :: "bool \<Rightarrow> (ptable, (nat \<times> bool) option) K" where
  "scheduler_round stride_is_selected = (\<lambda>s.
     sched_while 0 True stride_is_selected
       (s\<lparr>queue_level_at_most := NMLFQ - 1, min_of_run_proc_level := NMLFQ - 1\<rparr>))"

text \<open>The switch to process \<open>p\<close>; the tick counter is saved before it.\<close>

definition sched_switch :: "nat \<Rightarrow> ptable \<Rightarrow> int \<times> ptable" where
  "sched_switch p s = (MLFQ_tick_used s, upd_proc p (\<lambda>x. x\<lparr>p_state := RUNNING\<rparr>) s)"

text \<open>
  After the return of \<open>swtch\<close>: the slot the inner loop looks at next and the new value of
  \<open>choosing_stride_or_MLFQ\<close>. A process of the feedback queue that used no tick is looked at again.
  \<open>p_mlfq\<close> is a copy of \<open>p\<close>, taken after \<open>p\<close> was set to the process of the stride queue, so
  that the loop goes on at the slot of that process.
\<close>

definition sched_after :: "nat \<Rightarrow> bool \<Rightarrow> int \<Rightarrow> ptable \<Rightarrow> nat \<times> bool" where
  "sched_after p stride_is_selected before s =
     (let rerun = (\<not> stride_is_selected \<and> sum_cpu_share s \<noteq> 0 \<and> p_state (pt_proc s p) = RUNNABLE
                   \<and> p_cpu_share (pt_proc s p) = 0 \<and> MLFQ_tick_used s = before)
      in (if rerun \<or> stride_is_selected then p else p + 1, \<not> rerun))"

definition sched_resume :: "nat \<Rightarrow> bool \<Rightarrow> int \<Rightarrow> (ptable, (nat \<times> bool) option) K" where
  "sched_resume p stride_is_selected before = (\<lambda>s.
     let (i, choosing) = sched_after p stride_is_selected before s
     in sched_while i choosing stride_is_selected s)"

section \<open>Tick accounting\<close>

text \<open>
  The part of \<open>trap\<close> after the interrupt has been handled, with \<open>cur\<close> for \<open>proc\<close> and \<open>timer\<close> for a
  timer interrupt: the boost, the tick counters, and at the end of a quantum the move to the
  next level. The result says whether \<open>yield\<close> is called.
\<close>

definition trap_tick :: "nat \<Rightarrow> (ptable, bool) K" where
  "trap_tick p =
     bindK (modK (upd_proc p (\<lambda>x. x\<lparr>p_tick_used := p_tick_used x + 1,
                                    p_time_quantum_used := p_time_quantum_used x + 1\<rparr>))) (\<lambda>_.
     bindK (getK (\<lambda>s. p_cpu_share (pt_proc s p))) (\<lambda>share.
     bindK (modK (if share = 0 then increase_MLFQ_tick_used else increase_stride_tick_used)) (\<lambda>_.
     bindK (get_time_quantum (Some p)) (\<lambda>q.
     bindK (getK (\<lambda>s. p_time_quantum_used (pt_proc s p))) (\<lambda>used.
     if q \<le> used then
       bindK (modK (upd_proc p (\<lambda>x. if p_level_of_MLFQ x < NMLFQ - 1
                                    then x\<lparr>p_level_of_MLFQ := p_level_of_MLFQ x + 1\<rparr> else x))) (\<lambda>_.
       bindK (modK (upd_proc p (\<lambda>x. x\<lparr>p_time_quantum_used := 0\<rparr>))) (\<lambda>_. retK True))
     else retK False)))))"

definition trap_accounting :: "nat option \<Rightarrow> bool \<Rightarrow> (ptable, bool) K" where
  "trap_accounting cur timer =
     bindK (modK (\<lambda>s. if 100 \<le> get_MLFQ_tick_used s then priority_boost s else s)) (\<lambda>_.
     case cur of
       None \<Rightarrow> retK False
     | Some p \<Rightarrow>
         bindK (getK (\<lambda>s. p_state (pt_proc s p) = RUNNING)) (\<lambda>running.
         if running \<and> timer then trap_tick p else retK False))"

section \<open>What a scheduling decision does\<close>

lemma sched_choose_idle [simp]: "sched_choose False False s = (False, False, s)"
  by (simp add: sched_choose_def)

text \<open>Once the feedback queue has been chosen, the pass takes the first ready slot.\<close>

lemma sched_for_mlfq:
  "sched_for i False False s =
     (case List.find (mlfq_ready s) [i..<NPROC] of
        None \<Rightarrow> (Inr (PassEnd False False), s)
      | Some j \<Rightarrow> (Inr (Dispatch j False), mlfq_take j s))"
proof (induction "NPROC - i" arbitrary: i)
  case 0
  then show ?case by (subst sched_for.simps) simp
next
  case (Suc n)
  then have IH: "sched_for (i + 1) False False s =
     (case List.find (mlfq_ready s) [i + 1..<NPROC] of
        None \<Rightarrow> (Inr (PassEnd False False), s)
      | Some j \<Rightarrow> (Inr (Dispatch j False), mlfq_take j s))" by simp
  have "[i..<NPROC] = i # [i + 1..<NPROC]" using Suc.hyps(2) by (simp add: upt_conv_Cons)
  moreover have "i < NPROC" using Suc.hyps(2) by simp
  ultimately show ?case using IH by (subst sched_for.simps) simp
qed

definition sched_stride_pick :: "(ptable, nat option) K" where
  "sched_stride_pick =
     bindK find_idx_of_stride_to_run (\<lambda>r.
     bindK (getK (\<lambda>s. (stride_queue_size s, stride_queue s r))) (\<lambda>(n, p).
     if r \<le> n then bindK (derefK p) (\<lambda>p. retK (Some p)) else retK None))"

text \<open>The inner loop in closed form: the choice, then the stride queue or the feedback queue.\<close>

lemma sched_for_eq:
  assumes "i < NPROC" and ch: "sched_choose c b s = (c1, b1, s1)"
  shows "sched_for i c b s =
    (if b1 then (case sched_stride_pick s1 of
        (Inl e, t) \<Rightarrow> (Inl e, t)
      | (Inr (Some p), t) \<Rightarrow> (Inr (Dispatch p True), t)
      | (Inr None, t) \<Rightarrow> sched_for (i + 1) False False t)
     else sched_for i False False s1)"
proof (cases b1)
  case True
  then show ?thesis using assms
    by (subst sched_for.simps) (auto simp: sched_stride_pick_def bindK_apply split: prod.splits sum.splits option.splits)
next
  case False
  have "sched_for i False False s1 = (if mlfq_ready s1 i then (Inr (Dispatch i False), mlfq_take i s1)
             else sched_for (i + 1) False False s1)"
    using assms(1) by (subst sched_for.simps) simp
  then show ?thesis using False assms by (subst sched_for.simps) simp
qed

lemma sched_for_no_share:
  assumes "i < NPROC" "sum_cpu_share s = 0"
  shows "sched_for i c b s = sched_for i False False s"
proof -
  have "sched_choose c b s = (False, False, s)" using assms by (simp add: sched_choose_def)
  from sched_for_eq [OF assms(1) this] show ?thesis by simp
qed

lemma stride_pick_ok:
  assumes wf: "sq_wf s" and n: "stride_queue_size s < NPROC"
  shows "\<exists>r t. sched_stride_pick s = (Inr r, t) \<and> sq_wf t \<and> choice_frame s t \<and> mset (sq_list t) = mset (sq_list s)
     \<and> (case r of None \<Rightarrow> t = s \<and> (\<forall>p. Some p \<in> set (sq_list s) \<longrightarrow> p_state (pt_proc s p) \<noteq> RUNNABLE)
         | Some p \<Rightarrow> Some p \<in> set (sq_list s) \<and> (\<exists>q. Some q \<in> set (sq_list s) \<and> p_state (pt_proc s q) = RUNNABLE))"
  using wf n
proof (cases rule: find_idx_cases)
  case (hit r p t)
  then have t: "sq_wf t" "mset (sq_list t) = mset (sq_list s)" "p_state (pt_proc s p) = RUNNABLE" "Some p \<in> set (sq_list s)"
    unfolding charged_def by blast+
  have sz: "stride_queue_size t = stride_queue_size s" using hit by (simp add: charged_D)
  obtain q where q: "stride_queue t r = Some q" using sq_wf_D(1) [OF t(1), of r] hit sz by auto
  then have "Some q \<in> set (sq_list t)" using hit sz by (auto simp: sq_list_mem)
  then have "Some q \<in> set (sq_list s)" using t(2) by (metis set_mset_mset)
  moreover have "choice_frame s t" using find_idx_frame [of s] hit by simp
  moreover have "sched_stride_pick s = (Inr (Some q), t)" using hit q sz by (simp add: sched_stride_pick_def)
  ultimately show ?thesis using t by auto
next
  case (scan r)
  then obtain q where q: "stride_queue s r = Some q" "p_state (pt_proc s q) = RUNNABLE"
    by (auto simp: runnable_at_def split: option.splits)
  then have "sched_stride_pick s = (Inr (Some q), s)" using scan by (simp add: sched_stride_pick_def)
  moreover have "Some q \<in> set (sq_list s)" using scan q by (auto simp: sq_list_mem)
  ultimately show ?thesis using q wf by auto
next
  case (none r)
  then have "sched_stride_pick s = (Inr None, s)" by (simp add: sched_stride_pick_def)
  then show ?thesis using wf none runnable_at_iff [of s] by auto
qed

lemma mlfq_ready_frame: "choice_frame s t \<Longrightarrow> mlfq_ready t i = mlfq_ready s i"
  by (simp add: mlfq_ready_def choice_frame_def)

text \<open>What a scheduling decision keeps: the queued processes and the fields it looks at.\<close>

definition sched_keeps :: "ptable \<Rightarrow> ptable \<Rightarrow> bool" where
  "sched_keeps s t \<longleftrightarrow> sq_wf t \<and> mset (sq_list t) = mset (sq_list s) \<and> stride_queue_size t = stride_queue_size s
     \<and> MLFQ_tick_used t = MLFQ_tick_used s
     \<and> (\<forall>i. p_state (pt_proc t i) = p_state (pt_proc s i) \<and> p_cpu_share (pt_proc t i) = p_cpu_share (pt_proc s i)
          \<and> p_level_of_MLFQ (pt_proc t i) = p_level_of_MLFQ (pt_proc s i))"

lemma sched_keeps_refl: "sq_wf s \<Longrightarrow> sched_keeps s s"
  by (simp add: sched_keeps_def)

lemma sched_keeps_trans: "sched_keeps s t \<Longrightarrow> sched_keeps t u \<Longrightarrow> sched_keeps s u"
  by (simp add: sched_keeps_def)

lemma sched_keeps_levels [simp]:
  "sched_keeps s (t\<lparr>queue_level_at_most := x\<rparr>) = sched_keeps s t"
  "sched_keeps s (t\<lparr>min_of_run_proc_level := y\<rparr>) = sched_keeps s t"
  "sched_keeps s (mlfq_take j t) = sched_keeps s t"
  "sched_keeps s (pass_end t) = sched_keeps s t"
  by (simp_all add: sched_keeps_def sq_wf_def sq_list_def mlfq_take_def pass_end_def Let_def)

lemma mlfq_take_level:
  "mlfq_ready s j \<Longrightarrow> queue_level_at_most (mlfq_take j s) = p_level_of_MLFQ (pt_proc s j)"
  "mlfq_ready s j \<Longrightarrow> min_of_run_proc_level (mlfq_take j s) = p_level_of_MLFQ (pt_proc s j)"
  by (auto simp: mlfq_take_def mlfq_ready_def Let_def)

definition for_ok :: "nat \<Rightarrow> bool \<Rightarrow> ptable \<Rightarrow> for_result \<Rightarrow> ptable \<Rightarrow> bool" where
  "for_ok i first s r t \<longleftrightarrow> sched_keeps s t \<and>
     (case r of
        Dispatch p True \<Rightarrow> Some p \<in> set (sq_list s)
          \<and> (\<exists>q. Some q \<in> set (sq_list s) \<and> p_state (pt_proc s q) = RUNNABLE)
      | Dispatch p False \<Rightarrow> i \<le> p \<and> p < NPROC \<and> mlfq_ready s p
          \<and> queue_level_at_most t = p_level_of_MLFQ (pt_proc s p)
          \<and> min_of_run_proc_level t = p_level_of_MLFQ (pt_proc s p)
          \<and> (\<forall>j. i \<le> j \<longrightarrow> j < p \<longrightarrow> (j = i \<longrightarrow> first) \<longrightarrow> \<not> mlfq_ready s j)
      | PassEnd c b \<Rightarrow> choice_frame s t \<and> (i < NPROC \<longrightarrow> \<not> c \<and> \<not> b)
          \<and> (\<forall>j. i \<le> j \<longrightarrow> j < NPROC \<longrightarrow> (j = i \<longrightarrow> first) \<longrightarrow> \<not> mlfq_ready s j))"

lemma sched_for_mlfq_ok:
  assumes "sq_wf s"
  shows "\<exists>r t. sched_for i False False s = (Inr r, t) \<and> for_ok i True s r t"
proof (cases "List.find (mlfq_ready s) [i..<NPROC]")
  case None
  then have "\<forall>j. i \<le> j \<longrightarrow> j < NPROC \<longrightarrow> \<not> mlfq_ready s j" by (simp add: find_None_iff)
  then show ?thesis using None assms by (simp add: sched_for_mlfq for_ok_def sched_keeps_refl)
next
  case (Some j)
  from find_upt_Some [OF Some] show ?thesis using Some assms
    by (simp add: sched_for_mlfq for_ok_def sched_keeps_refl mlfq_take_level)
qed

lemma sched_choose_keeps: "sched_choose c b s = (c', b', t) \<Longrightarrow> sq_wf s \<Longrightarrow> sched_keeps s t"
  by (auto simp: sched_choose_def select_stride_or_MLFQ_def Let_def sched_keeps_def sq_wf_def sq_list_def
      split: if_splits prod.splits)

lemma for_ok_shift:
  assumes "choice_frame s t" "sched_keeps s t" "for_ok i True t r u" "k \<le> i" "i \<le> Suc k" "first \<longrightarrow> i = k"
    and "\<And>c' b'. r = PassEnd c' b' \<Longrightarrow> \<not> c' \<and> \<not> b'"
  shows "for_ok k first s r u"
proof -
  have R: "mlfq_ready t j = mlfq_ready s j" for j by (rule mlfq_ready_frame [OF assms(1)])
  have L: "p_level_of_MLFQ (pt_proc t j) = p_level_of_MLFQ (pt_proc s j)" "p_state (pt_proc t j) = p_state (pt_proc s j)" for j
    using assms(1) by (simp_all add: choice_frame_def)
  have M: "set (sq_list t) = set (sq_list s)" using assms(2) unfolding sched_keeps_def by (metis set_mset_mset)
  have T: "sched_keeps t u" using assms(3) by (simp add: for_ok_def)
  have K: "sched_keeps s u" by (rule sched_keeps_trans [OF assms(2) T])
  show ?thesis
  proof (cases r)
    case (Dispatch p b)
    moreover have "\<not> mlfq_ready s j" if "\<not> b" "k \<le> j" "j < p" "j = k \<longrightarrow> first" for j
      using assms(3-6) Dispatch that by (cases "i \<le> j") (auto simp: for_ok_def R)
    ultimately show ?thesis using assms(3,4,5) K by (cases b) (auto simp: for_ok_def R L M)
  next
    case (PassEnd c b)
    then have "choice_frame s u" using assms(1,3) by (auto simp: for_ok_def intro: choice_frame_trans)
    moreover have "\<not> mlfq_ready s j" if "k \<le> j" "j < NPROC" "j = k \<longrightarrow> first" for j
      using assms(3-6) PassEnd that by (cases "i \<le> j") (auto simp: for_ok_def R)
    ultimately show ?thesis using K PassEnd assms(7) by (simp add: for_ok_def)
  qed
qed

lemma sched_for_end: "sched_for i False False s = (Inr (PassEnd c b), t) \<Longrightarrow> \<not> c \<and> \<not> b"
  by (auto simp: sched_for_mlfq split: option.splits)

lemma sched_for_ok:
  assumes wf: "sq_wf s" and n: "stride_queue_size s < NPROC"
  shows "\<exists>r t. sched_for i c b s = (Inr r, t) \<and> for_ok i (sum_cpu_share s = 0) s r t"
proof (cases "i < NPROC")
  case False
  then show ?thesis using wf by (subst sched_for.simps) (simp add: for_ok_def sched_keeps_refl)
next
  case True
  obtain c1 b1 s1 where ch: "sched_choose c b s = (c1, b1, s1)" by (metis prod_cases3)
  note f1 = sched_choose_frame [OF ch] and k1 = sched_choose_keeps [OF ch wf]
  have wf1: "sq_wf s1" "stride_queue_size s1 < NPROC" using k1 n by (simp_all add: sched_keeps_def)
  note eq = sched_for_eq [OF True ch]
  show ?thesis
  proof (cases b1)
    case False
    obtain r t where r: "sched_for i False False s1 = (Inr r, t)" "for_ok i True s1 r t"
      using sched_for_mlfq_ok [OF wf1(1)] by blast
    have "for_ok i (sum_cpu_share s = 0) s r t"
      by (rule for_ok_shift [OF f1 k1 r(2)]) (use r(1) in \<open>auto dest: sched_for_end\<close>)
    then show ?thesis using eq False r(1) by auto
  next
    case b1: True
    then have sum: "sum_cpu_share s \<noteq> 0" using ch by (auto simp: sched_choose_def split: if_splits)
    obtain r t where r: "sched_stride_pick s1 = (Inr r, t)" "sq_wf t" "choice_frame s1 t"
      "mset (sq_list t) = mset (sq_list s1)"
      "case r of None \<Rightarrow> t = s1 \<and> (\<forall>p. Some p \<in> set (sq_list s1) \<longrightarrow> p_state (pt_proc s1 p) \<noteq> RUNNABLE)
         | Some p \<Rightarrow> Some p \<in> set (sq_list s1) \<and> (\<exists>q. Some q \<in> set (sq_list s1) \<and> p_state (pt_proc s1 q) = RUNNABLE)"
      using stride_pick_ok [OF wf1] by blast
    have kt: "sched_keeps s1 t" using r by (simp add: sched_keeps_def choice_frame_def)
    note f2 = choice_frame_trans [OF f1 r(3)] and k2 = sched_keeps_trans [OF k1 kt]
    have M: "set (sq_list s1) = set (sq_list s)" using k1 unfolding sched_keeps_def by (metis set_mset_mset)
    show ?thesis
    proof (cases r)
      case None
      obtain r' u where u: "sched_for (i + 1) False False t = (Inr r', u)" "for_ok (i + 1) True t r' u"
        using sched_for_mlfq_ok [OF r(2)] by blast
      have "for_ok i (sum_cpu_share s = 0) s r' u"
        by (rule for_ok_shift [OF f2 k2 u(2)]) (use u(1) sum in \<open>auto dest: sched_for_end\<close>)
      then show ?thesis using eq b1 None r(1) u(1) by auto
    next
      case (Some p)
      moreover have "p_state (pt_proc s1 q) = p_state (pt_proc s q)" for q using f1 by (simp add: choice_frame_def)
      ultimately show ?thesis using eq b1 r(1,5) M k2 by (auto simp: for_ok_def)
    qed
  qed
qed

lemma sched_keeps_size: "sched_keeps s t \<Longrightarrow> sq_wf t \<and> stride_queue_size t = stride_queue_size s"
  by (simp add: sched_keeps_def)

lemma sched_keeps_queued: "sched_keeps s t \<Longrightarrow> set (sq_list t) = set (sq_list s)"
  unfolding sched_keeps_def by (metis set_mset_mset)

text \<open>The process switched to, seen from the table before the decision.\<close>

definition pick_ok :: "ptable \<Rightarrow> (nat \<times> bool) option \<Rightarrow> ptable \<Rightarrow> bool" where
  "pick_ok s r t \<longleftrightarrow>
     (case r of
        None \<Rightarrow> True
      | Some (p, True) \<Rightarrow> Some p \<in> set (sq_list s)
          \<and> (\<exists>q. Some q \<in> set (sq_list s) \<and> p_state (pt_proc s q) = RUNNABLE)
      | Some (p, False) \<Rightarrow> p < NPROC \<and> p_state (pt_proc s p) = RUNNABLE \<and> p_cpu_share (pt_proc s p) = 0
          \<and> queue_level_at_most t = p_level_of_MLFQ (pt_proc s p)
          \<and> min_of_run_proc_level t = p_level_of_MLFQ (pt_proc s p))"

lemma pick_ok_keeps:
  assumes "sched_keeps s t" "pick_ok t r u"
  shows "pick_ok s r u"
proof -
  have "p_state (pt_proc t i) = p_state (pt_proc s i)" "p_cpu_share (pt_proc t i) = p_cpu_share (pt_proc s i)"
    "p_level_of_MLFQ (pt_proc t i) = p_level_of_MLFQ (pt_proc s i)" for i
    using assms(1) by (simp_all add: sched_keeps_def)
  then show ?thesis using assms(2) 
    by (auto simp: pick_ok_def sched_keeps_queued [OF assms(1)] split: option.splits bool.splits)
qed

lemma sched_while_ok:
  assumes "sq_wf s" "stride_queue_size s < NPROC"
  shows "\<exists>r t. sched_while i c b s = (Inr r, t) \<and> sched_keeps s t \<and> pick_ok s r t"
  using assms
proof (induction i c b s rule: sched_while.induct)
  case (1 i c b s)
  obtain r t where r: "sched_for i c b s = (Inr r, t)" "for_ok i (sum_cpu_share s = 0) s r t"
    using sched_for_ok [OF 1(2,3)] by blast
  have k: "sched_keeps s t" using r(2) by (simp add: for_ok_def)
  show ?case
  proof (cases r)
    case (Dispatch p x)
    then show ?thesis using r k by (subst sched_while.simps) (auto simp: for_ok_def pick_ok_def mlfq_ready_def split: bool.splits)
  next
    case (PassEnd c' b')
    show ?thesis
    proof (cases "queue_level_at_most (pass_end t) < NMLFQ")
      case False
      then show ?thesis using r PassEnd k by (subst sched_while.simps) (simp add: pick_ok_def)
    next
      case True
      let ?t = "(pass_end t)\<lparr>min_of_run_proc_level := NMLFQ - 1\<rparr>"
      have kt: "sched_keeps s ?t" using k by simp
      have "\<exists>r u. sched_while 0 c' b' ?t = (Inr r, u) \<and> sched_keeps ?t u \<and> pick_ok ?t r u"
        by (rule 1(1) [OF r(1) [symmetric] refl PassEnd True])
          (use sched_keeps_size [OF kt] 1(3) in simp_all)
      then obtain r' u where u: "sched_while 0 c' b' ?t = (Inr r', u)" "sched_keeps ?t u" "pick_ok ?t r' u" by blast
      have "sched_while i c b s = (Inr r', u)" using r(1) PassEnd True u(1) by (subst sched_while.simps) simp
      then show ?thesis using sched_keeps_trans [OF kt u(2)] pick_ok_keeps [OF kt u(3)] by blast
    qed
  qed
qed

text \<open>
  C14. Every scheduling decision returns without a fault on a well-formed stride queue, started
  or resumed at any point of the loops, and keeps the queued processes and all process states.
  A process taken from the feedback queue is \<open>RUNNABLE\<close>, has no CPU share, and its level
  becomes the bound for the rest of the round; a process taken from the stride queue is
  queued, and some queued process is \<open>RUNNABLE\<close>.
\<close>

theorem sched_while_correct:
  assumes "sq_wf s" "stride_queue_size s < NPROC"
  shows "\<exists>r t. sched_while i choosing stride_is_selected s = (Inr r, t) \<and> sched_keeps s t \<and>
     (case r of
        None \<Rightarrow> True
      | Some (p, True) \<Rightarrow> Some p \<in> set (sq_list s)
          \<and> (\<exists>q. Some q \<in> set (sq_list s) \<and> p_state (pt_proc s q) = RUNNABLE)
      | Some (p, False) \<Rightarrow> p < NPROC \<and> p_state (pt_proc s p) = RUNNABLE \<and> p_cpu_share (pt_proc s p) = 0
          \<and> queue_level_at_most t = p_level_of_MLFQ (pt_proc s p)
          \<and> min_of_run_proc_level t = p_level_of_MLFQ (pt_proc s p))"
  using sched_while_ok [OF assms] unfolding pick_ok_def .

theorem sched_while_correct_witness:
  "\<exists>r t. sched_while 0 True False (table_of [(3, stride_proc RUNNABLE 100 0)]) = (Inr r, t)
     \<and> sched_keeps (table_of [(3, stride_proc RUNNABLE 100 0)]) t"
proof -
  have "sq_wf (table_of [(3, stride_proc RUNNABLE 100 0)])" by (rule table_of_wf) simp_all
  from sched_while_correct [OF this, of 0 True False] show ?thesis by auto
qed

text \<open>
  C15. A round wastes no turn of the feedback queue: it switches to some process whenever a
  process without CPU share is \<open>RUNNABLE\<close> at a level of the queue in a slot other than 0, and
  also in slot 0 when no process holds a CPU share.
\<close>

theorem scheduler_round_progress:
  assumes wf: "sq_wf s" "stride_queue_size s < NPROC" and j: "j < NPROC" "j \<noteq> 0 \<or> sum_cpu_share s = 0"
    and ready: "p_state (pt_proc s j) = RUNNABLE" "p_cpu_share (pt_proc s j) = 0" "p_level_of_MLFQ (pt_proc s j) \<le> NMLFQ - 1"
  shows "\<exists>p b t. scheduler_round stride_is_selected s = (Inr (Some (p, b)), t)"
proof -
  let ?s = "s\<lparr>queue_level_at_most := NMLFQ - 1, min_of_run_proc_level := NMLFQ - 1\<rparr>"
  have wfs: "sq_wf ?s" "stride_queue_size ?s < NPROC" using wf by (simp_all add: sq_wf_def sq_list_def)
  obtain r t where r: "sched_for 0 True stride_is_selected ?s = (Inr r, t)" "for_ok 0 (sum_cpu_share ?s = 0) ?s r t"
    using sched_for_ok [OF wfs] by blast
  have "mlfq_ready ?s j" using ready by (simp add: mlfq_ready_def)
  then have "\<nexists>c b. r = PassEnd c b" using r(2) j by (auto simp: for_ok_def)
  then obtain p b where "r = Dispatch p b" by (cases r) auto
  then show ?thesis using r(1) by (simp add: scheduler_round_def sched_while.simps)
qed

theorem scheduler_round_progress_witness:
  "\<exists>p b t. scheduler_round False
     ((table_of [])\<lparr>pt_proc := (\<lambda>i. if i = 7 then proc_zero\<lparr>p_state := RUNNABLE\<rparr> else proc_zero)\<rparr>) = (Inr (Some (p, b)), t)"
proof (rule scheduler_round_progress [where j = 7])
  have "sq_wf (table_of [])" by (rule table_of_wf) simp_all
  then show "sq_wf ((table_of [])\<lparr>pt_proc := (\<lambda>i. if i = 7 then proc_zero\<lparr>p_state := RUNNABLE\<rparr> else proc_zero)\<rparr>)"
    by (simp add: sq_wf_def)
qed (simp_all add: proc_zero_def)

text \<open>
  C16. Within a pass the feedback queue is served round robin and by level: when no process
  holds a share and slot \<open>j\<close> is ready at the current bound, the pass continued at slot \<open>i \<le> j\<close>
  switches to the first ready slot from \<open>i\<close> on, which is not beyond \<open>j\<close> and not above the bound,
  and the bound drops to its level.
\<close>

theorem sched_while_round_robin:
  assumes wf: "sq_wf s" "stride_queue_size s < NPROC" and none: "sum_cpu_share s = 0"
    and j: "i \<le> j" "j < NPROC" "mlfq_ready s j"
  shows "\<exists>p t. sched_while i choosing stride_is_selected s = (Inr (Some (p, False)), t)
     \<and> i \<le> p \<and> p \<le> j \<and> mlfq_ready s p \<and> (\<forall>k. i \<le> k \<longrightarrow> k < p \<longrightarrow> \<not> mlfq_ready s k)
     \<and> p_level_of_MLFQ (pt_proc s p) \<le> queue_level_at_most s
     \<and> queue_level_at_most t = p_level_of_MLFQ (pt_proc s p)"
proof -
  have i: "i < NPROC" using j by simp
  note eq = sched_for_no_share [OF i none]
  obtain p where p: "List.find (mlfq_ready s) [i..<NPROC] = Some p"
    using j by (cases "List.find (mlfq_ready s) [i..<NPROC]") (auto simp: find_None_iff)
  note P = find_upt_Some [OF p]
  have "p \<le> j" using P j by (meson not_le)
  moreover have "sched_while i choosing stride_is_selected s = (Inr (Some (p, False)), mlfq_take p s)"
    using p by (subst sched_while.simps) (simp add: eq sched_for_mlfq)
  moreover have "queue_level_at_most (mlfq_take p s) = p_level_of_MLFQ (pt_proc s p)"
    using P by (intro mlfq_take_level) simp
  moreover have "p_level_of_MLFQ (pt_proc s p) \<le> queue_level_at_most s" using P by (simp add: mlfq_ready_def)
  ultimately show ?thesis using P by blast
qed

theorem sched_while_round_robin_witness:
  "let s = (table_of [])\<lparr>pt_proc := (\<lambda>i. if i = 7 \<or> i = 9 then proc_zero\<lparr>p_state := RUNNABLE\<rparr> else proc_zero)\<rparr>
   in \<exists>p t. sched_while 8 True False s = (Inr (Some (p, False)), t) \<and> 8 \<le> p \<and> p \<le> 9"
proof -
  let ?s = "(table_of [])\<lparr>pt_proc := (\<lambda>i. if i = 7 \<or> i = 9 then proc_zero\<lparr>p_state := RUNNABLE\<rparr> else proc_zero)\<rparr>"
  have "sq_wf (table_of [])" by (rule table_of_wf) simp_all
  then have "sq_wf ?s" by (simp add: sq_wf_def)
  from sched_while_round_robin [OF this, of 8 9 True False] show ?thesis
    by (auto simp: mlfq_ready_def proc_zero_def table_of_def ptable_zero_def)
qed

text \<open>
  C37. A round does not start with the highest priority. With no shares, it switches to the
  lowest \<open>RUNNABLE\<close> slot whatever its level, so that a process of the last level runs although
  one of the first level is \<open>RUNNABLE\<close>.
\<close>

theorem scheduler_round_ignores_priority:
  assumes wf: "sq_wf s" "stride_queue_size s < NPROC" and none: "sum_cpu_share s = 0" "p_cpu_share (pt_proc s j) = 0"
    and j: "j < NPROC" "p_state (pt_proc s j) = RUNNABLE" "p_level_of_MLFQ (pt_proc s j) \<le> NMLFQ - 1"
    and first: "\<forall>k<j. p_state (pt_proc s k) \<noteq> RUNNABLE"
  shows "\<exists>t. scheduler_round stride_is_selected s = (Inr (Some (j, False)), t)"
proof -
  let ?s = "s\<lparr>queue_level_at_most := NMLFQ - 1, min_of_run_proc_level := NMLFQ - 1\<rparr>"
  have wfs: "sq_wf ?s" using wf by (simp add: sq_wf_def sq_list_def)
  have "mlfq_ready ?s j" using j none by (simp add: mlfq_ready_def)
  moreover have "\<not> mlfq_ready ?s k" if "k < j" for k using first that by (simp add: mlfq_ready_def)
  ultimately have "List.find (mlfq_ready ?s) [0..<NPROC] = Some j"
    using j(1) by (intro find_upt_first) auto
  moreover have "sched_for 0 True stride_is_selected ?s = sched_for 0 False False ?s"
    by (rule sched_for_no_share) (use none in simp_all)
  ultimately show ?thesis unfolding scheduler_round_def by (subst sched_while.simps) (simp add: sched_for_mlfq)
qed

theorem scheduler_round_ignores_priority_witness:
  "\<exists>t. scheduler_round False ((table_of [])\<lparr>pt_proc := (\<lambda>i.
      if i = 2 then proc_zero\<lparr>p_state := RUNNABLE, p_level_of_MLFQ := 2\<rparr>
      else if i = 3 then proc_zero\<lparr>p_state := RUNNABLE, p_level_of_MLFQ := 0\<rparr> else proc_zero)\<rparr>)
    = (Inr (Some (2, False)), t)"
proof (rule scheduler_round_ignores_priority)
  have "sq_wf (table_of [])" by (rule table_of_wf) simp_all
  then show "sq_wf ((table_of [])\<lparr>pt_proc := (\<lambda>i.
      if i = 2 then proc_zero\<lparr>p_state := RUNNABLE, p_level_of_MLFQ := 2\<rparr>
      else if i = 3 then proc_zero\<lparr>p_state := RUNNABLE, p_level_of_MLFQ := 0\<rparr> else proc_zero)\<rparr>)"
    by (simp add: sq_wf_def)
qed (auto simp: proc_zero_def table_of_def ptable_zero_def)

text \<open>
  C36. The scheduler can switch to a sleeping process. When the \<open>RUNNABLE\<close> process found moves
  down the heap, the slot returned holds another process, and that one is started although
  it is \<open>SLEEPING\<close> and was not charged.
\<close>

theorem scheduler_runs_sleeping_process:
  "\<exists>t. sched_for 0 True False (table_of [(3, stride_proc RUNNABLE 100 0), (5, stride_proc SLEEPING 200 500)])
       = (Inr (Dispatch 5 True), t) \<and> p_state (pt_proc t 5) = SLEEPING
       \<and> p_stride_count (pt_proc t 5) = 500 \<and> p_stride_count (pt_proc t 3) = 1000"
proof -
  let ?s = "table_of [(3, stride_proc RUNNABLE 100 0), (5, stride_proc SLEEPING 200 500)]"
  let ?s1 = "?s\<lparr>queue_selector := 0\<rparr>"
  let ?u = "upd_proc 3 charge ?s1"
  let ?t = "?u\<lparr>stride_queue := (stride_queue ?s)(1 := Some 5, 2 := Some 3)\<rparr>"
  have ch: "sched_choose True False ?s = (True, True, ?s1)"
    by (simp add: sched_choose_def select_stride_or_MLFQ_def Let_def table_of_def ptable_zero_def)
  have "heapify_down_loop (Some 3) 1 ?u = (Inr 2, ?u\<lparr>stride_queue := (stride_queue ?s)(1 := Some 5)\<rparr>)"
    by (subst heapify_down_loop.simps) (simp add: scount_def)
  then have "stride_queue_heapify_down 1 ?u = (Inr (), ?t)"
    by (simp add: stride_queue_heapify_down_def)
  then have "find_idx_loop 1 ?s1 = (Inr 1, ?t)" by (subst find_idx_loop.simps) simp
  then have "sched_stride_pick ?s1 = (Inr (Some 5), ?t)"
    by (simp add: sched_stride_pick_def find_idx_of_stride_to_run_def)
  then have "sched_for 0 True False ?s = (Inr (Dispatch 5 True), ?t)"
    using sched_for_eq [OF _ ch, of 0] by simp
  then show ?thesis by simp
qed

section \<open>The feedback queue under timer interrupts\<close>

text \<open>
  The quanta are those of \<open>pinit\<close>, the tick counter never passes 100, every level is one of
  the three, and no process has used up its quantum.
\<close>

definition mlfq_inv :: "ptable \<Rightarrow> bool" where
  "mlfq_inv s \<longleftrightarrow>
     MLFQ_time_quantum s 0 = 5 \<and> MLFQ_time_quantum s 1 = 10 \<and> MLFQ_time_quantum s 2 = 20
     \<and> stride_time_quantum s = 1 \<and> 0 \<le> MLFQ_tick_used s \<and> MLFQ_tick_used s \<le> 100
     \<and> (\<forall>i<NPROC. let p = pt_proc s i in
          0 \<le> p_level_of_MLFQ p \<and> p_level_of_MLFQ p < NMLFQ \<and> 0 \<le> p_time_quantum_used p
          \<and> p_time_quantum_used p < MLFQ_time_quantum s (nat (p_level_of_MLFQ p)))"

lemma mlfq_inv_D:
  assumes "mlfq_inv s" "i < NPROC"
  shows "0 \<le> p_level_of_MLFQ (pt_proc s i)" "p_level_of_MLFQ (pt_proc s i) < NMLFQ"
    "0 \<le> p_time_quantum_used (pt_proc s i)"
    "p_time_quantum_used (pt_proc s i) < MLFQ_time_quantum s (nat (p_level_of_MLFQ (pt_proc s i)))"
  using assms unfolding mlfq_inv_def Let_def by blast+

lemma quantum_of_level:
  assumes "mlfq_inv s" "0 \<le> l" "l < NMLFQ"
  shows "MLFQ_time_quantum s (nat l) = 5 * 2 ^ nat l"
proof -
  have "l = 0 \<or> l = 1 \<or> l = 2" using assms by auto
  then show ?thesis using assms(1) by (auto simp: mlfq_inv_def)
qed

lemma mlfq_inv_init: "mlfq_inv (ptable_init ptable_zero)"
  by (simp add: mlfq_inv_def ptable_init_def ptable_zero_def proc_zero_def upt_rec)

text \<open>The effect of one timer tick on the running process, without a boost.\<close>

lemma trap_tick_eq:
  assumes inv: "mlfq_inv s" and p: "p < NPROC"
    and x: "x = pt_proc s p" and q: "q = (if p_cpu_share x \<noteq> 0 then 1 else 5 * 2 ^ nat (p_level_of_MLFQ x))"
  shows "trap_tick p s = (Inr (q \<le> p_time_quantum_used x + 1),
     (upd_proc p (\<lambda>x. x\<lparr>p_tick_used := p_tick_used x + 1,
          p_time_quantum_used := (if q \<le> p_time_quantum_used x + 1 then 0 else p_time_quantum_used x + 1),
          p_level_of_MLFQ := (if q \<le> p_time_quantum_used x + 1 \<and> p_level_of_MLFQ x < NMLFQ - 1
                              then p_level_of_MLFQ x + 1 else p_level_of_MLFQ x)\<rparr>) s)
       \<lparr>MLFQ_tick_used := (if p_cpu_share x = 0 then MLFQ_tick_used s + 1 else MLFQ_tick_used s),
        stride_tick_used := (if p_cpu_share x = 0 then stride_tick_used s else stride_tick_used s + 1)\<rparr>)"
proof -
  have l: "0 \<le> p_level_of_MLFQ x" "p_level_of_MLFQ x < 3" using mlfq_inv_D [OF inv p] x by simp_all
  have Q: "MLFQ_time_quantum s (nat (p_level_of_MLFQ x)) = 5 * 2 ^ nat (p_level_of_MLFQ x)"
    by (rule quantum_of_level [OF inv]) (use l in simp_all)
  have st: "stride_time_quantum s = 1" using inv by (simp add: mlfq_inv_def)
  show ?thesis using l Q st unfolding x q
    by (auto simp: trap_tick_def get_time_quantum_def increase_MLFQ_tick_used_def increase_stride_tick_used_def
        upd_proc_def bindK_apply Let_def intro!: ptable.equality ext proc.equality)
qed

lemma mlfq_inv_boost: "mlfq_inv s \<Longrightarrow> mlfq_inv (priority_boost s)"
  by (simp add: mlfq_inv_def priority_boost_eq)

lemma mlfq_inv_tick:
  assumes inv: "mlfq_inv s" and p: "p < NPROC" and n: "MLFQ_tick_used s < 100"
  shows "mlfq_inv (snd (trap_tick p s))"
proof -
  define x where "x = pt_proc s p"
  define q where "q = (if p_cpu_share x \<noteq> 0 then 1 else (5::int) * 2 ^ nat (p_level_of_MLFQ x))"
  note D = mlfq_inv_D [OF inv p, folded x_def]
  have u: "p_time_quantum_used x < 5 * 2 ^ nat (p_level_of_MLFQ x)"
    using D quantum_of_level [OF inv] by simp
  have up: "5 * 2 ^ nat (p_level_of_MLFQ x) \<le> (5::int) * 2 ^ nat (p_level_of_MLFQ x + 1)"
    using D by (simp add: nat_add_distrib)
  show ?thesis unfolding mlfq_inv_def
  proof (intro conjI allI impI)
    fix i assume "i < NPROC"
    have z: "0 < MLFQ_time_quantum s (nat l)" if "0 \<le> l" "l < 3" for l
      using quantum_of_level [OF inv] that by simp
    have Q: "MLFQ_time_quantum s (nat (p_level_of_MLFQ x)) = 5 * 2 ^ nat (p_level_of_MLFQ x)"
      using D by (intro quantum_of_level [OF inv])
    show "let y = pt_proc (snd (trap_tick p s)) i in
          0 \<le> p_level_of_MLFQ y \<and> p_level_of_MLFQ y < NMLFQ \<and> 0 \<le> p_time_quantum_used y
          \<and> p_time_quantum_used y < MLFQ_time_quantum (snd (trap_tick p s)) (nat (p_level_of_MLFQ y))"
      using D u mlfq_inv_D [OF inv \<open>i < NPROC\<close>] z [of "p_level_of_MLFQ x + 1"] z [of "p_level_of_MLFQ x"] Q
      unfolding trap_tick_eq [OF inv p x_def q_def] by (auto simp: x_def q_def Let_def)
  qed (use inv n in \<open>auto simp: trap_tick_eq [OF inv p x_def q_def] mlfq_inv_def\<close>)
qed

text \<open>
  C17. The feedback queue under interrupts. From the table that \<open>pinit\<close> leaves, every trap keeps
  the levels within the three queues, every process short of its quantum, and the number of
  ticks since the last boost at most 100; no trap faults.
\<close>

theorem trap_accounting_invariant:
  assumes inv: "mlfq_inv s" and p: "\<forall>p. cur = Some p \<longrightarrow> p < NPROC"
  shows "\<exists>y t. trap_accounting cur timer s = (Inr y, t) \<and> mlfq_inv t"
proof -
  define b where "b = (if 100 \<le> MLFQ_tick_used s then priority_boost s else s)"
  have b: "mlfq_inv b" "MLFQ_tick_used b < 100"
    using inv mlfq_inv_boost by (auto simp: b_def priority_boost_eq)
  have run: "trap_accounting cur timer s = (case cur of None \<Rightarrow> (Inr False, b)
     | Some p \<Rightarrow> if p_state (pt_proc b p) = RUNNING \<and> timer then trap_tick p b else (Inr False, b))"
    by (simp add: trap_accounting_def b_def get_MLFQ_tick_used_def split: option.split)
  show ?thesis
  proof (cases cur)
    case (Some k)
    have k: "k < NPROC" using p Some by simp
    show ?thesis using run Some b mlfq_inv_tick [OF b(1) k b(2)] trap_tick_eq [OF b(1) k refl refl]
      by (cases "p_state (pt_proc b k) = RUNNING \<and> timer") auto
  qed (use run b in auto)
qed

theorem trap_accounting_invariant_witness:
  "\<exists>y t. trap_accounting (Some 4) True (ptable_init ptable_zero) = (Inr y, t) \<and> mlfq_inv t"
  by (rule trap_accounting_invariant [OF mlfq_inv_init]) simp

text \<open>
  C18. One timer tick of a running process, exactly: it is counted to the process and to its
  scheduler; when the quantum of its level (5, 10 or 20 ticks, or one tick with a CPU share)
  is used up, the process yields and moves one level down unless it is at the last one;
  otherwise it keeps running. No other process changes.
\<close>

theorem trap_accounting_tick:
  assumes inv: "mlfq_inv s" and p: "p < NPROC" "p_state (pt_proc s p) = RUNNING" and n: "MLFQ_tick_used s < 100"
    and q: "q = (if p_cpu_share (pt_proc s p) \<noteq> 0 then 1 else 5 * 2 ^ nat (p_level_of_MLFQ (pt_proc s p)))"
    and x: "x = pt_proc s p"
  shows "\<exists>y t. trap_accounting (Some p) True s = (Inr y, t) \<and> (y \<longleftrightarrow> q \<le> p_time_quantum_used x + 1)
     \<and> p_tick_used (pt_proc t p) = p_tick_used x + 1
     \<and> p_time_quantum_used (pt_proc t p) = (if y then 0 else p_time_quantum_used x + 1)
     \<and> p_level_of_MLFQ (pt_proc t p) = (if y then min (NMLFQ - 1) (p_level_of_MLFQ x + 1) else p_level_of_MLFQ x)
     \<and> MLFQ_tick_used t = MLFQ_tick_used s + (if p_cpu_share x = 0 then 1 else 0)
     \<and> stride_tick_used t = stride_tick_used s + (if p_cpu_share x = 0 then 0 else 1)
     \<and> (\<forall>i. i \<noteq> p \<longrightarrow> pt_proc t i = pt_proc s i)"
proof -
  have "trap_accounting (Some p) True s = trap_tick p s"
    using n p by (simp add: trap_accounting_def get_MLFQ_tick_used_def)
  then show ?thesis
    using trap_tick_eq [OF inv p(1) x q [folded x]] mlfq_inv_D(2) [OF inv p(1)] x
    by (intro exI conjI) auto
qed

theorem trap_accounting_tick_witness:
  "let s = (ptable_init ptable_zero)\<lparr>pt_proc := (\<lambda>i. if i = 4
         then proc_zero\<lparr>p_state := RUNNING, p_time_quantum_used := 4\<rparr> else proc_zero)\<rparr>
   in \<exists>t. trap_accounting (Some 4) True s = (Inr True, t) \<and> p_level_of_MLFQ (pt_proc t 4) = 1"
proof -
  let ?s = "(ptable_init ptable_zero)\<lparr>pt_proc := (\<lambda>i. if i = 4
         then proc_zero\<lparr>p_state := RUNNING, p_time_quantum_used := 4\<rparr> else proc_zero)\<rparr>"
  have "mlfq_inv ?s" by (simp add: mlfq_inv_def ptable_init_def ptable_zero_def proc_zero_def upt_rec)
  from trap_accounting_tick [OF this _ _ _ refl refl, of 4] show ?thesis
    by (auto simp: Let_def proc_zero_def ptable_init_def)
qed

text \<open>
  C19. No process starves in a lower queue: the first trap after 100 ticks of the feedback queue
  puts every process back into the first level with a fresh quantum, except that a running
  process that is interrupted by the timer is charged its tick afterwards, and restarts the
  tick counter.
\<close>

theorem trap_accounting_boost:
  assumes inv: "mlfq_inv s" and n: "MLFQ_tick_used s = 100" and p: "\<forall>p. cur = Some p \<longrightarrow> p < NPROC"
  shows "\<exists>y t. trap_accounting cur timer s = (Inr y, t) \<and> MLFQ_tick_used t \<le> 1
     \<and> (\<forall>i<NPROC. cur \<noteq> Some i \<longrightarrow> p_level_of_MLFQ (pt_proc t i) = 0 \<and> p_time_quantum_used (pt_proc t i) = 0)
     \<and> (\<forall>i<NPROC. p_cpu_share (pt_proc s i) = 0 \<longrightarrow> p_level_of_MLFQ (pt_proc t i) = 0 \<and> p_time_quantum_used (pt_proc t i) \<le> 1)"
proof -
  let ?b = "priority_boost s"
  have b: "mlfq_inv ?b" by (rule mlfq_inv_boost [OF inv])
  have run: "trap_accounting cur timer s = (case cur of None \<Rightarrow> (Inr False, ?b)
     | Some p \<Rightarrow> if p_state (pt_proc ?b p) = RUNNING \<and> timer then trap_tick p ?b else (Inr False, ?b))"
    using n by (simp add: trap_accounting_def get_MLFQ_tick_used_def split: option.split)
  have z: "MLFQ_tick_used ?b = 0" "\<forall>i<NPROC. p_level_of_MLFQ (pt_proc ?b i) = 0 \<and> p_time_quantum_used (pt_proc ?b i) = 0"
    "\<forall>i. p_cpu_share (pt_proc ?b i) = p_cpu_share (pt_proc s i)"
    by (simp_all add: priority_boost_eq)
  show ?thesis
  proof (cases cur)
    case (Some k)
    have k: "k < NPROC" using p Some by simp
    show ?thesis using run Some z k trap_tick_eq [OF b k refl refl]
      by (cases "p_state (pt_proc ?b k) = RUNNING \<and> timer") auto
  qed (use run z in auto)
qed

theorem trap_accounting_boost_witness:
  "\<exists>y t. trap_accounting (Some 4) True ((ptable_init ptable_zero)\<lparr>MLFQ_tick_used := 100\<rparr>) = (Inr y, t) \<and> MLFQ_tick_used t \<le> 1"
proof -
  have "mlfq_inv ((ptable_init ptable_zero)\<lparr>MLFQ_tick_used := 100\<rparr>)" using mlfq_inv_init by (simp add: mlfq_inv_def)
  from trap_accounting_boost [OF this, of "Some 4" True] show ?thesis by auto
qed

end
