(* ===== verification/Syscall.thy ===== *)
theory Syscall
  imports Exec Scheduler
begin

text \<open>
  System calls: fetching arguments and the dispatcher (\<open>syscall.c\<close>), the calls of \<open>sysproc.c\<close>,
  \<open>sysfile.c\<close> and the small files beside them, and the trap handler (\<open>trap.c\<close>).

  A string argument is the bytes found when it is fetched. The bytes of \<open>write\<close> are fetched before
  the call and those of \<open>read\<close> stored after it. \<open>rdevs\<close> and \<open>wdevs\<close> are the table \<open>devsw\<close>; \<open>nm\<close> is the
  initial contents of the local array \<open>name\<close>, and \<open>junk\<close> the uninitialised flag of
  \<open>stride_queue_delete\<close>. Messages on the console are left out.
\<close>

unbundle bit_operations_syntax

record ksys = kernel +
  ticks :: u32

section \<open>Arguments\<close>

definition fetchint :: "u32 \<Rightarrow> ('z ksys_scheme, u32 option) K" where
  "fetchint addr =
     bindK curK (\<lambda>cur.
     bindK (theproc cur) (\<lambda>x.
     if addr \<ge> p_sz x \<or> addr + 4 > p_sz x then retK None
     else bindK (user_load32 addr) (\<lambda>w. retK (Some w))))"

text \<open>The scan for the null byte, with \<open>n\<close> bytes left before \<open>ep\<close>.\<close>

primrec fetchstr_loop :: "nat \<Rightarrow> u32 \<Rightarrow> ('z ksys_scheme, u8 list option) K" where
  "fetchstr_loop 0 a = retK None"
| "fetchstr_loop (Suc n) a =
     bindK (user_load8 a) (\<lambda>b.
     if b = 0 then retK (Some [])
     else bindK (fetchstr_loop n (a + 1)) (\<lambda>r. retK (map_option (\<lambda>bs. b # bs) r)))"

definition fetchstr :: "u32 \<Rightarrow> ('z ksys_scheme, u8 list option) K" where
  "fetchstr addr =
     bindK curK (\<lambda>cur.
     bindK (theproc cur) (\<lambda>x.
     if addr \<ge> p_sz x then retK None else fetchstr_loop (unat (p_sz x) - unat addr) addr))"

definition argint :: "nat \<Rightarrow> ('z ksys_scheme, u32 option) K" where
  "argint n =
     bindK curK (\<lambda>cur.
     bindK (theproc cur) (\<lambda>x.
     fetchint (tf_esp (p_tf x) + 4 + 4 * of_nat n)))"

definition argptr :: "nat \<Rightarrow> int \<Rightarrow> ('z ksys_scheme, u32 option) K" where
  "argptr n len =
     bindK (argint n) (\<lambda>r.
     case r of
       None \<Rightarrow> retK None
     | Some i \<Rightarrow>
         bindK curK (\<lambda>cur.
         bindK (theproc cur) (\<lambda>x.
         if len < 0 \<or> i \<ge> p_sz x \<or> i + of_int len > p_sz x then retK None else retK (Some i))))"

definition argstr :: "nat \<Rightarrow> ('z ksys_scheme, u8 list option) K" where
  "argstr n =
     bindK (argint n) (\<lambda>r. case r of None \<Rightarrow> retK None | Some addr \<Rightarrow> fetchstr addr)"

text \<open>A failed argument ends the call with \<open>-1\<close>.\<close>

definition orfail :: "('z ksys_scheme, 'a option) K \<Rightarrow> ('a \<Rightarrow> ('z ksys_scheme, int) K) \<Rightarrow> ('z ksys_scheme, int) K" where
  "orfail m f = bindK m (\<lambda>r. case r of None \<Rightarrow> retK (- 1) | Some a \<Rightarrow> f a)"

section \<open>Processes\<close>

definition sys_fork :: "('z ksys_scheme, int) K" where
  "sys_fork = fork"

definition sys_exit :: "bool \<Rightarrow> ('z ksys_scheme, int) K" where
  "sys_exit junk = bindK (exit junk) (\<lambda>_. retK 0)"

definition sys_wait :: "('z ksys_scheme, int) K" where
  "sys_wait = wait"

definition sys_kill :: "('z ksys_scheme, int) K" where
  "sys_kill = orfail (argint 0) (\<lambda>pid. kill (sint pid))"

definition sys_getpid :: "('z ksys_scheme, int) K" where
  "sys_getpid = bindK curK (\<lambda>cur. bindK (theproc cur) (\<lambda>x. retK (p_pid x)))"

definition sys_gettid :: "('z ksys_scheme, int) K" where
  "sys_gettid = bindK curK (\<lambda>cur. bindK (theproc cur) (\<lambda>x. retK (p_tid x)))"

definition sys_sbrk :: "('z ksys_scheme, int) K" where
  "sys_sbrk =
     orfail (argint 0) (\<lambda>n.
     bindK curK (\<lambda>cur.
     bindK (theproc cur) (\<lambda>x.
     bindK (growproc (sint n)) (\<lambda>r.
     if r < 0 then retK (- 1) else retK (sint (p_sz x))))))"

text \<open>The loop of \<open>sys_sleep\<close> from its test on. The difference and the bound are compared unsigned.\<close>

definition sys_sleep_loop :: "u32 \<Rightarrow> u32 \<Rightarrow> ('z ksys_scheme, int) K" where
  "sys_sleep_loop ticks0 n =
     bindK (getK (\<lambda>s. ticks s - ticks0 < n)) (\<lambda>more.
     if more then
       bindK curK (\<lambda>cur.
       bindK (theproc cur) (\<lambda>x.
       if p_killed x then bindK (release TicksLock) (\<lambda>_. retK (- 1))
       else bindK (sleep TicksChan (Some TicksLock)) (\<lambda>_. stopK Swtch)))
     else bindK (release TicksLock) (\<lambda>_. retK 0))"

definition sys_sleep :: "('z ksys_scheme, int) K" where
  "sys_sleep =
     orfail (argint 0) (\<lambda>n.
     bindK (acquire TicksLock) (\<lambda>_.
     bindK (getK ticks) (\<lambda>ticks0.
     sys_sleep_loop ticks0 n)))"

definition sys_uptime :: "('z ksys_scheme, int) K" where
  "sys_uptime =
     bindK (acquire TicksLock) (\<lambda>_.
     bindK (getK ticks) (\<lambda>xticks.
     bindK (release TicksLock) (\<lambda>_.
     retK (sint xticks))))"

definition sys_my_syscall :: "('z ksys_scheme, int) K" where
  "sys_my_syscall = orfail (argstr 0) (\<lambda>str. retK (sint (0xABCDABCD :: u32)))"

definition getppid :: "('z ksys_scheme, int) K" where
  "getppid =
     bindK curK (\<lambda>cur.
     bindK (theproc cur) (\<lambda>x.
     bindK (derefK (p_parent x)) (\<lambda>q.
     bindK (theproc q) (\<lambda>y. retK (p_pid y)))))"

definition getlev :: "('z ksys_scheme, int) K" where
  "getlev = bindK curK (\<lambda>cur. bindK (theproc cur) (\<lambda>x. retK (p_level_of_MLFQ x)))"

definition sys_yield :: "('z ksys_scheme, int) K" where
  "sys_yield = bindK yield (\<lambda>_. retK 0)"

definition sys_set_cpu_share :: "('z ksys_scheme, int) K" where
  "sys_set_cpu_share =
     orfail (argint 0) (\<lambda>required.
     bindK curK (\<lambda>cur. onpt (set_cpu_share cur (sint (required * 10)))))"

definition sys_thread_create :: "('z ksys_scheme, int) K" where
  "sys_thread_create =
     orfail (argptr 0 4) (\<lambda>thread.
     orfail (argptr 1 4) (\<lambda>start_routine.
     orfail (argptr 2 4) (\<lambda>arg.
     thread_create thread start_routine arg)))"

definition sys_thread_exit :: "bool \<Rightarrow> ('z ksys_scheme, int) K" where
  "sys_thread_exit junk = orfail (argptr 0 4) (\<lambda>retval. bindK (thread_exit junk retval) (\<lambda>_. retK 0))"

definition sys_thread_join :: "('z ksys_scheme, int) K" where
  "sys_thread_join = orfail (argint 0) (\<lambda>thread. orfail (argptr 1 4) (\<lambda>retval. thread_join (sint thread) retval))"

section \<open>Files\<close>

definition argfd :: "nat \<Rightarrow> ('z ksys_scheme, (nat \<times> nat) option) K" where
  "argfd n =
     bindK (argint n) (\<lambda>r.
     case r of
       None \<Rightarrow> retK None
     | Some w \<Rightarrow>
         bindK curK (\<lambda>cur.
         bindK (theproc cur) (\<lambda>x.
         let fd = sint w in
         if fd < 0 \<or> fd \<ge> int NOFILE then retK None
         else retK (map_option (\<lambda>f. (nat fd, f)) (p_ofile x (nat fd))))))"

definition fdalloc :: "nat \<Rightarrow> ('z ksys_scheme, nat option) K" where
  "fdalloc f =
     bindK curK (\<lambda>cur.
     bindK (theproc cur) (\<lambda>x.
     case List.find (\<lambda>fd. p_ofile x fd = None) [0..<NOFILE] of
       None \<Rightarrow> retK None
     | Some fd \<Rightarrow> bindK (upd cur (\<lambda>y. y\<lparr>p_ofile := (p_ofile y)(fd := Some f)\<rparr>)) (\<lambda>_. retK (Some fd))))"

definition sys_dup :: "('z ksys_scheme, int) K" where
  "sys_dup =
     orfail (argfd 0) (\<lambda>(_, f).
     orfail (fdalloc f) (\<lambda>fd.
     bindK (filedup f) (\<lambda>_. retK (int fd))))"

definition sys_read :: "'z ksys_scheme readers \<Rightarrow> ('z ksys_scheme, int) K" where
  "sys_read rdevs =
     orfail (argfd 0) (\<lambda>(_, f).
     orfail (argint 2) (\<lambda>n.
     orfail (argptr 1 (sint n)) (\<lambda>p.
     bindK (fileread rdevs f (sint n)) (\<lambda>(r, bs).
     bindK (user_stores p bs) (\<lambda>_. retK r)))))"

definition sys_write :: "'z ksys_scheme writers \<Rightarrow> ('z ksys_scheme, int) K" where
  "sys_write wdevs =
     orfail (argfd 0) (\<lambda>(_, f).
     orfail (argint 2) (\<lambda>n.
     orfail (argptr 1 (sint n)) (\<lambda>p.
     bindK (user_loads (nat (sint n)) p) (\<lambda>bs.
     filewrite wdevs f (\<lambda>i. bs ! i) (sint n)))))"

definition sys_close :: "('z ksys_scheme, int) K" where
  "sys_close =
     orfail (argfd 0) (\<lambda>(fd, f).
     bindK curK (\<lambda>cur.
     bindK (upd cur (\<lambda>x. x\<lparr>p_ofile := (p_ofile x)(fd := None)\<rparr>)) (\<lambda>_.
     bindK (fileclose f) (\<lambda>_. retK 0))))"

text \<open>\<open>struct stat\<close> has two bytes of padding behind each \<open>short\<close>, which are not written.\<close>

definition store_stat :: "u32 \<Rightarrow> stat \<Rightarrow> ('z ksys_scheme, unit) K" where
  "store_stat a st =
     bindK (user_stores a [ucast (st_type st), ucast (drop_bit 8 (st_type st))]) (\<lambda>_.
     bindK (user_stores (a + 4) (word_bytes (of_nat (st_dev st)))) (\<lambda>_.
     bindK (user_stores (a + 8) (word_bytes (of_nat (st_ino st)))) (\<lambda>_.
     bindK (user_stores (a + 12) [ucast (st_nlink st), ucast (drop_bit 8 (st_nlink st))]) (\<lambda>_.
     user_stores (a + 16) (word_bytes (st_size st))))))"

definition sys_fstat :: "('z ksys_scheme, int) K" where
  "sys_fstat =
     orfail (argfd 0) (\<lambda>(_, f).
     orfail (argptr 1 20) (\<lambda>p.
     orfail (filestat f) (\<lambda>st.
     bindK (store_stat p st) (\<lambda>_. retK 0))))"

definition sys_link_bad :: "nat \<Rightarrow> ('z ksys_scheme, int) K" where
  "sys_link_bad ip =
     bindK (ilock (Some ip)) (\<lambda>_.
     bindK (upd_inode ip (\<lambda>x. x\<lparr>i_nlink := i_nlink x - 1\<rparr>)) (\<lambda>_.
     bindK (iupdate ip) (\<lambda>_.
     bindK (iunlockput ip) (\<lambda>_.
     bindK end_op (\<lambda>_. retK (- 1))))))"

definition sys_link :: "(nat \<Rightarrow> u8) \<Rightarrow> ('z ksys_scheme, int) K" where
  "sys_link nm =
     orfail (argstr 0) (\<lambda>old.
     orfail (argstr 1) (\<lambda>new.
     bindK begin_op (\<lambda>_.
     bindK (namei old) (\<lambda>r.
     case r of
       None \<Rightarrow> bindK end_op (\<lambda>_. retK (- 1))
     | Some ip \<Rightarrow>
         bindK (ilock (Some ip)) (\<lambda>_.
         bindK (getK (\<lambda>s. i_type (inodes s ip))) (\<lambda>t.
         if t = T_DIR then bindK (iunlockput ip) (\<lambda>_. bindK end_op (\<lambda>_. retK (- 1)))
         else
           bindK (upd_inode ip (\<lambda>x. x\<lparr>i_nlink := i_nlink x + 1\<rparr>)) (\<lambda>_.
           bindK (iupdate ip) (\<lambda>_.
           bindK (iunlock (Some ip)) (\<lambda>_.
           bindK (nameiparent new nm) (\<lambda>(d, name).
           case d of
             None \<Rightarrow> sys_link_bad ip
           | Some dp \<Rightarrow>
               bindK (ilock (Some dp)) (\<lambda>_.
               bindK (getK (\<lambda>s. i_dev (inodes s dp) \<noteq> i_dev (inodes s ip))) (\<lambda>other.
               bindK (if other then retK (- 1)
                      else bindK (getK (\<lambda>s. i_inum (inodes s ip))) (\<lambda>inum. dirlink dp name inum)) (\<lambda>l.
               if l < 0 then bindK (iunlockput dp) (\<lambda>_. sys_link_bad ip)
               else
                 bindK (iunlockput dp) (\<lambda>_.
                 bindK (iput ip) (\<lambda>_.
                 bindK end_op (\<lambda>_. retK 0))))))))))))))))"

function isdirempty_loop :: "nat \<Rightarrow> nat \<Rightarrow> ('z kfs_scheme, bool) K" where
  "isdirempty_loop dp off s =
     (if off < unat (i_size (inodes s dp)) then
        bindK (readi no_readers dp (of_nat off) 16) (\<lambda>(r, bs).
        if r \<noteq> 16 then panicK ''isdirempty: readi''
        else if d_inum (dirent_of bs) \<noteq> 0 then retK False
        else if off + 16 < 2 ^ 32 then isdirempty_loop dp (off + 16) else stopK Spin) s
      else (Inr True, s))"
  by pat_completeness auto
termination
  by (relation "measure (\<lambda>(dp, off, s). 2 ^ 32 - off)") auto

declare isdirempty_loop.simps [simp del]

definition isdirempty :: "nat \<Rightarrow> ('z kfs_scheme, bool) K" where
  "isdirempty dp = isdirempty_loop dp 32"

text \<open>The names \<open>.\<close> and \<open>..\<close> as arrays.\<close>

definition dot_name :: "nat \<Rightarrow> u8" where
  "dot_name = (\<lambda>_. 0)(0 := 0x2E)"

definition dotdot_name :: "nat \<Rightarrow> u8" where
  "dotdot_name = (\<lambda>_. 0)(0 := 0x2E, 1 := 0x2E)"

definition sys_unlink_bad :: "nat \<Rightarrow> ('z ksys_scheme, int) K" where
  "sys_unlink_bad dp = bindK (iunlockput dp) (\<lambda>_. bindK end_op (\<lambda>_. retK (- 1)))"

definition sys_unlink :: "(nat \<Rightarrow> u8) \<Rightarrow> ('z ksys_scheme, int) K" where
  "sys_unlink nm =
     orfail (argstr 0) (\<lambda>path.
     bindK begin_op (\<lambda>_.
     bindK (nameiparent path nm) (\<lambda>(d, name).
     case d of
       None \<Rightarrow> bindK end_op (\<lambda>_. retK (- 1))
     | Some dp \<Rightarrow>
         bindK (ilock (Some dp)) (\<lambda>_.
         if namecmp_eq name dot_name \<or> namecmp_eq name dotdot_name then sys_unlink_bad dp
         else
           bindK (dirlookup dp name) (\<lambda>r.
           case r of
             None \<Rightarrow> sys_unlink_bad dp
           | Some (ip, off) \<Rightarrow>
               bindK (ilock (Some ip)) (\<lambda>_.
               bindK (getK (\<lambda>s. inodes s ip)) (\<lambda>x.
               if sint (i_nlink x) < 1 then panicK ''unlink: nlink < 1''
               else
                 bindK (if i_type x = T_DIR then isdirempty ip else retK True) (\<lambda>empty.
                 if \<not> empty then bindK (iunlockput ip) (\<lambda>_. sys_unlink_bad dp)
                 else
                   bindK (writei no_writers dp (\<lambda>_. 0) (of_nat off) 16) (\<lambda>n.
                   if n \<noteq> 16 then panicK ''unlink: writei''
                   else
                     bindK (whenK (i_type x = T_DIR)
                       (bindK (upd_inode dp (\<lambda>y. y\<lparr>i_nlink := i_nlink y - 1\<rparr>)) (\<lambda>_. iupdate dp))) (\<lambda>_.
                     bindK (iunlockput dp) (\<lambda>_.
                     bindK (upd_inode ip (\<lambda>y. y\<lparr>i_nlink := i_nlink y - 1\<rparr>)) (\<lambda>_.
                     bindK (iupdate ip) (\<lambda>_.
                     bindK (iunlockput ip) (\<lambda>_.
                     bindK end_op (\<lambda>_. retK 0)))))))))))))))"

definition create :: "(nat \<Rightarrow> u8) \<Rightarrow> u8 list \<Rightarrow> i16 \<Rightarrow> i16 \<Rightarrow> i16 \<Rightarrow> ('z ksys_scheme, nat option) K" where
  "create nm path type major minor =
     bindK (nameiparent path nm) (\<lambda>(d, name).
     case d of
       None \<Rightarrow> retK None
     | Some dp \<Rightarrow>
         bindK (ilock (Some dp)) (\<lambda>_.
         bindK (dirlookup dp name) (\<lambda>r.
         case r of
           Some (ip, off) \<Rightarrow>
             bindK (iunlockput dp) (\<lambda>_.
             bindK (ilock (Some ip)) (\<lambda>_.
             bindK (getK (\<lambda>s. i_type (inodes s ip))) (\<lambda>t.
             if type = T_FILE \<and> t = T_FILE then retK (Some ip)
             else bindK (iunlockput ip) (\<lambda>_. retK None))))
         | None \<Rightarrow>
             bindK (getK (\<lambda>s. i_dev (inodes s dp))) (\<lambda>dev.
             bindK (ialloc dev type) (\<lambda>ip.
             bindK (ilock (Some ip)) (\<lambda>_.
             bindK (upd_inode ip (\<lambda>x. x\<lparr>i_major := major, i_minor := minor, i_nlink := 1\<rparr>)) (\<lambda>_.
             bindK (iupdate ip) (\<lambda>_.
             bindK (getK (\<lambda>s. (i_inum (inodes s ip), i_inum (inodes s dp)))) (\<lambda>(inum, dinum).
             bindK (whenK (type = T_DIR)
               (bindK (upd_inode dp (\<lambda>x. x\<lparr>i_nlink := i_nlink x + 1\<rparr>)) (\<lambda>_.
                bindK (iupdate dp) (\<lambda>_.
                bindK (dirlink ip dot_name inum) (\<lambda>a.
                if a < 0 then panicK ''create dots''
                else bindK (dirlink ip dotdot_name dinum) (\<lambda>b. whenK (b < 0) (panicK ''create dots''))))))) (\<lambda>_.
             bindK (dirlink dp name inum) (\<lambda>l.
             if l < 0 then panicK ''create: dirlink''
             else bindK (iunlockput dp) (\<lambda>_. retK (Some ip)))))))))))))"

definition O_WRONLY :: u32 where "O_WRONLY = 1"
definition O_RDWR :: u32 where "O_RDWR = 2"
definition O_CREATE :: u32 where "O_CREATE = 0x200"

text \<open>The inode \<open>open\<close> works on, locked; or none.\<close>

definition open_inode :: "(nat \<Rightarrow> u8) \<Rightarrow> u8 list \<Rightarrow> u32 \<Rightarrow> ('z ksys_scheme, nat option) K" where
  "open_inode nm path omode =
     (if omode AND O_CREATE \<noteq> 0 then create nm path T_FILE 0 0
      else
        bindK (namei path) (\<lambda>r.
        case r of
          None \<Rightarrow> retK None
        | Some ip \<Rightarrow>
            bindK (ilock (Some ip)) (\<lambda>_.
            bindK (getK (\<lambda>s. i_type (inodes s ip))) (\<lambda>t.
            if t = T_DIR \<and> omode \<noteq> 0 then bindK (iunlockput ip) (\<lambda>_. retK None)
            else retK (Some ip)))))"

definition sys_open :: "(nat \<Rightarrow> u8) \<Rightarrow> ('z ksys_scheme, int) K" where
  "sys_open nm =
     orfail (argstr 0) (\<lambda>path.
     orfail (argint 1) (\<lambda>omode.
     bindK begin_op (\<lambda>_.
     bindK (open_inode nm path omode) (\<lambda>r.
     case r of
       None \<Rightarrow> bindK end_op (\<lambda>_. retK (- 1))
     | Some ip \<Rightarrow>
         bindK filealloc (\<lambda>fr.
         bindK (case fr of None \<Rightarrow> retK None | Some f \<Rightarrow> bindK (fdalloc f) (\<lambda>fd. retK (map_option (Pair f) fd))) (\<lambda>g.
         case g of
           None \<Rightarrow>
             bindK (case fr of None \<Rightarrow> retK () | Some f \<Rightarrow> fileclose f) (\<lambda>_.
             bindK (iunlockput ip) (\<lambda>_.
             bindK end_op (\<lambda>_. retK (- 1))))
         | Some (f, fd) \<Rightarrow>
             bindK (iunlock (Some ip)) (\<lambda>_.
             bindK end_op (\<lambda>_.
             bindK (upd_file f (\<lambda>x. x\<lparr>f_type := FD_INODE, f_ip := ip, f_off := 0,
                      f_readable := (omode AND O_WRONLY = 0),
                      f_writable := (omode AND O_WRONLY \<noteq> 0 \<or> omode AND O_RDWR \<noteq> 0)\<rparr>)) (\<lambda>_.
             retK (int fd))))))))))"

definition sys_mkdir :: "(nat \<Rightarrow> u8) \<Rightarrow> ('z ksys_scheme, int) K" where
  "sys_mkdir nm =
     bindK begin_op (\<lambda>_.
     bindK (argstr 0) (\<lambda>p.
     bindK (case p of None \<Rightarrow> retK None | Some path \<Rightarrow> create nm path T_DIR 0 0) (\<lambda>r.
     case r of
       None \<Rightarrow> bindK end_op (\<lambda>_. retK (- 1))
     | Some ip \<Rightarrow> bindK (iunlockput ip) (\<lambda>_. bindK end_op (\<lambda>_. retK 0)))))"

definition sys_mknod :: "(nat \<Rightarrow> u8) \<Rightarrow> ('z ksys_scheme, int) K" where
  "sys_mknod nm =
     bindK begin_op (\<lambda>_.
     bindK (argstr 0) (\<lambda>p.
     bindK (case p of None \<Rightarrow> retK None | Some path \<Rightarrow>
       bindK (argint 1) (\<lambda>a. case a of None \<Rightarrow> retK None | Some major \<Rightarrow>
       bindK (argint 2) (\<lambda>b. case b of None \<Rightarrow> retK None | Some minor \<Rightarrow>
       create nm path T_DEV (ucast major) (ucast minor)))) (\<lambda>r.
     case r of
       None \<Rightarrow> bindK end_op (\<lambda>_. retK (- 1))
     | Some ip \<Rightarrow> bindK (iunlockput ip) (\<lambda>_. bindK end_op (\<lambda>_. retK 0)))))"

definition sys_chdir :: "('z ksys_scheme, int) K" where
  "sys_chdir =
     bindK begin_op (\<lambda>_.
     bindK (argstr 0) (\<lambda>p.
     bindK (case p of None \<Rightarrow> retK None | Some path \<Rightarrow> namei path) (\<lambda>r.
     case r of
       None \<Rightarrow> bindK end_op (\<lambda>_. retK (- 1))
     | Some ip \<Rightarrow>
         bindK (ilock (Some ip)) (\<lambda>_.
         bindK (getK (\<lambda>s. i_type (inodes s ip))) (\<lambda>t.
         if t \<noteq> T_DIR then bindK (iunlockput ip) (\<lambda>_. bindK end_op (\<lambda>_. retK (- 1)))
         else
           bindK (iunlock (Some ip)) (\<lambda>_.
           bindK curK (\<lambda>cur.
           bindK (theproc cur) (\<lambda>x.
           bindK (derefK (p_cwd x)) (\<lambda>w.
           bindK (iput w) (\<lambda>_.
           bindK end_op (\<lambda>_.
           bindK (upd cur (\<lambda>y. y\<lparr>p_cwd := Some ip\<rparr>)) (\<lambda>_. retK 0))))))))))))"

text \<open>Collecting the arguments of \<open>exec\<close>, \<open>k\<close> slots of the array left.\<close>

primrec exec_args :: "nat \<Rightarrow> u32 \<Rightarrow> ('z ksys_scheme, u8 list list option) K" where
  "exec_args 0 uargv = retK None"
| "exec_args (Suc k) uargv =
     bindK (fetchint uargv) (\<lambda>r.
     case r of
       None \<Rightarrow> retK None
     | Some uarg \<Rightarrow>
         if uarg = 0 then retK (Some [])
         else
           bindK (fetchstr uarg) (\<lambda>a.
           case a of
             None \<Rightarrow> retK None
           | Some str \<Rightarrow> bindK (exec_args k (uargv + 4)) (\<lambda>rest. retK (map_option (\<lambda>as. str # as) rest))))"

definition sys_exec :: "'z ksys_scheme readers \<Rightarrow> ('z ksys_scheme, int) K" where
  "sys_exec rdevs =
     orfail (argstr 0) (\<lambda>path.
     orfail (argint 1) (\<lambda>uargv.
     orfail (exec_args MAXARG uargv) (\<lambda>argv.
     exec rdevs path argv)))"

definition sys_pipe :: "('z ksys_scheme, int) K" where
  "sys_pipe =
     orfail (argptr 0 8) (\<lambda>fd.
     orfail pipealloc (\<lambda>(rf, wf).
     bindK curK (\<lambda>cur.
     bindK (fdalloc rf) (\<lambda>r0.
     bindK (case r0 of None \<Rightarrow> retK None | Some fd0 \<Rightarrow> bindK (fdalloc wf) (\<lambda>r1. retK (map_option (Pair fd0) r1))) (\<lambda>g.
     case g of
       None \<Rightarrow>
         bindK (case r0 of None \<Rightarrow> retK ()
                | Some fd0 \<Rightarrow> upd cur (\<lambda>x. x\<lparr>p_ofile := (p_ofile x)(fd0 := None)\<rparr>)) (\<lambda>_.
         bindK (fileclose rf) (\<lambda>_.
         bindK (fileclose wf) (\<lambda>_. retK (- 1))))
     | Some (fd0, fd1) \<Rightarrow>
         bindK (user_store32 fd (of_nat fd0)) (\<lambda>_.
         bindK (user_store32 (fd + 4) (of_nat fd1)) (\<lambda>_. retK 0)))))))"

section \<open>Dispatch\<close>

text \<open>The table \<open>syscalls\<close>.\<close>

definition syscalls ::
  "'z ksys_scheme readers \<Rightarrow> 'z ksys_scheme writers \<Rightarrow> (nat \<Rightarrow> u8) \<Rightarrow> bool \<Rightarrow> int \<Rightarrow> ('z ksys_scheme, int) K option" where
  "syscalls rdevs wdevs nm junk num =
     (if num \<le> 0 then None
      else if nat num \<le> 30 then Some ([sys_fork, sys_exit junk, sys_wait, sys_pipe, sys_read rdevs, sys_kill,
        sys_exec rdevs, sys_fstat, sys_chdir, sys_dup, sys_getpid, sys_sbrk, sys_sleep, sys_uptime,
        sys_open nm, sys_write wdevs, sys_mknod nm, sys_unlink nm, sys_link nm, sys_mkdir nm, sys_close,
        sys_my_syscall, getppid, sys_yield, getlev, sys_set_cpu_share, sys_thread_create,
        sys_thread_exit junk, sys_thread_join, sys_gettid] ! (nat num - 1))
      else None)"

definition syscall ::
  "'z ksys_scheme readers \<Rightarrow> 'z ksys_scheme writers \<Rightarrow> (nat \<Rightarrow> u8) \<Rightarrow> bool \<Rightarrow> ('z ksys_scheme, unit) K" where
  "syscall rdevs wdevs nm junk =
     bindK curK (\<lambda>cur.
     bindK (theproc cur) (\<lambda>x.
     bindK (case syscalls rdevs wdevs nm junk (sint (tf_eax (p_tf x))) of
              None \<Rightarrow> retK (- 1)
            | Some call \<Rightarrow> call) (\<lambda>r.
     upd cur (\<lambda>y. y\<lparr>p_tf := (p_tf y)\<lparr>tf_eax := of_int r\<rparr>\<rparr>))))"

section \<open>Traps\<close>

definition T_SYSCALL :: u32 where [simp]: "T_SYSCALL = 64"
definition T_USER_INT :: u32 where [simp]: "T_USER_INT = 128"
definition T_IRQ0 :: u32 where [simp]: "T_IRQ0 = 32"

definition exit_if_killed :: "bool \<Rightarrow> bool \<Rightarrow> ('z ksys_scheme, unit) K" where
  "exit_if_killed junk user =
     bindK (getK the_proc) (\<lambda>c.
     case c of
       None \<Rightarrow> retK ()
     | Some p \<Rightarrow> bindK (theproc p) (\<lambda>x. whenK (p_killed x \<and> user) (exit junk)))"

text \<open>
  The \<open>switch\<close> over the interrupt number. Acknowledging the interrupt controller has no effect on the
  state; the memory disk raises no interrupts; \<open>input\<close> stands for the console's handling of a
  character from the keyboard or the serial line.
\<close>

definition trap_device :: "('z ksys_scheme, unit) K \<Rightarrow> trapframe \<Rightarrow> ('z ksys_scheme, unit) K" where
  "trap_device input tf =
     (let n = tf_trapno tf in
      if n = T_IRQ0 then
        bindK (getK me) (\<lambda>c.
        whenK (c = 0)
          (bindK (acquire TicksLock) (\<lambda>_.
           bindK (modK (\<lambda>s. s\<lparr>ticks := ticks s + 1\<rparr>)) (\<lambda>_.
           bindK (wakeup TicksChan) (\<lambda>_.
           release TicksLock)))))
      else if n = T_IRQ0 + 14 \<or> n = T_IRQ0 + 15 then retK ()
      else if n = T_IRQ0 + 1 \<or> n = T_IRQ0 + 4 then input
      else if n = T_IRQ0 + 7 \<or> n = T_IRQ0 + 31 then retK ()
      else
        bindK (getK the_proc) (\<lambda>c.
        case c of
          None \<Rightarrow> panicK ''trap''
        | Some p \<Rightarrow>
            if tf_cs tf AND 3 = 0 then panicK ''trap''
            else upd p (\<lambda>x. x\<lparr>p_killed := True\<rparr>)))"

definition trap ::
  "'z ksys_scheme readers \<Rightarrow> 'z ksys_scheme writers \<Rightarrow> (nat \<Rightarrow> u8) \<Rightarrow> bool \<Rightarrow> ('z ksys_scheme, unit) K \<Rightarrow> trapframe
     \<Rightarrow> ('z ksys_scheme, unit) K" where
  "trap rdevs wdevs nm junk input tf =
     (if tf_trapno tf = T_SYSCALL then
        bindK curK (\<lambda>cur.
        bindK (theproc cur) (\<lambda>x.
        bindK (whenK (p_killed x) (exit junk)) (\<lambda>_.
        bindK (upd cur (\<lambda>y. y\<lparr>p_tf := tf\<rparr>)) (\<lambda>_.
        bindK (syscall rdevs wdevs nm junk) (\<lambda>_.
        bindK (theproc cur) (\<lambda>y.
        whenK (p_killed y) (exit junk)))))))
      else if tf_trapno tf = T_USER_INT then exit junk
      else
        let user = (tf_cs tf AND 3 = 3) in
        bindK (trap_device input tf) (\<lambda>_.
        bindK (exit_if_killed junk user) (\<lambda>_.
        bindK (getK the_proc) (\<lambda>c.
        bindK (onpt (trap_accounting c (tf_trapno tf = T_IRQ0))) (\<lambda>y.
        bindK (whenK y yield) (\<lambda>_.
        exit_if_killed junk user))))))"

end
