(* ===== verification/Calm.thy ===== *)
theory Calm
  imports Locks
begin

text \<open>
  Evaluation of code that takes and releases locks, for a processor that holds no spin lock and does
  not compete for one. Then a critical section leaves no trace but the change made inside it, sleep
  locks that are free are taken at once, and the lock operations become equations on the state.
\<close>

section \<open>Critical sections\<close>

definition lockable :: "lock \<Rightarrow> 'z ksync_scheme \<Rightarrow> bool" where
  "lockable l s \<longleftrightarrow> \<not> lk_locked s l \<and> lk_cpu s l = None \<and> cpu_ok s \<and>
     (ncli s (me s) = 0 \<longrightarrow> intena s (me s) = iflag s (me s))"

lemma acquire_lockable: "lockable l s \<Longrightarrow> acquire l s = (Inr (), took l s)"
  by (simp add: lockable_def acquire_free)

lemma freed_took: "lockable l s \<Longrightarrow> freed l (took l s) = s"
proof -
  assume a: "lockable l s"
  have i: "iflag (freed l (took l s)) = iflag s" and e: "intena (freed l (took l s)) = intena s"
    using a by (auto simp: lockable_def cpu_ok_def fun_eq_iff)
  show ?thesis using a i e
    by (intro ksync.equality) (auto simp: lockable_def fun_eq_iff freed_def took_def)
qed

lemma release_took: "lockable l s \<Longrightarrow> release l (took l s) = (Inr (), s)"
  using release_held [of l "took l s"] by (simp add: freed_took) (simp add: lockable_def cpu_ok_def)

lemma lockable_took: "lockable l s \<Longrightarrow> l \<noteq> k \<Longrightarrow> lockable l (took k s)"
  by (auto simp: lockable_def cpu_ok_def)

lemma lockable_mod_ptable [simp]: "lockable l (mod_ptable f s) = lockable l s"
  by (simp add: lockable_def)

lemma lockable_sleeplks [simp]: "lockable l (s\<lparr>sleeplks := x\<rparr>) = lockable l s"
  by (simp add: lockable_def cpu_ok_def)

text \<open>A change of other parts of the state may be moved out of a critical section.\<close>

lemma took_mod_ptable: "mod_ptable f (took l s) = took l (mod_ptable f s)"
  by (simp add: took_def mod_ptable_def)

lemma took_sleeplks: "(took l s)\<lparr>sleeplks := x\<rparr> = took l (s\<lparr>sleeplks := x\<rparr>)"
  by (simp add: took_def)

lemmas critical = acquire_lockable release_took lockable_took took_mod_ptable took_sleeplks

section \<open>Calm states\<close>

definition calm :: "'z ksync_scheme \<Rightarrow> bool" where
  "calm s \<longleftrightarrow> (\<forall>l. lockable l s) \<and> the_proc s \<noteq> None"

lemma calm_lockable: "calm s \<Longrightarrow> lockable l s"
  by (simp add: calm_def)

lemma calm_mod_ptable [simp]: "calm (mod_ptable f s) = calm s"
  by (simp add: calm_def)

lemma calm_sleeplks [simp]: "calm (s\<lparr>sleeplks := x\<rparr>) = calm s"
  by (simp add: calm_def)

definition cur_pid :: "'z ksync_scheme \<Rightarrow> int" where
  "cur_pid s = p_pid (pt_proc (kptable s) (the (the_proc s)))"

lemma wakeup_calm:
  assumes "lockable PtableLock s"
  shows "wakeup c s = (Inr (), mod_ptable (wakeup1 c) s)"
  using assms by (simp add: wakeup_def critical)

lemma acquiresleep_calm:
  assumes "calm s" "\<not> sl_locked (sleeplks s l)"
  shows "acquiresleep l s =
    (Inr (), s\<lparr>sleeplks := (sleeplks s)(l := \<lparr>sl_locked = True, sl_pid = cur_pid s\<rparr>)\<rparr>)"
proof -
  obtain p where "the_proc s = Some p" using assms(1) by (auto simp: calm_def)
  moreover have "lockable (SleepLk l) s" using assms(1) by (rule calm_lockable)
  ultimately show ?thesis using assms(2)
    by (simp add: acquiresleep_def acquiresleep_loop_def critical derefK_def cur_pid_def)
qed

lemma holdingsleep_calm:
  assumes "calm s"
  shows "holdingsleep l s = (Inr (sl_locked (sleeplks s l)), s)"
  using calm_lockable [OF assms, of "SleepLk l"] by (simp add: holdingsleep_def critical)

lemma releasesleep_calm:
  assumes "calm s"
  shows "releasesleep l s = (Inr (), (mod_ptable (wakeup1 (SleepChan l)) s)
    \<lparr>sleeplks := (sleeplks s)(l := \<lparr>sl_locked = False, sl_pid = 0\<rparr>)\<rparr>)"
proof -
  let ?x = "(sleeplks s)(l := \<lparr>sl_locked = False, sl_pid = 0\<rparr>)"
  have l: "lockable (SleepLk l) s" "lockable PtableLock (took (SleepLk l) (s\<lparr>sleeplks := ?x\<rparr>))"
    using calm_lockable [OF assms] by (simp_all add: lockable_took)
  have "mod_ptable f (s\<lparr>sleeplks := x\<rparr>) = (mod_ptable f s)\<lparr>sleeplks := x\<rparr>" for f x by (simp add: mod_ptable_def)
  then show ?thesis using l
    by (simp add: releasesleep_def critical wakeup_calm [OF l(2)])
qed

section \<open>Processes woken up\<close>

text \<open>What wakeups do to the table: some sleeping processes become runnable.\<close>

definition woken :: "ptable \<Rightarrow> ptable \<Rightarrow> bool" where
  "woken t u \<longleftrightarrow> (\<exists>W. (\<forall>i\<in>W. p_state (pt_proc t i) = SLEEPING) \<and>
     u = t\<lparr>pt_proc := (\<lambda>i. if i \<in> W then (pt_proc t i)\<lparr>p_state := RUNNABLE\<rparr> else pt_proc t i)\<rparr>)"

lemma woken_refl [simp]: "woken t t"
  by (auto simp: woken_def intro!: exI [of _ "{}"])

lemma woken_wakeup1 [simp]: "woken t (wakeup1 c t)"
  unfolding woken_def wakeup1_eq
  by (rule exI [of _ "{i. i < NPROC \<and> p_state (pt_proc t i) = SLEEPING \<and> p_chan (pt_proc t i) = Some c}"]) simp

lemma woken_trans:
  assumes "woken t u" "woken u v"
  shows "woken t v"
proof -
  obtain W where W: "\<forall>i\<in>W. p_state (pt_proc t i) = SLEEPING"
    "u = t\<lparr>pt_proc := (\<lambda>i. if i \<in> W then (pt_proc t i)\<lparr>p_state := RUNNABLE\<rparr> else pt_proc t i)\<rparr>"
    using assms(1) unfolding woken_def by blast
  obtain X where X: "\<forall>i\<in>X. p_state (pt_proc u i) = SLEEPING"
    "v = u\<lparr>pt_proc := (\<lambda>i. if i \<in> X then (pt_proc u i)\<lparr>p_state := RUNNABLE\<rparr> else pt_proc u i)\<rparr>"
    using assms(2) unfolding woken_def by blast
  have d: "i \<notin> W" if "i \<in> X" for i using X(1) that by (auto simp: W(2))
  show ?thesis unfolding woken_def
  proof (intro exI [of _ "W \<union> X"] conjI)
    show "\<forall>i\<in>W \<union> X. p_state (pt_proc t i) = SLEEPING" using W(1) X(1) d by (auto simp: W(2))
    show "v = t\<lparr>pt_proc := (\<lambda>i. if i \<in> W \<union> X then (pt_proc t i)\<lparr>p_state := RUNNABLE\<rparr> else pt_proc t i)\<rparr>"
      using d unfolding X(2) W(2) by (auto simp: fun_eq_iff)
  qed
qed

lemma woken_pid: "woken t u \<Longrightarrow> p_pid (pt_proc u i) = p_pid (pt_proc t i)"
  by (auto simp: woken_def)

end
