(* ===== verification/Bio_List.thy ===== *)
theory Bio_List
  imports Calm Bio
begin

text \<open>
  The linked list of buffers, \<open>prev\<close> and \<open>next\<close> pointers through the head, represents a list of buffer
  numbers, most recently used first; the list loops of \<open>bget\<close> search this list, forwards and
  backwards, and \<open>brelse\<close> moves a buffer to its front.
\<close>

section \<open>Paths\<close>

text \<open>Following links from \<open>p\<close> (not included) through \<open>xs\<close> to \<open>q\<close>.\<close>

fun path :: "('n \<Rightarrow> 'n) \<Rightarrow> 'n \<Rightarrow> 'n list \<Rightarrow> 'n \<Rightarrow> bool" where
  "path F p [] q \<longleftrightarrow> F p = q"
| "path F p (x # xs) q \<longleftrightarrow> F p = x \<and> path F x xs q"

lemma path_append: "path F p (as @ b # cs) q \<longleftrightarrow> path F p as b \<and> path F b cs q"
  by (induction as arbitrary: p) auto

lemma path_upd: "z \<noteq> p \<Longrightarrow> z \<notin> set xs \<Longrightarrow> path (F(z := v)) p xs q = path F p xs q"
  by (induction xs arbitrary: p) auto

lemma path_hd: "path F p xs q \<Longrightarrow> F p = hd (xs @ [q])"
  by (cases xs) auto

lemma path_remove:
  assumes "path F p (as @ b # cs) q" "distinct (p # as @ b # cs)"
  shows "path (F(last (p # as) := F b)) p (as @ cs) q"
proof -
  have 1: "path F p as b" "path F b cs q" using assms(1) by (simp_all add: path_append)
  have tail: "path F' l cs q" if "F' l = F b" "\<And>c. c \<in> set cs \<Longrightarrow> F' c = F c" for F' l
    using 1(2) that
  proof (induction cs arbitrary: l b)
    case (Cons c cs)
    then show ?case by auto
  qed auto
  show ?thesis
  proof (cases as rule: rev_cases)
    case Nil
    then show ?thesis using assms(2) by (auto intro: tail)
  next
    case (snoc as' a)
    have "path F p as' a" using 1(1) by (simp add: snoc path_append)
    moreover have "a \<noteq> p" "a \<notin> set as'" "a \<notin> set cs" using assms(2) by (auto simp: snoc)
    moreover have "path (F(a := F b)) a cs q" using \<open>a \<notin> set cs\<close> by (intro tail) auto
    ultimately show ?thesis by (simp add: snoc path_append path_upd)
  qed
qed

section \<open>The list of buffers\<close>

definition nextp :: "'z kbio_scheme \<Rightarrow> nat option \<Rightarrow> nat option" where
  "nextp s p = (case p of None \<Rightarrow> head_next s | Some b \<Rightarrow> b_next (bufs s b))"

definition prevp :: "'z kbio_scheme \<Rightarrow> nat option \<Rightarrow> nat option" where
  "prevp s p = (case p of None \<Rightarrow> head_prev s | Some b \<Rightarrow> b_prev (bufs s b))"

definition lru :: "'z kbio_scheme \<Rightarrow> nat list \<Rightarrow> bool" where
  "lru s xs \<longleftrightarrow> distinct xs \<and> set xs = {..<NBUF} \<and>
     path (nextp s) None (map Some xs) None \<and> path (prevp s) None (map Some (rev xs)) None"

lemma nextp_set_next [simp]: "nextp (set_next p v s) = (nextp s)(p := v)"
  by (auto simp: nextp_def set_next_def upd_buf_def fun_eq_iff split: option.splits)

lemma prevp_set_next [simp]: "prevp (set_next p v s) = prevp s"
  by (auto simp: prevp_def set_next_def upd_buf_def fun_eq_iff split: option.splits)

lemma prevp_set_prev [simp]: "prevp (set_prev p v s) = (prevp s)(p := v)"
  by (auto simp: prevp_def set_prev_def upd_buf_def fun_eq_iff split: option.splits)

lemma nextp_set_prev [simp]: "nextp (set_prev p v s) = nextp s"
  by (auto simp: nextp_def set_prev_def upd_buf_def fun_eq_iff split: option.splits)

lemma nextp_Some: "b_next (bufs s b) = nextp s (Some b)"
  and prevp_Some: "b_prev (bufs s b) = prevp s (Some b)"
  and nextp_None: "head_next s = nextp s None"
  by (simp_all add: nextp_def prevp_def)

lemma list_remove_links:
  "nextp (list_remove b s) = (nextp s)(prevp (list_remove b s) (Some b) := nextp s (Some b))"
  "prevp (list_remove b s) = (prevp s)(nextp s (Some b) := prevp s (Some b))"
  by (simp_all add: list_remove_def Let_def nextp_Some prevp_Some)

lemma list_insert_links:
  "nextp (list_insert b s) = (nextp s)(Some b := nextp s None, None := Some b)"
  "prevp (list_insert b s) = (prevp s)(Some b := None, nextp s None := Some b)"
  by (simp_all add: list_insert_def Let_def nextp_None)

lemma list_search_path:
  "path F p (map Some xs) None \<Longrightarrow> length xs \<le> k \<Longrightarrow>
   list_search k (\<lambda>b. F (Some b)) P (F p) = Inr (List.find P xs)"
proof (induction xs arbitrary: p k)
  case Nil
  then show ?case by simp
next
  case (Cons x xs)
  then show ?case by (cases k) auto
qed

lemma lru_length: "lru s xs \<Longrightarrow> length xs = NBUF"
  using distinct_card [of xs] by (simp add: lru_def)

lemma search_next:
  "lru s xs \<Longrightarrow> list_search NBUF (\<lambda>b. b_next (bufs s b)) P (head_next s) = Inr (List.find P xs)"
  using list_search_path [of "nextp s" None xs NBUF P] lru_length [of s xs]
  by (simp add: lru_def nextp_Some nextp_None del: list_search.simps)

lemma search_prev:
  "lru s xs \<Longrightarrow> list_search NBUF (\<lambda>b. b_prev (bufs s b)) P (head_prev s) = Inr (List.find P (rev xs))"
proof -
  assume l: "lru s xs"
  have "head_prev s = prevp s None" by (simp add: prevp_def)
  then show ?thesis
    using list_search_path [of "prevp s" None "rev xs" NBUF P] lru_length [OF l] l
    by (simp add: lru_def prevp_Some del: list_search.simps)
qed

text \<open>Moving a buffer to the front.\<close>

lemma path_insert:
  assumes "path F None xs None" "b \<notin> set xs" "b \<noteq> None" "None \<notin> set xs"
  shows "path (F(b := F None, None := b)) None (b # xs) None"
proof -
  have "path (F(b := F None, None := b)) b xs None"
  proof (cases xs)
    case Nil
    then show ?thesis using assms by simp
  next
    case (Cons y ys)
    then have "path (F(b := F None, None := b)) y ys None" using assms by (simp add: path_upd)
    then show ?thesis using assms(1,3) Cons by auto
  qed
  then show ?thesis by simp
qed

lemma path_insert_back:
  assumes "path G None (rev xs) None" "b \<notin> set xs" "b \<noteq> None" "None \<notin> set xs" "distinct xs" "h = hd (xs @ [None])"
  shows "path (G(b := None, h := b)) None (rev xs @ [b]) None"
proof (cases xs)
  case Nil
  then show ?thesis using assms by simp
next
  case (Cons y ys)
  have "path G None (rev ys) y" using assms(1) by (simp add: Cons path_append)
  then show ?thesis using assms by (auto simp: Cons path_append path_upd)
qed

lemma lru_move:
  assumes l: "lru s xs" and b: "b \<in> set xs"
  shows "lru (list_insert b (list_remove b s)) (b # remove1 b xs)"
proof -
  obtain as cs where xs: "xs = as @ b # cs" using split_list [OF b] by blast
  let ?as = "map Some as" and ?cs = "map Some cs" and ?r = "list_remove b s"
  have d: "distinct xs" and set: "set xs = {..<NBUF}"
    and n: "path (nextp s) None (?as @ Some b # ?cs) None"
    and p: "path (prevp s) None (rev ?cs @ Some b # rev ?as) None"
    using l by (simp_all add: lru_def xs rev_map)
  have dn: "distinct (None # ?as @ Some b # ?cs)" "distinct (None # rev ?cs @ Some b # rev ?as)"
    using d by (auto simp: xs distinct_map)
  have nb: "nextp s (Some b) = hd (?cs @ [None])" using n by (simp add: path_append path_hd)
  have pb: "prevp s (Some b) = hd (rev ?as @ [None])" using p by (simp add: path_append path_hd)
  have lst: "hd (rev ?as @ [None]) = last (None # ?as)" "hd (?cs @ [None]) = last (None # rev ?cs)"
    by (simp_all add: hd_append hd_rev last_rev)
  have ne: "nextp s (Some b) \<noteq> Some b" using dn nb by (auto simp: hd_append hd_map split: if_splits)
  have pr: "prevp ?r (Some b) = last (None # ?as)" using ne pb lst by (simp add: list_remove_links)
  have rem: "remove1 b xs = as @ cs" using d by (simp add: xs remove1_append)
  have nr: "path (nextp ?r) None (?as @ ?cs) None"
    using path_remove [OF n dn(1)] by (simp add: list_remove_links(1) pr)
  have pr': "path (prevp ?r) None (rev ?cs @ rev ?as) None"
    using path_remove [OF p dn(2)] nb lst by (simp add: list_remove_links(2))
  have bn: "Some b \<notin> set (?as @ ?cs)" "None \<notin> set (?as @ ?cs)" "distinct (?as @ ?cs)" using dn by auto
  have "path (nextp (list_insert b ?r)) None (Some b # ?as @ ?cs) None"
    using path_insert [OF nr bn(1) _ bn(2)] by (simp add: list_insert_links)
  moreover have "path (prevp (list_insert b ?r)) None (rev (?as @ ?cs) @ [Some b]) None"
    using path_insert_back [of "prevp ?r" "?as @ ?cs" "Some b", OF _ bn(1) _ bn(2,3)] pr' path_hd [OF nr]
    by (simp add: list_insert_links)
  moreover have "distinct (b # as @ cs)" "set (b # as @ cs) = {..<NBUF}" using d set by (auto simp: xs)
  ultimately show ?thesis unfolding lru_def rem by (simp add: rev_map)
qed

text \<open>Nothing else changes.\<close>

definition same_buf :: "buf \<Rightarrow> buf \<Rightarrow> bool" where
  "same_buf x y \<longleftrightarrow> y\<lparr>b_prev := b_prev x, b_next := b_next x\<rparr> = x"

end
