(* ===== verification/Bio_Cache.thy ===== *)
theory Bio_Cache
  imports Bio_List
begin

text \<open>
  The buffer cache as a store of blocks. \<open>view s b\<close> is what reading block \<open>b\<close> yields: the contents of its
  buffer, or of the disk when it is not cached. The invariant \<open>cache_ok\<close> describes the cache between
  the steps of one process: no block has two buffers, a buffer is locked while it is in use, and an
  unused clean buffer agrees with the disk. The lemmas say for each operation how it changes the view,
  the disk and the buffers in use, and that nothing else changes.
\<close>

section \<open>Updates commute with critical sections\<close>

lemma took_bio [simp]:
  "bufs (took l s) = bufs s" "disk (took l s) = disk s" "disk_past (took l s) = disk_past s"
  "disksize (took l s) = disksize s" "head_prev (took l s) = head_prev s" "head_next (took l s) = head_next s"
  by (simp_all add: took_def)

lemma mod_ptable_bio [simp]:
  "bufs (mod_ptable f s) = bufs s" "disk (mod_ptable f s) = disk s" "disk_past (mod_ptable f s) = disk_past s"
  "disksize (mod_ptable f s) = disksize s" "head_prev (mod_ptable f s) = head_prev s" "head_next (mod_ptable f s) = head_next s"
  by (simp_all add: mod_ptable_def)

lemma took_bufs: "(took l s)\<lparr>bufs := x\<rparr> = took l (s\<lparr>bufs := x\<rparr>)"
  by (simp add: took_def)

lemma took_upd_buf: "upd_buf b f (took l s) = took l (upd_buf b f s)"
  by (simp add: upd_buf_def took_bufs)

lemma took_head: "(took l s)\<lparr>head_next := x\<rparr> = took l (s\<lparr>head_next := x\<rparr>)"
  "(took l s)\<lparr>head_prev := x\<rparr> = took l (s\<lparr>head_prev := x\<rparr>)"
  by (simp_all add: took_def)

lemma took_set_next: "set_next p v (took l s) = took l (set_next p v s)"
  by (cases p) (simp_all add: set_next_def took_upd_buf took_head)

lemma took_set_prev: "set_prev p v (took l s) = took l (set_prev p v s)"
  by (cases p) (simp_all add: set_prev_def took_upd_buf took_head)

lemma upd_buf_simps [simp]:
  "bufs (upd_buf b f s) = (bufs s)(b := f (bufs s b))" "disk (upd_buf b f s) = disk s"
  "disk_past (upd_buf b f s) = disk_past s" "disksize (upd_buf b f s) = disksize s"
  "sleeplks (upd_buf b f s) = sleeplks s" "kptable (upd_buf b f s) = kptable s"
  "head_next (upd_buf b f s) = head_next s" "head_prev (upd_buf b f s) = head_prev s"
  "me (upd_buf b f s) = me s" "curproc (upd_buf b f s) = curproc s"
  "calm (upd_buf b f s) = calm s" "lockable l (upd_buf b f s) = lockable l s"
  by (simp_all add: upd_buf_def calm_def lockable_def cpu_ok_def)

section \<open>Invariant and view\<close>

definition cached :: "'z kbio_scheme \<Rightarrow> nat \<Rightarrow> nat \<Rightarrow> bool" where
  "cached s b i \<longleftrightarrow> i < NBUF \<and> b_dev (bufs s i) = 1 \<and> b_blockno (bufs s i) = b"

definition held :: "'z kbio_scheme \<Rightarrow> nat \<Rightarrow> bool" where
  "held s i \<longleftrightarrow> b_refcnt (bufs s i) \<noteq> 0"

definition buf_ok :: "'z kbio_scheme \<Rightarrow> nat \<Rightarrow> bool" where
  "buf_ok s i \<longleftrightarrow> (let x = bufs s i in
     (sl_locked (sleeplks s (BufSleep i)) \<longleftrightarrow> held s i) \<and>
     (held s i \<longrightarrow> b_refcnt x = 1 \<and> b_dev x = 1 \<and> b_valid x \<and> b_blockno x < disksize s) \<and>
     (b_dirty x \<longrightarrow> b_valid x \<and> b_dev x = 1) \<and>
     (b_valid x \<and> b_dev x = 1 \<and> \<not> b_dirty x \<and> \<not> held s i \<longrightarrow> b_data x = disk s (b_blockno x)))"

definition cache_ok :: "'z kbio_scheme \<Rightarrow> bool" where
  "cache_ok s \<longleftrightarrow> calm s \<and> (\<exists>xs. lru s xs) \<and> (\<forall>b i j. cached s b i \<longrightarrow> cached s b j \<longrightarrow> i = j) \<and>
     (\<forall>i<NBUF. buf_ok s i)"

definition view :: "'z kbio_scheme \<Rightarrow> nat \<Rightarrow> block" where
  "view s b = (case List.find (\<lambda>i. b_dev (bufs s i) = 1 \<and> b_blockno (bufs s i) = b \<and> b_valid (bufs s i)) [0..<NBUF] of
     Some i \<Rightarrow> bdata s i | None \<Rightarrow> disk s b)"

lemma view_cached:
  assumes "cache_ok s" "cached s b i" "b_valid (bufs s i)"
  shows "view s b = bdata s i"
proof (cases "List.find (\<lambda>i. b_dev (bufs s i) = 1 \<and> b_blockno (bufs s i) = b \<and> b_valid (bufs s i)) [0..<NBUF]")
  case None
  then show ?thesis using assms by (auto simp: find_None_iff cached_def)
next
  case (Some j)
  then have "cached s b j" by (auto simp: find_Some_iff cached_def)
  then have "i = j" using assms unfolding cache_ok_def by blast
  then show ?thesis unfolding view_def Some by simp
qed

lemma view_uncached:
  assumes "\<And>i. cached s b i \<Longrightarrow> \<not> b_valid (bufs s i)"
  shows "view s b = disk s b"
proof -
  have "List.find (\<lambda>i. b_dev (bufs s i) = 1 \<and> b_blockno (bufs s i) = b \<and> b_valid (bufs s i)) [0..<NBUF] = None"
    using assms by (auto simp: find_None_iff cached_def)
  then show ?thesis unfolding view_def by simp
qed

text \<open>A buffer that agrees with the view determines it together with the other blocks.\<close>

lemma view_eqI:
  assumes s: "cache_ok s" and t: "cache_ok t"
    and other: "\<And>j b. j < NBUF \<Longrightarrow> j \<noteq> i \<Longrightarrow> cached t b j = cached s b j \<and>
        (cached s b j \<longrightarrow> b_valid (bufs t j) = b_valid (bufs s j) \<and> bdata t j = bdata s j)"
    and i: "cached t b0 i" "b_valid (bufs t i)" "bdata t i = v"
    and ev: "\<And>b. cached s b i \<Longrightarrow> b \<noteq> b0 \<Longrightarrow> view s b = disk t b"
    and d: "\<And>b. b \<noteq> b0 \<Longrightarrow> disk t b = disk s b"
  shows "view t = (view s)(b0 := v)"
proof
  fix b
  show "view t b = ((view s)(b0 := v)) b"
  proof (cases "b = b0")
    case True
    then show ?thesis using view_cached [OF t i(1,2)] i(3) by simp
  next
    case False
    then have ni: "\<not> cached t b i" using i(1) by (auto simp: cached_def)
    show ?thesis
    proof (cases "\<exists>j. cached t b j \<and> b_valid (bufs t j)")
      case True
      then obtain j where j: "cached t b j" "b_valid (bufs t j)" by blast
      then have "j < NBUF" "j \<noteq> i" using ni by (auto simp: cached_def)
      then have c: "cached s b j" "b_valid (bufs s j)" "bdata t j = bdata s j" using other [of j b] j by auto
      show ?thesis using view_cached [OF t j] view_cached [OF s c(1,2)] c(3) \<open>b \<noteq> b0\<close> by simp
    next
      case no: False
      then have vt: "view t b = disk t b" by (intro view_uncached) blast
      show ?thesis
      proof (cases "cached s b i")
        case True
        then show ?thesis using ev [OF True \<open>b \<noteq> b0\<close>] vt \<open>b \<noteq> b0\<close> by simp
      next
        case nc: False
        have "\<not> b_valid (bufs s j)" if j: "cached s b j" for j
        proof -
          have "j < NBUF" "j \<noteq> i" using j nc by (auto simp: cached_def)
          then show ?thesis using other [of j b] j no by auto
        qed
        then have "view s b = disk s b" by (intro view_uncached) blast
        then show ?thesis using vt d [OF \<open>b \<noteq> b0\<close>] \<open>b \<noteq> b0\<close> by simp
      qed
    qed
  qed
qed

section \<open>What stays\<close>

definition same_rest :: "'z kbio_scheme \<Rightarrow> 'z kbio_scheme \<Rightarrow> bool" where
  "same_rest s t \<longleftrightarrow> woken (kptable s) (kptable t) \<and>
     t = s\<lparr>sleeplks := sleeplks t, kptable := kptable t, disk := disk t, disk_past := disk_past t,
           bufs := bufs t, head_prev := head_prev t, head_next := head_next t\<rparr> \<and>
     (\<forall>l. (\<forall>i. l \<noteq> BufSleep i) \<longrightarrow> sleeplks t l = sleeplks s l)"

lemma same_rest_refl [simp]: "same_rest s s"
  by (simp add: same_rest_def)

lemma same_rest_trans: "same_rest s t \<Longrightarrow> same_rest t u \<Longrightarrow> same_rest s u"
  unfolding same_rest_def
proof (elim conjE, intro conjI)
  assume "woken (kptable s) (kptable t)" "woken (kptable t) (kptable u)"
  then show "woken (kptable s) (kptable u)" by (rule woken_trans)
next
  assume t: "t = s\<lparr>sleeplks := sleeplks t, kptable := kptable t, disk := disk t, disk_past := disk_past t,
           bufs := bufs t, head_prev := head_prev t, head_next := head_next t\<rparr>"
    and u: "u = t\<lparr>sleeplks := sleeplks u, kptable := kptable u, disk := disk u, disk_past := disk_past u,
           bufs := bufs u, head_prev := head_prev u, head_next := head_next u\<rparr>"
  show "u = s\<lparr>sleeplks := sleeplks u, kptable := kptable u, disk := disk u, disk_past := disk_past u,
           bufs := bufs u, head_prev := head_prev u, head_next := head_next u\<rparr>"
    by (subst u, subst t) simp
qed auto

lemma same_restD:
  assumes "same_rest s t"
  shows "disksize t = disksize s" "kbio.more t = kbio.more s" "me t = me s" "curproc t = curproc s"
proof -
  have t: "t = s\<lparr>sleeplks := sleeplks t, kptable := kptable t, disk := disk t, disk_past := disk_past t,
           bufs := bufs t, head_prev := head_prev t, head_next := head_next t\<rparr>" using assms by (simp add: same_rest_def)
  show "disksize t = disksize s" "kbio.more t = kbio.more s" "me t = me s" "curproc t = curproc s"
    by (subst t, simp)+
qed

end
