(* ===== verification/Bio_Ops.thy ===== *)
theory Bio_Ops
  imports Bio_Cache
begin

text \<open>
  The operations of the buffer cache, as seen by one process: \<open>bread\<close> returns a locked buffer with the
  view of the block, \<open>bwrite\<close> makes disk and view agree on it, \<open>brelse\<close> gives it back.
\<close>

section \<open>Getting a buffer\<close>

definition lock_buf :: "nat \<Rightarrow> 'z kbio_scheme \<Rightarrow> 'z kbio_scheme" where
  "lock_buf i s = s\<lparr>sleeplks := (sleeplks s)(BufSleep i := \<lparr>sl_locked = True, sl_pid = cur_pid s\<rparr>)\<rparr>"

lemma lock_buf_simps [simp]:
  "bufs (lock_buf i s) = bufs s" "disk (lock_buf i s) = disk s" "disk_past (lock_buf i s) = disk_past s"
  "disksize (lock_buf i s) = disksize s" "head_next (lock_buf i s) = head_next s" "head_prev (lock_buf i s) = head_prev s"
  "kptable (lock_buf i s) = kptable s" "calm (lock_buf i s) = calm s"
  "sleeplks (lock_buf i s) = (sleeplks s)(BufSleep i := \<lparr>sl_locked = True, sl_pid = cur_pid s\<rparr>)"
  by (simp_all add: lock_buf_def)

lemma cur_pid_upd_buf [simp]: "cur_pid (upd_buf i f s) = cur_pid s"
  by (simp add: cur_pid_def)

lemma cache_ok_calm: "cache_ok s \<Longrightarrow> calm s"
  by (simp add: cache_ok_def)

lemma cache_ok_buf: "cache_ok s \<Longrightarrow> i < NBUF \<Longrightarrow> buf_ok s i"
  unfolding cache_ok_def by blast

lemma cache_ok_unique: "cache_ok s \<Longrightarrow> cached s b i \<Longrightarrow> cached s b j \<Longrightarrow> i = j"
  unfolding cache_ok_def by blast

lemma buf_okD:
  assumes "buf_ok s i"
  shows "sl_locked (sleeplks s (BufSleep i)) = held s i"
    "held s i \<Longrightarrow> b_refcnt (bufs s i) = 1 \<and> b_dev (bufs s i) = 1 \<and> b_valid (bufs s i) \<and> b_blockno (bufs s i) < disksize s"
    "b_dirty (bufs s i) \<Longrightarrow> b_valid (bufs s i) \<and> b_dev (bufs s i) = 1"
    "b_valid (bufs s i) \<Longrightarrow> b_dev (bufs s i) = 1 \<Longrightarrow> \<not> b_dirty (bufs s i) \<Longrightarrow> \<not> held s i \<Longrightarrow>
       bdata s i = disk s (b_blockno (bufs s i))"
  using assms by (auto simp: buf_ok_def Let_def)

lemma cachedD: "cached s b i \<Longrightarrow> i < NBUF \<and> b_dev (bufs s i) = 1 \<and> b_blockno (bufs s i) = b"
  by (simp add: cached_def)

lemma cache_ok_unlocked: "cache_ok s \<Longrightarrow> i < NBUF \<Longrightarrow> \<not> held s i \<Longrightarrow> \<not> sl_locked (sleeplks s (BufSleep i))"
  using buf_okD(1) [OF cache_ok_buf] by blast

lemma bget_hit:
  assumes ok: "cache_ok s" and c: "cached s b i" "\<not> held s i"
  shows "bget 1 b s = (Inr i, lock_buf i (upd_buf i (\<lambda>x. x\<lparr>b_refcnt := 1\<rparr>) s))"
proof -
  let ?P = "\<lambda>i. b_dev (bufs s i) = 1 \<and> b_blockno (bufs s i) = b"
  obtain xs where xs: "lru s xs" using ok by (auto simp: cache_ok_def)
  have "List.find ?P xs = Some i"
  proof (cases "List.find ?P xs")
    case None
    then show ?thesis using c xs by (auto simp: find_None_iff cached_def lru_def)
  next
    case (Some j)
    then have "j \<in> set xs" "?P j" by (auto simp: find_Some_iff)
    then have "cached s b j" using xs by (auto simp: cached_def lru_def)
    then show ?thesis using ok c Some unfolding cache_ok_def by blast
  qed
  then have f: "list_search NBUF (\<lambda>i. b_next (bufs s i)) ?P (head_next s) = Inr (Some i)"
    using search_next [OF xs, of ?P] by (simp del: list_search.simps)
  have i: "i < NBUF" "b_refcnt (bufs s i) = 0" using c by (auto simp: cached_def held_def)
  have l: "lockable BcacheLock s" "calm s" using ok calm_lockable by (auto simp: cache_ok_def)
  let ?t = "upd_buf i (\<lambda>x. x\<lparr>b_refcnt := b_refcnt x + 1\<rparr>) s"
  have "calm ?t" "\<not> sl_locked (sleeplks ?t (BufSleep i))" using l cache_ok_unlocked [OF ok i(1)] c by auto
  note a = acquiresleep_calm [OF this]
  have "?t = upd_buf i (\<lambda>x. x\<lparr>b_refcnt := 1\<rparr>) s" using i by (simp add: upd_buf_def)
  then show ?thesis using f l a
    by (simp add: bget_def critical took_upd_buf lock_buf_def del: list_search.simps NBUF_def)
qed

definition fresh_buf :: "nat \<Rightarrow> buf \<Rightarrow> buf" where
  "fresh_buf b x = x\<lparr>b_dev := 1, b_blockno := b, b_valid := False, b_dirty := False, b_refcnt := 1\<rparr>"

lemma bget_miss:
  assumes ok: "cache_ok s" and nc: "\<And>i. \<not> cached s b i" and av: "\<exists>i<NBUF. \<not> held s i \<and> \<not> b_dirty (bufs s i)"
  shows "\<exists>i<NBUF. \<not> held s i \<and> \<not> b_dirty (bufs s i) \<and> bget 1 b s = (Inr i, lock_buf i (upd_buf i (fresh_buf b) s))"
proof -
  let ?P = "\<lambda>i. b_dev (bufs s i) = 1 \<and> b_blockno (bufs s i) = b"
    and ?Q = "\<lambda>i. b_refcnt (bufs s i) = 0 \<and> \<not> b_dirty (bufs s i)"
  obtain xs where xs: "lru s xs" using ok by (auto simp: cache_ok_def)
  have "List.find ?P xs = None" using nc xs by (auto simp: find_None_iff cached_def lru_def)
  then have f: "list_search NBUF (\<lambda>i. b_next (bufs s i)) ?P (head_next s) = Inr None"
    using search_next [OF xs, of ?P] by (simp del: list_search.simps)
  obtain i where i: "List.find ?Q (rev xs) = Some i"
  proof (cases "List.find ?Q (rev xs)")
    case None
    then show ?thesis using av xs by (auto simp: find_None_iff held_def lru_def)
  qed blast
  have "i \<in> set (rev xs)" "?Q i" using i by (metis (mono_tags, lifting) find_Some_iff nth_mem)+
  then have iq: "i < NBUF" "\<not> held s i" "\<not> b_dirty (bufs s i)" using xs by (auto simp: held_def lru_def)
  have g: "list_search NBUF (\<lambda>i. b_prev (bufs s i)) ?Q (head_prev s) = Inr (Some i)"
    using search_prev [OF xs, of ?Q] i by (simp del: list_search.simps)
  have l: "lockable BcacheLock s" "calm s" using ok calm_lockable by (auto simp: cache_ok_def)
  let ?t = "upd_buf i (fresh_buf b) s"
  have "calm ?t" "\<not> sl_locked (sleeplks ?t (BufSleep i))" using l cache_ok_unlocked [OF ok iq(1,2)] by auto
  note a = acquiresleep_calm [OF this]
  have "bget 1 b s = (Inr i, lock_buf i ?t)" using f g l a unfolding fresh_buf_def
    by (simp add: bget_def critical took_upd_buf lock_buf_def del: list_search.simps NBUF_def)
  then show ?thesis using iq by blast
qed

section \<open>Reading\<close>

lemma lru_cong:
  assumes "lru s xs" "nextp t = nextp s" "prevp t = prevp s"
  shows "lru t xs"
  using assms by (simp add: lru_def)

lemma lru_upd_buf:
  assumes "\<And>x. b_next (f x) = b_next x" "\<And>x. b_prev (f x) = b_prev x"
  shows "lru (upd_buf i f s) = lru s"
proof -
  have "nextp (upd_buf i f s) = nextp s" "prevp (upd_buf i f s) = prevp s"
    using assms by (auto simp: nextp_def prevp_def fun_eq_iff split: option.split)
  then show ?thesis by (intro ext) (simp add: lru_def)
qed

lemma lru_lock_buf [simp]: "lru (lock_buf i s) = lru s"
proof -
  have "nextp (lock_buf i s) = nextp s" "prevp (lock_buf i s) = prevp s"
    by (auto simp: nextp_def prevp_def fun_eq_iff split: option.split)
  then show ?thesis by (intro ext) (simp add: lru_def)
qed

definition dirty_block :: "'z kbio_scheme \<Rightarrow> nat \<Rightarrow> bool" where
  "dirty_block s b \<longleftrightarrow> (\<exists>i. cached s b i \<and> b_dirty (bufs s i))"

text \<open>What \<open>bread\<close> guarantees.\<close>

definition got :: "'z kbio_scheme \<Rightarrow> nat \<Rightarrow> nat \<Rightarrow> 'z kbio_scheme \<Rightarrow> bool" where
  "got s b i t \<longleftrightarrow> cache_ok t \<and> same_rest s t \<and> cached t b i \<and> held t i \<and> \<not> held s i \<and>
     disk t = disk s \<and> disk_past t = disk_past s \<and> view t = view s \<and> dirty_block t = dirty_block s \<and>
     (\<forall>j. j \<noteq> i \<longrightarrow> bufs t j = bufs s j)"

lemma got_data: "got s b i t \<Longrightarrow> bdata t i = view s b \<and> b_valid (bufs t i)"
  unfolding got_def
proof (elim conjE)
  assume a: "cache_ok t" "cached t b i" "held t i" "view t = view s"
  then have "b_valid (bufs t i)" using buf_okD(2) [OF cache_ok_buf] cachedD by blast
  then show ?thesis using view_cached [OF a(1,2)] a(4) by simp
qed

lemma buf_ok_cong:
  assumes "buf_ok s j" "bufs t j = bufs s j" "sleeplks t (BufSleep j) = sleeplks s (BufSleep j)" "disksize t = disksize s"
    "\<And>b. b_dev (bufs s j) = 1 \<Longrightarrow> b_blockno (bufs s j) = b \<Longrightarrow> disk t b = disk s b"
  shows "buf_ok t j"
  using assms by (auto simp: buf_ok_def Let_def held_def)

lemma got_hit:
  assumes ok: "cache_ok s" and c: "cached s b i" "\<not> held s i" "b_valid (bufs s i)" and b: "b < disksize s"
  shows "got s b i (lock_buf i (upd_buf i (\<lambda>x. x\<lparr>b_refcnt := 1\<rparr>) s))" (is "got s b i ?t")
proof -
  have cc: "cached ?t b' j = cached s b' j" for b' j by (auto simp: cached_def)
  have i: "i < NBUF" "b_dev (bufs s i) = 1" "b_blockno (bufs s i) = b" using c by (auto simp: cached_def)
  have bo: "buf_ok ?t j" if j: "j < NBUF" for j
  proof (cases "j = i")
    case True
    then show ?thesis using i b c by (auto simp: buf_ok_def Let_def held_def)
  next
    case False
    then show ?thesis by (intro buf_ok_cong [OF cache_ok_buf [OF ok j]]) auto
  qed
  obtain xs where "lru s xs" using ok unfolding cache_ok_def by blast
  then have "lru ?t xs" by (simp add: lru_upd_buf)
  then have ct: "cache_ok ?t" unfolding cache_ok_def cc
    using cache_ok_calm [OF ok] cache_ok_unique [OF ok] bo by auto
  have v: "view ?t = (view s)(b := view s b)"
    by (rule view_eqI [OF ok ct, of i])
      (use cc c i view_cached [OF ok c(1,3)] in \<open>auto simp: cached_def\<close>)
  have dt: "dirty_block ?t = dirty_block s" unfolding dirty_block_def cc by (auto simp: fun_eq_iff)
  have "same_rest s ?t" by (simp add: same_rest_def upd_buf_def lock_buf_def)
  then show ?thesis unfolding got_def using ct cc c v dt by (simp add: held_def)
qed

text \<open>A buffer that has been claimed for a block and filled from the disk.\<close>

lemma got_fill:
  assumes ok: "cache_ok s" and b: "b < disksize s" and i: "i < NBUF" "\<not> held s i" "\<not> b_dirty (bufs s i)"
    and nc: "\<And>j. cached s b j \<Longrightarrow> j = i \<and> \<not> b_valid (bufs s i)"
    and t: "bufs t = (bufs s)(i := (fresh_buf b (bufs s i))\<lparr>b_data := disk s b, b_valid := True\<rparr>)"
      "sleeplks t = (sleeplks s)(BufSleep i := \<lparr>sl_locked = True, sl_pid = pid\<rparr>)" "same_rest s t" "calm t"
      "disk t = disk s" "disk_past t = disk_past s" "head_next t = head_next s" "head_prev t = head_prev s"
  shows "got s b i t"
proof -
  have cj: "cached t b' j = cached s b' j" if "j \<noteq> i" for b' j using that by (auto simp: cached_def t)
  have ci: "cached t b' i \<longleftrightarrow> b' = b" for b' using i by (auto simp: cached_def t fresh_buf_def)
  note u = cache_ok_unique [OF ok]
  have ut: "i' = j" if "cached t b' i'" "cached t b' j" for b' i' j
  proof -
    have "i' = i" if "cached t b' i'" "b' = b" for i' using that cj nc by blast
    moreover have "i' \<noteq> i" if "cached t b' i'" "b' \<noteq> b" for i' using that ci by blast
    ultimately show ?thesis using that cj u by metis
  qed
  have bo: "buf_ok t j" if j: "j < NBUF" for j
  proof (cases "j = i")
    case True
    then show ?thesis using b by (auto simp: buf_ok_def Let_def held_def t fresh_buf_def same_restD [OF t(3)])
  next
    case False
    then show ?thesis by (intro buf_ok_cong [OF cache_ok_buf [OF ok j]]) (auto simp: t same_restD [OF t(3)])
  qed
  have "nextp t = nextp s" "prevp t = prevp s"
    by (auto simp: nextp_def prevp_def fun_eq_iff t fresh_buf_def split: option.split)
  then have "\<exists>xs. lru t xs" using ok lru_cong unfolding cache_ok_def by blast
  then have ct: "cache_ok t" unfolding cache_ok_def using t(4) ut bo by blast
  have "view s b = disk s b" using nc by (intro view_uncached) blast
  moreover have "view t = (view s)(b := disk s b)"
  proof (rule view_eqI [OF ok ct, of i])
    fix b' assume b': "cached s b' i" "b' \<noteq> b"
    show "view s b' = disk t b'"
    proof (cases "b_valid (bufs s i)")
      case True
      have "bdata s i = disk s b'"
        using buf_okD(4) [OF cache_ok_buf [OF ok i(1)] True] cachedD [OF b'(1)] i by simp
      then show ?thesis using view_cached [OF ok b'(1) True] t by simp
    next
      case False
      then have "view s b' = disk s b'" using u [OF b'(1)] by (intro view_uncached) blast
      then show ?thesis using t by simp
    qed
  qed (simp_all add: cj ci, simp_all add: t fresh_buf_def)
  ultimately have v: "view t = view s" by (simp add: fun_upd_idem)
  have dt: "dirty_block t = dirty_block s"
  proof
    fix b'
    have "b_dirty (bufs t j) \<and> cached t b' j \<longleftrightarrow> b_dirty (bufs s j) \<and> cached s b' j" for j
    proof (cases "j = i")
      case True
      then show ?thesis using i(3) by (simp add: t fresh_buf_def)
    next
      case False
      then show ?thesis using cj [OF False] by (simp add: t)
    qed
    then show "dirty_block t b' = dirty_block s b'" unfolding dirty_block_def by blast
  qed
  show ?thesis unfolding got_def using ct t v ci i dt by (auto simp: held_def fresh_buf_def)
qed

lemma iderw_read:
  assumes "calm s" "sl_locked (sleeplks s (BufSleep i))" "\<not> b_valid (bufs s i)" "\<not> b_dirty (bufs s i)"
    "b_dev (bufs s i) = 1" "b_blockno (bufs s i) < disksize s"
  shows "iderw i s = (Inr (), upd_buf i (\<lambda>y. y\<lparr>b_data := disk s (b_blockno (bufs s i)), b_valid := True\<rparr>) s)"
  using assms by (simp add: iderw_def holdingsleep_calm)

lemma bread_ok:
  assumes ok: "cache_ok s" and b: "b < disksize s" and free: "\<forall>i. cached s b i \<longrightarrow> \<not> held s i"
    and av: "(\<exists>i. cached s b i) \<or> (\<exists>i<NBUF. \<not> held s i \<and> \<not> b_dirty (bufs s i))"
  shows "\<exists>i t. bread 1 b s = (Inr i, t) \<and> got s b i t"
proof (cases "\<exists>i. cached s b i")
  case True
  then obtain i where i: "cached s b i" "\<not> held s i" using free by blast
  have lt: "i < NBUF" "b_dev (bufs s i) = 1" "b_blockno (bufs s i) = b" using i by (auto simp: cached_def)
  let ?t = "lock_buf i (upd_buf i (\<lambda>x. x\<lparr>b_refcnt := 1\<rparr>) s)"
  note g = bget_hit [OF ok i]
  show ?thesis
  proof (cases "b_valid (bufs s i)")
    case v: True
    then have "bread 1 b s = (Inr i, ?t)" using g by (simp add: bread_def bindK_apply)
    then show ?thesis using got_hit [OF ok i v b] by blast
  next
    case nv: False
    have nd: "\<not> b_dirty (bufs s i)" using nv buf_okD(3) [OF cache_ok_buf [OF ok lt(1)]] by blast
    let ?u = "upd_buf i (\<lambda>y. y\<lparr>b_data := disk s b, b_valid := True\<rparr>) ?t"
    have "iderw i ?t = (Inr (), ?u)"
      using iderw_read [of ?t i] nv nd lt b cache_ok_calm [OF ok] by simp
    then have "bread 1 b s = (Inr i, ?u)" using g nv by (simp add: bread_def bindK_apply)
    moreover have "got s b i ?u"
    proof (rule got_fill [OF ok b lt(1) i(2) nd])
      show "j = i \<and> \<not> b_valid (bufs s i)" if "cached s b j" for j
        using cache_ok_unique [OF ok that i(1)] nv by blast
      show "bufs ?u = (bufs s)(i := (fresh_buf b (bufs s i))\<lparr>b_data := disk s b, b_valid := True\<rparr>)"
        using lt nd nv by (auto simp: fresh_buf_def fun_eq_iff)
      show "same_rest s ?u" by (simp add: same_rest_def upd_buf_def lock_buf_def)
    qed (use cache_ok_calm [OF ok] in auto)
    ultimately show ?thesis by blast
  qed
next
  case False
  then obtain i where i: "i < NBUF" "\<not> held s i" "\<not> b_dirty (bufs s i)"
    and g: "bget 1 b s = (Inr i, lock_buf i (upd_buf i (fresh_buf b) s))"
    using bget_miss [OF ok, of b] av by blast
  let ?t = "lock_buf i (upd_buf i (fresh_buf b) s)"
  let ?u = "upd_buf i (\<lambda>y. y\<lparr>b_data := disk s b, b_valid := True\<rparr>) ?t"
  have "iderw i ?t = (Inr (), ?u)"
    using iderw_read [of ?t i] b cache_ok_calm [OF ok] by (simp add: fresh_buf_def)
  then have "bread 1 b s = (Inr i, ?u)" using g by (simp add: bread_def bindK_apply fresh_buf_def)
  moreover have "got s b i ?u"
  proof (rule got_fill [OF ok b i])
    show "j = i \<and> \<not> b_valid (bufs s i)" if "cached s b j" for j using False that by blast
    show "same_rest s ?u" by (simp add: same_rest_def upd_buf_def lock_buf_def)
  qed (use cache_ok_calm [OF ok] in auto)
  ultimately show ?thesis by blast
qed

section \<open>Changing, writing and releasing\<close>

text \<open>What an operation on a buffer in use may do: change that buffer, and the disk at its block.\<close>

definition touched :: "'z kbio_scheme \<Rightarrow> nat \<Rightarrow> nat \<Rightarrow> 'z kbio_scheme \<Rightarrow> bool" where
  "touched s b i t \<longleftrightarrow> cache_ok t \<and> same_rest s t \<and> cached t b i \<and>
     (\<forall>j b'. cached t b' j = cached s b' j) \<and> (\<forall>j. j \<noteq> i \<longrightarrow> held t j = held s j) \<and>
     (\<forall>j. j \<noteq> i \<longrightarrow> b_dirty (bufs t j) = b_dirty (bufs s j) \<and> b_valid (bufs t j) = b_valid (bufs s j) \<and> bdata t j = bdata s j)"

lemma touched_view:
  assumes ok: "cache_ok s" and t: "touched s b i t" "b_valid (bufs t i)" and d: "\<And>b'. b' \<noteq> b \<Longrightarrow> disk t b' = disk s b'"
  shows "view t = (view s)(b := bdata t i)"
proof (rule view_eqI [OF ok, of t i])
  show "cache_ok t" "cached t b i" using t(1) unfolding touched_def by blast+
  have c: "cached s b' i \<longleftrightarrow> cached t b' i" for b' using t(1) unfolding touched_def by blast
  show "view s b' = disk t b'" if "cached s b' i" "b' \<noteq> b" for b'
    using that c \<open>cached t b i\<close> by (auto simp: cached_def)
  show "cached t b' j = cached s b' j \<and> (cached s b' j \<longrightarrow> b_valid (bufs t j) = b_valid (bufs s j) \<and> bdata t j = bdata s j)"
    if "j < NBUF" "j \<noteq> i" for j b' using t(1) that unfolding touched_def by blast
qed (use t d in auto)

lemma touchedI:
  assumes ok: "cache_ok s" and i: "cached s b i"
    and t: "bufs t = (bufs s)(i := x)" "b_dev x = 1" "b_blockno x = b" "b_next x = b_next (bufs s i)" "b_prev x = b_prev (bufs s i)"
      "same_rest s t" "calm t" "\<And>j. j \<noteq> i \<Longrightarrow> sleeplks t (BufSleep j) = sleeplks s (BufSleep j)"
      "head_next t = head_next s" "head_prev t = head_prev s" "\<And>b'. b' \<noteq> b \<Longrightarrow> disk t b' = disk s b'"
    and bi: "buf_ok t i"
  shows "touched s b i t"
proof -
  have ci: "i < NBUF" "b_dev (bufs s i) = 1" "b_blockno (bufs s i) = b" using i by (simp_all add: cached_def)
  have cc: "cached t b' j = cached s b' j" for b' j using ci t by (cases "j = i") (simp_all add: cached_def)
  have bo: "buf_ok t j" if j: "j < NBUF" for j
  proof (cases "j = i")
    case True
    then show ?thesis using bi by simp
  next
    case False
    show ?thesis
    proof (rule buf_ok_cong [OF cache_ok_buf [OF ok j]])
      fix b' assume "b_dev (bufs s j) = 1" "b_blockno (bufs s j) = b'"
      then have "b' \<noteq> b" using False cache_ok_unique [OF ok i, of j] j by (auto simp: cached_def)
      then show "disk t b' = disk s b'" by (rule t(11))
    qed (use False t same_restD [OF t(6)] in simp_all)
  qed
  obtain xs where xs: "lru s xs" using ok unfolding cache_ok_def by blast
  have "nextp t = nextp s" "prevp t = prevp s"
    using t by (auto simp: nextp_def prevp_def fun_eq_iff split: option.split)
  then have "lru t xs" by (rule lru_cong [OF xs])
  then have "cache_ok t" unfolding cache_ok_def cc using t(7) cache_ok_unique [OF ok] bo by blast
  then show ?thesis unfolding touched_def using cc i t by (simp add: held_def)
qed

lemma upd_data_ok:
  assumes ok: "cache_ok s" and i: "cached s b i" "held s i"
  shows "\<exists>t. upd_data i f s = (Inr (), t) \<and> touched s b i t \<and> held t i \<and> disk t = disk s \<and> disk_past t = disk_past s \<and>
    b_dirty (bufs t i) = b_dirty (bufs s i) \<and> bdata t i = f (bdata s i) \<and> view t = (view s)(b := f (view s b))"
proof -
  let ?t = "upd_buf i (\<lambda>x. x\<lparr>b_data := f (b_data x)\<rparr>) s"
  have ci: "i < NBUF" "b_dev (bufs s i) = 1" "b_blockno (bufs s i) = b" using i by (simp_all add: cached_def)
  note bo = cache_ok_buf [OF ok ci(1)]
  have h: "held ?t i" using i by (simp add: held_def)
  have bi: "buf_ok ?t i" using bo i h by (auto simp: buf_ok_def Let_def held_def)
  have sr: "same_rest s ?t" by (simp add: same_rest_def upd_buf_def)
  have t: "touched s b i ?t"
    by (rule touchedI [OF ok i(1), of ?t "bufs ?t i"]) (use ci cache_ok_calm [OF ok] bi sr in simp_all)
  have v: "b_valid (bufs s i)" using buf_okD(2) [OF bo i(2)] by blast
  then have "view ?t = (view s)(b := f (bdata s i))" using touched_view [OF ok t] by simp
  then show ?thesis using t h view_cached [OF ok i(1) v] by (intro exI [of _ ?t]) (simp add: upd_data_def)
qed

lemma bwrite_ok:
  assumes ok: "cache_ok s" and i: "cached s b i" "held s i"
  shows "\<exists>t. bwrite i s = (Inr (), t) \<and> touched s b i t \<and> held t i \<and> disk t = (disk s)(b := bdata s i) \<and>
    disk_past t = disk s # disk_past s \<and> \<not> b_dirty (bufs t i) \<and> bdata t i = bdata s i \<and> view t = view s"
proof -
  have ci: "i < NBUF" "b_dev (bufs s i) = 1" "b_blockno (bufs s i) = b" using i by (simp_all add: cached_def)
  note bo = cache_ok_buf [OF ok ci(1)]
  have v: "b_valid (bufs s i)" "b < disksize s" "sl_locked (sleeplks s (BufSleep i))"
    using buf_okD(1,2) [OF bo] i(2) ci by auto
  let ?t = "upd_buf i (\<lambda>x. x\<lparr>b_dirty := False, b_valid := True\<rparr>)
    ((upd_buf i (\<lambda>x. x\<lparr>b_dirty := True\<rparr>) s)\<lparr>disk := (disk s)(b := bdata s i), disk_past := disk s # disk_past s\<rparr>)"
  have c: "calm s" "calm (upd_buf i (\<lambda>x. x\<lparr>b_dirty := True\<rparr>) s)" using cache_ok_calm [OF ok] by simp_all
  have run: "bwrite i s = (Inr (), ?t)"
    unfolding bwrite_def iderw_def using v ci by (simp add: bindK_apply holdingsleep_calm [OF c(1)] holdingsleep_calm [OF c(2)])
  have h: "held ?t i" using i by (simp add: held_def)
  have ct: "calm ?t" using c(1) by (simp add: calm_def lockable_def cpu_ok_def upd_buf_def)
  have bi: "buf_ok ?t i" using bo i h v by (auto simp: buf_ok_def Let_def held_def)
  have sr: "same_rest s ?t" by (simp add: same_rest_def upd_buf_def)
  have t: "touched s b i ?t"
    by (rule touchedI [OF ok i(1), of ?t "bufs ?t i"]) (use ci ct bi sr in simp_all)
  have "view ?t = (view s)(b := bdata s i)" using touched_view [OF ok t] by simp
  then have "view ?t = view s" using view_cached [OF ok i(1) v(1)] by (simp add: fun_upd_idem)
  then show ?thesis using t h run by (intro exI [of _ ?t]) simp
qed

text \<open>The list operations change links only.\<close>

definition same_bufs :: "'z kbio_scheme \<Rightarrow> 'z kbio_scheme \<Rightarrow> bool" where
  "same_bufs s t \<longleftrightarrow> (\<forall>j. (bufs t j)\<lparr>b_prev := None, b_next := None\<rparr> = (bufs s j)\<lparr>b_prev := None, b_next := None\<rparr>) \<and>
     t = s\<lparr>bufs := bufs t, head_prev := head_prev t, head_next := head_next t\<rparr>"

lemma same_bufs_refl [simp]: "same_bufs s s"
  by (simp add: same_bufs_def)

lemma same_bufs_trans: "same_bufs s t \<Longrightarrow> same_bufs t u \<Longrightarrow> same_bufs s u"
proof -
  assume a: "same_bufs s t" "same_bufs t u"
  have t: "t = s\<lparr>bufs := bufs t, head_prev := head_prev t, head_next := head_next t\<rparr>"
    and u: "u = t\<lparr>bufs := bufs u, head_prev := head_prev u, head_next := head_next u\<rparr>"
    using a by (simp_all add: same_bufs_def)
  have "u = s\<lparr>bufs := bufs u, head_prev := head_prev u, head_next := head_next u\<rparr>"
    by (subst u, subst t) simp
  then show ?thesis using a unfolding same_bufs_def by simp
qed

lemma same_bufs_set_next: "same_bufs s (set_next p v s)"
  and same_bufs_set_prev: "same_bufs s (set_prev p v s)"
  by (auto simp: same_bufs_def set_next_def set_prev_def upd_buf_def split: option.split)

lemma same_bufs_move: "same_bufs s (list_insert i (list_remove i s))"
  unfolding list_insert_def list_remove_def Let_def
  by (meson same_bufs_set_next same_bufs_set_prev same_bufs_trans)

lemma same_bufsD:
  assumes "same_bufs s t"
  shows "b_valid (bufs t j) = b_valid (bufs s j)" "b_dirty (bufs t j) = b_dirty (bufs s j)" "b_dev (bufs t j) = b_dev (bufs s j)"
    "b_blockno (bufs t j) = b_blockno (bufs s j)" "b_refcnt (bufs t j) = b_refcnt (bufs s j)" "bdata t j = bdata s j"
    "disk t = disk s" "disk_past t = disk_past s" "sleeplks t = sleeplks s" "kptable t = kptable s" "disksize t = disksize s"
    "calm t = calm s" "lockable l t = lockable l s"
proof -
  have b: "(bufs t j)\<lparr>b_prev := None, b_next := None\<rparr> = (bufs s j)\<lparr>b_prev := None, b_next := None\<rparr>"
    and t: "t = s\<lparr>bufs := bufs t, head_prev := head_prev t, head_next := head_next t\<rparr>"
    using assms by (simp_all add: same_bufs_def)
  show "b_valid (bufs t j) = b_valid (bufs s j)" "b_dirty (bufs t j) = b_dirty (bufs s j)" "b_dev (bufs t j) = b_dev (bufs s j)"
    "b_blockno (bufs t j) = b_blockno (bufs s j)" "b_refcnt (bufs t j) = b_refcnt (bufs s j)" "bdata t j = bdata s j"
    using arg_cong [OF b, of b_valid] arg_cong [OF b, of b_dirty] arg_cong [OF b, of b_dev]
      arg_cong [OF b, of b_blockno] arg_cong [OF b, of b_refcnt] arg_cong [OF b, of b_data] by simp_all
  show "disk t = disk s" "disk_past t = disk_past s" "sleeplks t = sleeplks s" "kptable t = kptable s" "disksize t = disksize s"
    "calm t = calm s" "lockable l t = lockable l s"
    by (subst t, simp add: calm_def lockable_def cpu_ok_def)+
qed

lemma took_move: "list_insert i (list_remove i (took l s)) = took l (list_insert i (list_remove i s))"
  by (simp add: list_insert_def list_remove_def Let_def took_set_next took_set_prev)

lemma brelse_run:
  assumes c: "calm s" and l: "sl_locked (sleeplks s (BufSleep i))" and r: "b_refcnt (bufs s i) = 1"
  shows "brelse i s = (Inr (), list_insert i (list_remove i (upd_buf i (\<lambda>x. x\<lparr>b_refcnt := 0\<rparr>)
    ((mod_ptable (wakeup1 (SleepChan (BufSleep i))) s)\<lparr>sleeplks := (sleeplks s)(BufSleep i := \<lparr>sl_locked = False, sl_pid = 0\<rparr>)\<rparr>))))"
proof -
  let ?s1 = "(mod_ptable (wakeup1 (SleepChan (BufSleep i))) s)\<lparr>sleeplks := (sleeplks s)(BufSleep i := \<lparr>sl_locked = False, sl_pid = 0\<rparr>)\<rparr>"
  have b: "bufs ?s1 = bufs s" by (simp add: mod_ptable_def)
  have e: "upd_buf i (\<lambda>x. x\<lparr>b_refcnt := b_refcnt x - 1\<rparr>) ?s1 = upd_buf i (\<lambda>x. x\<lparr>b_refcnt := 0\<rparr>) ?s1"
    using r b by (simp add: upd_buf_def)
  let ?s2 = "upd_buf i (\<lambda>x. x\<lparr>b_refcnt := 0\<rparr>) ?s1"
  have l1: "lockable BcacheLock ?s1" using calm_lockable [OF c] by simp
  then have l2: "lockable BcacheLock (list_insert i (list_remove i ?s2))"
    by (simp add: same_bufsD(13) [OF same_bufs_move])
  have z: "b_refcnt (bufs ?s2 i) = 0" by simp
  show ?thesis using l l1 l2 z r
    by (simp add: brelse_def bindK_apply holdingsleep_calm [OF c] releasesleep_calm [OF c] acquire_lockable took_upd_buf e took_move
        release_took)
qed

lemma brelse_ok:
  assumes ok: "cache_ok s" and i: "cached s b i" "held s i" and cl: "b_dirty (bufs s i) \<or> bdata s i = disk s b"
  shows "\<exists>t. brelse i s = (Inr (), t) \<and> touched s b i t \<and> \<not> held t i \<and> disk t = disk s \<and> disk_past t = disk_past s \<and>
    b_dirty (bufs t i) = b_dirty (bufs s i) \<and> view t = view s"
proof -
  have ci: "i < NBUF" "b_dev (bufs s i) = 1" "b_blockno (bufs s i) = b" using i by (simp_all add: cached_def)
  note bo = cache_ok_buf [OF ok ci(1)]
  have v: "b_valid (bufs s i)" "b_refcnt (bufs s i) = 1" "sl_locked (sleeplks s (BufSleep i))"
    using buf_okD(1,2) [OF bo] i(2) ci by auto
  define s1 where "s1 = (mod_ptable (wakeup1 (SleepChan (BufSleep i))) s)
    \<lparr>sleeplks := (sleeplks s)(BufSleep i := \<lparr>sl_locked = False, sl_pid = 0\<rparr>)\<rparr>"
  define s2 where "s2 = upd_buf i (\<lambda>x. x\<lparr>b_refcnt := 0\<rparr>) s1"
  define t where "t = list_insert i (list_remove i s2)"
  have run: "brelse i s = (Inr (), t)"
    using brelse_run [OF cache_ok_calm [OF ok] v(3,2)] by (simp add: t_def s2_def s1_def)
  have b1: "bufs s1 = bufs s" "disk s1 = disk s" "disk_past s1 = disk_past s" "disksize s1 = disksize s"
    "head_next s1 = head_next s" "head_prev s1 = head_prev s" "calm s1 = calm s"
    by (simp_all add: s1_def)
  note sb = same_bufsD [OF same_bufs_move [of s2 i], folded t_def]
  have f: "b_valid (bufs t j) = b_valid (bufs s j)" "b_dirty (bufs t j) = b_dirty (bufs s j)" "b_dev (bufs t j) = b_dev (bufs s j)"
    "b_blockno (bufs t j) = b_blockno (bufs s j)" "bdata t j = bdata s j" "b_refcnt (bufs t j) = (if j = i then 0 else b_refcnt (bufs s j))" for j
    by (simp_all add: sb s2_def b1)
  have st: "disk t = disk s" "disk_past t = disk_past s" "disksize t = disksize s" "calm t = calm s"
    "sleeplks t = (sleeplks s)(BufSleep i := \<lparr>sl_locked = False, sl_pid = 0\<rparr>)"
    by (simp_all add: sb s2_def b1) (simp add: s1_def)
  have cc: "cached t b' j = cached s b' j" for b' j by (simp add: cached_def f)
  have bt: "buf_ok t j" if j: "j < NBUF" for j
  proof (cases "j = i")
    case True
    then show ?thesis using cl ci buf_okD(3) [OF bo] by (auto simp: buf_ok_def Let_def held_def f st)
  next
    case False
    then show ?thesis using cache_ok_buf [OF ok j] by (auto simp: buf_ok_def Let_def held_def f st)
  qed
  obtain xs where xs: "lru s xs" using ok unfolding cache_ok_def by blast
  have "nextp s2 = nextp s" "prevp s2 = prevp s"
    by (auto simp: nextp_def prevp_def fun_eq_iff s2_def b1 split: option.split)
  then have "lru s2 xs" by (rule lru_cong [OF xs])
  then have "lru t (i # remove1 i xs)" unfolding t_def using xs ci by (intro lru_move) (auto simp: lru_def)
  then have ct: "cache_ok t" unfolding cache_ok_def cc st
    using cache_ok_calm [OF ok] cache_ok_unique [OF ok] bt by blast
  have "t = s2\<lparr>bufs := bufs t, head_prev := head_prev t, head_next := head_next t\<rparr>"
    using same_bufs_move [of s2 i] by (simp add: same_bufs_def t_def)
  also have "s2 = s\<lparr>sleeplks := sleeplks t, kptable := kptable t, bufs := bufs s2\<rparr>"
    by (simp add: sb s2_def s1_def upd_buf_def mod_ptable_def)
  finally have t_eq: "t = s\<lparr>sleeplks := sleeplks t, kptable := kptable t, disk := disk t, disk_past := disk_past t,
           bufs := bufs t, head_prev := head_prev t, head_next := head_next t\<rparr>" by (simp add: st)
  have "kptable t = wakeup1 (SleepChan (BufSleep i)) (kptable s)" by (simp add: sb s2_def s1_def)
  then have sr: "same_rest s t" unfolding same_rest_def using t_eq by (simp add: st(5))
  have tt: "touched s b i t" unfolding touched_def using ct sr i cc by (simp add: f held_def)
  have "view t = (view s)(b := bdata s i)" using touched_view [OF ok tt] v(1) by (simp add: f st)
  then have "view t = view s" using view_cached [OF ok i(1) v(1)] by (simp add: fun_upd_idem)
  then show ?thesis using run tt by (intro exI [of _ t]) (simp add: f held_def st)
qed

end
