(* ===== verification/Bio_Copy.thy ===== *)
theory Bio_Copy
  imports Bio_Ops
begin

section \<open>Whole transfers\<close>

text \<open>
  The sequences of operations the log uses: with no buffer in use, copy one block to another and
  write it through, or change a block and write it through.
\<close>

lemma touched_dirty:
  assumes "touched s b i t"
  shows "dirty_block t b' = (if b' = b then b_dirty (bufs t i) else dirty_block s b')"
proof -
  have ct: "cache_ok t" and ci: "cached t b i" and cc: "\<And>j b'. cached t b' j = cached s b' j"
    and d: "\<And>j. j \<noteq> i \<Longrightarrow> b_dirty (bufs t j) = b_dirty (bufs s j)" using assms unfolding touched_def by auto
  show ?thesis
  proof (cases "b' = b")
    case True
    then show ?thesis using ci cache_ok_unique [OF ct ci] unfolding dirty_block_def by (metis (full_types))
  next
    case False
    then have "k \<noteq> i" if "cached t b' k" for k using that ci by (auto simp: cached_def)
    then have "cached t b' k \<and> b_dirty (bufs t k) \<longleftrightarrow> cached s b' k \<and> b_dirty (bufs s k)" for k
      using cc [of b' k] d [of k] by auto
    then show ?thesis using False by (simp add: dirty_block_def)
  qed
qed

lemma view_clean:
  assumes ok: "cache_ok s" and f: "\<forall>i. cached s b i \<longrightarrow> \<not> held s i" and d: "\<not> dirty_block s b"
  shows "view s b = disk s b"
proof (cases "\<exists>i. cached s b i \<and> b_valid (bufs s i)")
  case True
  then obtain i where i: "cached s b i" "b_valid (bufs s i)" by blast
  then have "\<not> b_dirty (bufs s i)" using d unfolding dirty_block_def by blast
  then have "bdata s i = disk s b"
    using buf_okD(4) [OF cache_ok_buf [OF ok]] i f cachedD [OF i(1)] by auto
  then show ?thesis using view_cached [OF ok i] by simp
next
  case False
  then show ?thesis by (intro view_uncached) blast
qed

definition idle :: "'z kbio_scheme \<Rightarrow> bool" where
  "idle s \<longleftrightarrow> (\<forall>i. \<not> held s i)"

text \<open>There is a buffer to recycle unless dirty blocks and buffers in use fill the cache.\<close>

lemma buffer_available:
  assumes ok: "cache_ok s" and h: "\<forall>i. held s i \<longrightarrow> i \<in> H" "finite H" and B: "\<forall>b. dirty_block s b \<longrightarrow> b \<in> B" "finite B"
    and c: "card B + card H < NBUF"
  shows "\<exists>i<NBUF. \<not> held s i \<and> \<not> b_dirty (bufs s i)"
proof (rule ccontr)
  assume n: "\<not> ?thesis"
  let ?D = "{i. i < NBUF \<and> b_dirty (bufs s i)}"
  have dc: "cached s (b_blockno (bufs s i)) i" if "i \<in> ?D" for i
    using that buf_okD(3) [OF cache_ok_buf [OF ok]] by (auto simp: cached_def)
  have "inj_on (\<lambda>i. b_blockno (bufs s i)) ?D"
  proof (rule inj_onI)
    fix x y assume "x \<in> ?D" "y \<in> ?D" "b_blockno (bufs s x) = b_blockno (bufs s y)"
    then show "x = y" using cache_ok_unique [OF ok dc [of x]] dc [of y] by simp
  qed
  moreover have "(\<lambda>i. b_blockno (bufs s i)) ` ?D \<subseteq> B"
    using dc B(1) unfolding dirty_block_def by blast
  ultimately have "card ?D \<le> card B" using B(2) by (metis card_image card_mono)
  moreover have "{..<NBUF} \<subseteq> H \<union> ?D" using n h(1) by auto
  then have "card {..<NBUF} \<le> card (H \<union> ?D)" using h(2) by (intro card_mono) auto
  then have "NBUF \<le> card H + card ?D" using card_Un_le [of H ?D] by simp
  ultimately show False using c by simp
qed

lemma got_held: "got s b i t \<Longrightarrow> held t j \<longleftrightarrow> j = i \<or> held s j"
  unfolding got_def held_def by (cases "j = i") auto

lemma gotD:
  assumes "got s b i t"
  shows "cache_ok t" "same_rest s t" "cached t b i" "held t i" "\<not> held s i" "disk t = disk s" "disk_past t = disk_past s"
    "view t = view s" "dirty_block t = dirty_block s"
  using assms unfolding got_def by auto

lemma touchedD:
  assumes "touched s b i t"
  shows "cache_ok t" "same_rest s t" "cached t b i" "\<And>b' j. cached t b' j = cached s b' j" "\<And>j. j \<noteq> i \<Longrightarrow> held t j = held s j"
    "\<And>j. j \<noteq> i \<Longrightarrow> b_dirty (bufs t j) = b_dirty (bufs s j)" "\<And>j. j \<noteq> i \<Longrightarrow> bdata t j = bdata s j"
  using assms unfolding touched_def by auto

text \<open>The effect of a transfer on block \<open>b\<close>: it is written through and clean, and nothing is in use.\<close>

definition wrote :: "'z kbio_scheme \<Rightarrow> nat \<Rightarrow> block \<Rightarrow> 'z kbio_scheme \<Rightarrow> bool" where
  "wrote s b d t \<longleftrightarrow> cache_ok t \<and> idle t \<and> same_rest s t \<and> disk t = (disk s)(b := d) \<and> view t = (view s)(b := d) \<and>
     disk_past t = disk s # disk_past s \<and> (\<forall>b'. dirty_block t b' = (dirty_block s b' \<and> b' \<noteq> b))"

lemma release_two:
  assumes ok: "cache_ok s" and i: "cached s a i" "held s i" "b_dirty (bufs s i) \<or> bdata s i = disk s a"
    and j: "cached s b j" "held s j" "b_dirty (bufs s j) \<or> bdata s j = disk s b" and ij: "i \<noteq> j"
    and h: "\<And>k. held s k \<Longrightarrow> k = i \<or> k = j"
  shows "\<exists>t. bindK (brelse i) (\<lambda>_. brelse j) s = (Inr (), t) \<and> cache_ok t \<and> idle t \<and> same_rest s t \<and> disk t = disk s \<and>
    disk_past t = disk_past s \<and> view t = view s \<and> dirty_block t = dirty_block s"
proof -
  obtain u where u: "brelse i s = (Inr (), u)" "touched s a i u" "\<not> held u i" "disk u = disk s" "disk_past u = disk_past s"
    "b_dirty (bufs u i) = b_dirty (bufs s i)" "view u = view s" using brelse_ok [OF ok i] by blast
  note tu = touchedD [OF u(2)]
  have ju: "cached u b j" "held u j" "b_dirty (bufs u j) \<or> bdata u j = disk u b"
    using j ij tu u(4) by auto
  obtain t where t: "brelse j u = (Inr (), t)" "touched u b j t" "\<not> held t j" "disk t = disk u" "disk_past t = disk_past u"
    "b_dirty (bufs t j) = b_dirty (bufs u j)" "view t = view u" using brelse_ok [OF tu(1) ju] by blast
  note tt = touchedD [OF t(2)]
  have "idle t" unfolding idle_def
  proof
    fix k
    show "\<not> held t k" using t(3) tt(5) [of k] u(3) tu(5) [of k] h [of k] by (cases "k = j"; cases "k = i") auto
  qed
  moreover have "dirty_block t b' = dirty_block s b'" for b'
  proof -
    have 1: "dirty_block s a = b_dirty (bufs s i)" using i(1) cache_ok_unique [OF ok i(1)] unfolding dirty_block_def by metis
    have 2: "dirty_block u b = b_dirty (bufs u j)" using ju(1) cache_ok_unique [OF tu(1) ju(1)] unfolding dirty_block_def by metis
    show ?thesis using touched_dirty [OF t(2), of b'] touched_dirty [OF u(2), of b'] 1 2 t(6) u(6)
      by (cases "b' = b"; cases "b' = a") auto
  qed
  ultimately show ?thesis
    using t u tu(2) tt(1,2) same_rest_trans by (intro exI [of _ t]) (auto simp: bindK_apply)
qed

text \<open>Two buffers, read one after the other; the contents of \<open>src\<close> go to \<open>dst\<close>.\<close>

lemma read_two:
  assumes ok: "cache_ok s" and idle: "idle s" and a: "a < disksize s" "b < disksize s" "a \<noteq> b"
    and B: "\<forall>b. dirty_block s b \<longrightarrow> b \<in> B" "finite B" "card B < NBUF" "dirty_block s b \<or> card B + 1 < NBUF"
  shows "\<exists>i t j u. bread 1 a s = (Inr i, t) \<and> same_rest s t \<and> bread 1 b t = (Inr j, u) \<and> cache_ok u \<and> i \<noteq> j \<and>
    cached u a i \<and> held u i \<and> cached u b j \<and> held u j \<and> (\<forall>k. held u k \<longrightarrow> k = i \<or> k = j) \<and> same_rest s u \<and> disk u = disk s \<and>
    disk_past u = disk_past s \<and> view u = view s \<and> dirty_block u = dirty_block s \<and> bdata u i = view s a \<and> bdata u j = view s b"
proof -
  have "\<exists>i<NBUF. \<not> held s i \<and> \<not> b_dirty (bufs s i)"
    using buffer_available [OF ok, of "{}"] idle B by (simp add: idle_def)
  then obtain i t where t: "bread 1 a s = (Inr i, t)" "got s a i t"
    using bread_ok [OF ok a(1)] idle unfolding idle_def by blast
  note gt = gotD [OF t(2)]
  have hi: "held t k \<longleftrightarrow> k = i" for k using got_held [OF t(2), of k] idle by (simp add: idle_def)
  have fr: "\<forall>k. cached t b k \<longrightarrow> \<not> held t k" using hi gt(3) a(3) by (auto simp: cached_def)
  have "(\<exists>k. cached t b k) \<or> (\<exists>k<NBUF. \<not> held t k \<and> \<not> b_dirty (bufs t k))"
  proof (cases "dirty_block s b")
    case True
    then show ?thesis using gt(9) by (auto simp: dirty_block_def fun_eq_iff)
  next
    case False
    then show ?thesis using buffer_available [OF gt(1), of "{i}" B] hi B gt(9) by simp
  qed
  then obtain j u where u: "bread 1 b t = (Inr j, u)" "got t b j u"
    using bread_ok [OF gt(1) _ fr] a(2) same_restD(1) [OF gt(2)] by auto
  note gu = gotD [OF u(2)]
  have ij: "i \<noteq> j" using gu(5) hi by auto
  have bi: "bufs u i = bufs t i" using u(2) ij unfolding got_def by blast
  have "cached u a i" "held u i" "bdata u i = view s a"
    using gt(3,4) bi got_data [OF t(2)] by (simp_all add: cached_def held_def)
  moreover have "\<forall>k. held u k \<longrightarrow> k = i \<or> k = j" using got_held [OF u(2)] hi by blast
  moreover have "bdata u j = view s b" using got_data [OF u(2)] gt(8) by simp
  ultimately show ?thesis using t u gu gt ij same_rest_trans [OF gt(2) gu(2)] by metis
qed

text \<open>Overwriting one of two buffers in use with the contents of the other, and writing it.\<close>

lemma write_second:
  assumes ok: "cache_ok s" and ij: "i \<noteq> j" "cached s a i" "held s i" "cached s b j" "held s j" "a \<noteq> b"
    and h: "\<forall>k. held s k \<longrightarrow> k = i \<or> k = j"
    and clean: "b_dirty (bufs s i) \<or> bdata s i = disk s a"
  shows "\<exists>t. bindK (upd_data j (\<lambda>_. d)) (\<lambda>_. bindK (bwrite j) (\<lambda>_. bindK (brelse i) (\<lambda>_. brelse j))) s = (Inr (), t)
    \<and> wrote s b d t"
proof -
  obtain t where t: "upd_data j (\<lambda>_. d) s = (Inr (), t)" "touched s b j t" "held t j" "disk t = disk s" "disk_past t = disk_past s"
    "bdata t j = d" "view t = (view s)(b := d)" using upd_data_ok [OF ok ij(4,5), of "\<lambda>_. d"] by blast
  note tt = touchedD [OF t(2)]
  obtain u where u: "bwrite j t = (Inr (), u)" "touched t b j u" "held u j" "disk u = (disk t)(b := d)"
    "disk_past u = disk t # disk_past t" "\<not> b_dirty (bufs u j)" "bdata u j = d" "view u = view t"
    using bwrite_ok [OF tt(1,3) t(3)] t(6) by auto
  note tu = touchedD [OF u(2)]
  have i: "cached u a i" "held u i" "b_dirty (bufs u i) \<or> bdata u i = disk u a"
    using ij tt tu clean u(4) t(4) by auto
  have hu: "k = i \<or> k = j" if "held u k" for k using that tu(5) [of k] tt(5) [of k] h by blast
  have j: "b_dirty (bufs u j) \<or> bdata u j = disk u b" using u(4,7) by simp
  obtain v where v: "bindK (brelse i) (\<lambda>_. brelse j) u = (Inr (), v)" "cache_ok v" "idle v" "same_rest u v" "disk v = disk u"
    "disk_past v = disk_past u" "view v = view u" "dirty_block v = dirty_block u"
    using release_two [OF tu(1) i tu(3) u(3) j ij(1) hu] by blast
  have "dirty_block v b' = (dirty_block s b' \<and> b' \<noteq> b)" for b'
    using v(8) touched_dirty [OF u(2), of b'] touched_dirty [OF t(2), of b'] u(6) by simp
  moreover have "same_rest s v" using tt(2) tu(2) v(4) same_rest_trans by blast
  ultimately have "wrote s b d v" unfolding wrote_def using v t u by simp
  then show ?thesis using t(1) u(1) v(1) by (intro exI [of _ v]) simp
qed

text \<open>As above, releasing in the other order.\<close>

lemma write_first:
  assumes ok: "cache_ok s" and ij: "i \<noteq> j" "cached s a i" "held s i" "cached s b j" "held s j" "a \<noteq> b"
    and h: "\<forall>k. held s k \<longrightarrow> k = i \<or> k = j"
    and clean: "b_dirty (bufs s j) \<or> bdata s j = disk s b"
  shows "\<exists>t. bindK (upd_data i (\<lambda>_. d)) (\<lambda>_. bindK (bwrite i) (\<lambda>_. bindK (brelse j) (\<lambda>_. brelse i))) s = (Inr (), t)
    \<and> wrote s a d t"
  using write_second [OF ok ij(1) [symmetric] ij(4,5,2,3) ij(6) [symmetric] _ clean, of d] h by blast

text \<open>Changing one block and writing it through.\<close>

lemma rewrite_ok:
  assumes ok: "cache_ok s" and idle: "idle s" and b: "b < disksize s"
    and B: "\<forall>b. dirty_block s b \<longrightarrow> b \<in> B" "finite B" "card B < NBUF"
  shows "\<exists>i t. bread 1 b s = (Inr i, t) \<and> got s b i t \<and> (\<forall>k. held t k \<longleftrightarrow> k = i)"
proof -
  have "\<exists>i<NBUF. \<not> held s i \<and> \<not> b_dirty (bufs s i)"
    using buffer_available [OF ok, of "{}"] idle B by (simp add: idle_def)
  then obtain i t where t: "bread 1 b s = (Inr i, t)" "got s b i t"
    using bread_ok [OF ok b] idle unfolding idle_def by blast
  moreover have "held t k \<longleftrightarrow> k = i" for k using got_held [OF t(2), of k] idle by (simp add: idle_def)
  ultimately show ?thesis by blast
qed

lemma write_one:
  assumes ok: "cache_ok s" and i: "cached s b i" "held s i" and h: "\<forall>k. held s k \<longleftrightarrow> k = i"
  shows "\<exists>t. bindK (bwrite i) (\<lambda>_. brelse i) s = (Inr (), t) \<and> wrote s b (bdata s i) t"
proof -
  obtain u where u: "bwrite i s = (Inr (), u)" "touched s b i u" "held u i" "disk u = (disk s)(b := bdata s i)"
    "disk_past u = disk s # disk_past s" "\<not> b_dirty (bufs u i)" "bdata u i = bdata s i" "view u = view s"
    using bwrite_ok [OF ok i] by blast
  note tu = touchedD [OF u(2)]
  have "b_dirty (bufs u i) \<or> bdata u i = disk u b" using u(4,7) by simp
  then obtain t where t: "brelse i u = (Inr (), t)" "touched u b i t" "\<not> held t i" "disk t = disk u" "disk_past t = disk_past u"
    "b_dirty (bufs t i) = b_dirty (bufs u i)" "view t = view u" using brelse_ok [OF tu(1,3) u(3)] by blast
  note tt = touchedD [OF t(2)]
  have "idle t" unfolding idle_def using t(3) tt(5) tu(5) h by metis
  moreover have "dirty_block t b' = (dirty_block s b' \<and> b' \<noteq> b)" for b'
    using touched_dirty [OF t(2), of b'] touched_dirty [OF u(2), of b'] t(6) u(6) by simp
  moreover have "view s b = bdata s i"
    using view_cached [OF ok i(1)] buf_okD(2) [OF cache_ok_buf [OF ok] i(2)] cachedD [OF i(1)] by blast
  moreover have "same_rest s t" using tu(2) tt(2) same_rest_trans by blast
  ultimately have "wrote s b (bdata s i) t" unfolding wrote_def using t u tt(1) by (simp add: fun_upd_idem)
  then show ?thesis using t(1) u(1) by (intro exI [of _ t]) simp
qed

lemma read_one:
  assumes ok: "cache_ok s" and g: "got s b i t" and h: "\<forall>k. held t k \<longleftrightarrow> k = i" and c: "dirty_block s b \<or> view s b = disk s b"
  shows "\<exists>u. brelse i t = (Inr (), u) \<and> cache_ok u \<and> idle u \<and> same_rest s u \<and> disk u = disk s \<and> disk_past u = disk_past s \<and>
    view u = view s \<and> dirty_block u = dirty_block s"
proof -
  note gt = gotD [OF g]
  have d: "b_dirty (bufs t i) = dirty_block s b"
    using gt(9) gt(3) cache_ok_unique [OF gt(1,3)] unfolding dirty_block_def by metis
  then have "b_dirty (bufs t i) \<or> bdata t i = disk t b" using c got_data [OF g] gt(6) by auto
  then obtain u where u: "brelse i t = (Inr (), u)" "touched t b i u" "\<not> held u i" "disk u = disk t" "disk_past u = disk_past t"
    "b_dirty (bufs u i) = b_dirty (bufs t i)" "view u = view t" using brelse_ok [OF gt(1,3,4)] by blast
  note tu = touchedD [OF u(2)]
  have "idle u" unfolding idle_def using u(3) tu(5) h by metis
  moreover have "dirty_block u = dirty_block s"
    using touched_dirty [OF u(2)] u(6) d gt(9) by (auto simp: fun_eq_iff)
  moreover have "same_rest s u" using gt(2) tu(2) same_rest_trans by blast
  ultimately show ?thesis using u tu(1) gt by (intro exI [of _ u]) simp
qed

end
