(* ===== verification/Log_Writes.thy ===== *)
theory Log_Writes
  imports Bio_Copy Log
begin

text \<open>
  The code of \<open>log.c\<close> as sequences of disk writes. With no buffer in use, \<open>write_log\<close>, \<open>write_head\<close>,
  \<open>install_trans\<close> and \<open>recover_from_log\<close> perform one list of block writes each, in order, and change
  nothing else; the history variable shows the disk between any two of them.
\<close>

unbundle bit_operations_syntax

section \<open>Integers in blocks\<close>

lemma get32_put32 [simp]: "get32 (put32 i w d) i = w"
proof (rule bit_word_eqI)
  fix n assume n: "n < LENGTH(32)"
  consider "n < 8" | "8 \<le> n" "n < 16" | "16 \<le> n" "n < 24" | "24 \<le> n" by linarith
  then show "bit (get32 (put32 i w d) i) n \<longleftrightarrow> bit w n"
    using n by cases (auto simp: get32_def put32_def bit_simps)
qed

lemma get32_put32_other: "i + 4 \<le> j \<or> j + 4 \<le> i \<Longrightarrow> get32 (put32 j w d) i = get32 d i"
  by (auto simp: get32_def put32_def)

section \<open>Log fields do not matter to the cache\<close>

lemma cache_lh [simp]:
  "cache_ok (s\<lparr>lh_n := x\<rparr>) = cache_ok s" "cache_ok (s\<lparr>lh_block := y\<rparr>) = cache_ok s"
  "idle (s\<lparr>lh_n := x\<rparr>) = idle s" "idle (s\<lparr>lh_block := y\<rparr>) = idle s"
  "view (s\<lparr>lh_n := x\<rparr>) = view s" "view (s\<lparr>lh_block := y\<rparr>) = view s"
  "dirty_block (s\<lparr>lh_n := x\<rparr>) = dirty_block s" "dirty_block (s\<lparr>lh_block := y\<rparr>) = dirty_block s"
proof -
  have c: "cached (s\<lparr>lh_n := x\<rparr>) = cached s" "cached (s\<lparr>lh_block := y\<rparr>) = cached s"
    by (simp_all add: cached_def fun_eq_iff)
  have h: "held (s\<lparr>lh_n := x\<rparr>) = held s" "held (s\<lparr>lh_block := y\<rparr>) = held s"
    by (simp_all add: held_def fun_eq_iff)
  have b: "buf_ok (s\<lparr>lh_n := x\<rparr>) = buf_ok s" "buf_ok (s\<lparr>lh_block := y\<rparr>) = buf_ok s"
    by (simp_all add: buf_ok_def h fun_eq_iff)
  have "nextp (s\<lparr>lh_n := x\<rparr>) = nextp s" "nextp (s\<lparr>lh_block := y\<rparr>) = nextp s"
    "prevp (s\<lparr>lh_n := x\<rparr>) = prevp s" "prevp (s\<lparr>lh_block := y\<rparr>) = prevp s"
    by (auto simp: nextp_def prevp_def fun_eq_iff split: option.split)
  then have l: "lru (s\<lparr>lh_n := x\<rparr>) xs = lru s xs" "lru (s\<lparr>lh_block := y\<rparr>) xs = lru s xs" for xs
    by (simp_all add: lru_def)
  have m: "calm (s\<lparr>lh_n := x\<rparr>) = calm s" "calm (s\<lparr>lh_block := y\<rparr>) = calm s"
    by (simp_all add: calm_def lockable_def cpu_ok_def)
  show "cache_ok (s\<lparr>lh_n := x\<rparr>) = cache_ok s" "cache_ok (s\<lparr>lh_block := y\<rparr>) = cache_ok s"
    unfolding cache_ok_def c b l m by (rule refl)+
  show "idle (s\<lparr>lh_n := x\<rparr>) = idle s" "idle (s\<lparr>lh_block := y\<rparr>) = idle s" by (simp_all add: idle_def h)
  show "view (s\<lparr>lh_n := x\<rparr>) = view s" "view (s\<lparr>lh_block := y\<rparr>) = view s"
    by (auto simp: view_def fun_eq_iff simp del: NBUF_def split: option.split)
  show "dirty_block (s\<lparr>lh_n := x\<rparr>) = dirty_block s" "dirty_block (s\<lparr>lh_block := y\<rparr>) = dirty_block s"
    by (simp_all add: dirty_block_def c fun_eq_iff)
qed

lemma same_rest_log:
  assumes "same_rest s (t :: 'z klog_scheme)"
  shows "log_start t = log_start s" "log_dev t = log_dev s" "lh_n t = lh_n s" "lh_block t = lh_block s" "log_size t = log_size s"
    "log_outstanding t = log_outstanding s" "log_committing t = log_committing s"
proof -
  have t: "t = s\<lparr>sleeplks := sleeplks t, kptable := kptable t, disk := disk t, disk_past := disk_past t,
           bufs := bufs t, head_prev := head_prev t, head_next := head_next t\<rparr>" using assms by (simp add: same_rest_def)
  show "log_start t = log_start s" "log_dev t = log_dev s" "lh_n t = lh_n s" "lh_block t = lh_block s" "log_size t = log_size s"
    "log_outstanding t = log_outstanding s" "log_committing t = log_committing s"
    by (subst t, simp)+
qed

section \<open>Lists of writes\<close>

definition apply_writes :: "(nat \<times> block) list \<Rightarrow> (nat \<Rightarrow> block) \<Rightarrow> (nat \<Rightarrow> block)" where
  "apply_writes ws d = fold (\<lambda>(b, x) e. e(b := x)) ws d"

lemma apply_writes_simps [simp]:
  "apply_writes [] d = d" "apply_writes ((b, x) # ws) d = apply_writes ws (d(b := x))"
  "apply_writes (ws @ vs) d = apply_writes vs (apply_writes ws d)"
  by (simp_all add: apply_writes_def)

lemma apply_writes_other: "b \<notin> fst ` set ws \<Longrightarrow> apply_writes ws d b = d b"
  by (induction ws arbitrary: d) auto

lemma apply_writes_map:
  assumes "distinct (map f [0..<n])" "i < n"
  shows "apply_writes (map (\<lambda>i. (f i, x i)) [0..<n]) d (f i) = x i"
  using assms
proof (induction n)
  case (Suc n)
  have d: "distinct (map f [0..<n])" "f n \<notin> f ` {0..<n}" using Suc.prems(1) by auto
  show ?case
  proof (cases "i = n")
    case False
    then have "i < n" using Suc.prems(2) by simp
    moreover from this have "f i \<noteq> f n" using d(2) by (metis atLeastLessThan_iff imageI zero_le)
    ultimately show ?thesis using Suc.IH [OF d(1)] by (simp add: apply_writes_def)
  qed simp
qed simp

text \<open>The contents of the disk before each write, last first.\<close>

definition history :: "(nat \<times> block) list \<Rightarrow> (nat \<Rightarrow> block) \<Rightarrow> (nat \<Rightarrow> block) list" where
  "history ws d = rev (map (\<lambda>k. apply_writes (take k ws) d) [0..<length ws])"

lemma history_snoc: "history (ws @ [w]) d = apply_writes ws d # history ws d"
  by (simp add: history_def)

lemma history_append: "history (ws @ vs) d = history vs (apply_writes ws d) @ history ws d"
proof (induction vs rule: rev_induct)
  case Nil
  then show ?case by (simp add: history_def)
next
  case (snoc v vs)
  have "history (ws @ vs @ [v]) d = apply_writes (ws @ vs) d # history (ws @ vs) d"
    using history_snoc [of "ws @ vs" v d] by simp
  then show ?case using snoc by (simp add: history_snoc)
qed

lemma history_set: "x \<in> set (history ws d) \<longleftrightarrow> (\<exists>k<length ws. x = apply_writes (take k ws) d)"
  by (auto simp: history_def)

definition wrotes :: "'z klog_scheme \<Rightarrow> (nat \<times> block) list \<Rightarrow> 'z klog_scheme \<Rightarrow> bool" where
  "wrotes s ws t \<longleftrightarrow> cache_ok t \<and> idle t \<and> same_rest s (t\<lparr>lh_n := lh_n s, lh_block := lh_block s\<rparr>) \<and>
     disk t = apply_writes ws (disk s) \<and> view t = apply_writes ws (view s) \<and>
     disk_past t = history ws (disk s) @ disk_past s \<and> (\<forall>b. dirty_block t b = (dirty_block s b \<and> b \<notin> fst ` set ws))"

lemma wrotes_Nil: "cache_ok s \<Longrightarrow> idle s \<Longrightarrow> wrotes s [] s"
  by (simp add: wrotes_def history_def)

lemma same_rest_lh: "same_rest s t \<Longrightarrow> same_rest (s\<lparr>lh_n := x, lh_block := y\<rparr>) (t\<lparr>lh_n := x, lh_block := y\<rparr>)"
proof -
  assume a: "same_rest s t"
  have t: "t = s\<lparr>sleeplks := sleeplks t, kptable := kptable t, disk := disk t, disk_past := disk_past t,
           bufs := bufs t, head_prev := head_prev t, head_next := head_next t\<rparr>" using a by (simp add: same_rest_def)
  have "t\<lparr>lh_n := x, lh_block := y\<rparr> = s\<lparr>lh_n := x, lh_block := y, sleeplks := sleeplks t, kptable := kptable t, disk := disk t,
     disk_past := disk_past t, bufs := bufs t, head_prev := head_prev t, head_next := head_next t\<rparr>" by (subst t) simp
  then show ?thesis using a unfolding same_rest_def by simp
qed

lemma wrotes_trans:
  assumes "wrotes s ws t" "wrotes t vs u"
  shows "wrotes s (ws @ vs) u"
proof -
  have 1: "same_rest s (t\<lparr>lh_n := lh_n s, lh_block := lh_block s\<rparr>)" using assms(1) by (simp add: wrotes_def)
  have "same_rest t (u\<lparr>lh_n := lh_n t, lh_block := lh_block t\<rparr>)" using assms(2) by (simp add: wrotes_def)
  from same_rest_lh [OF this, where x = "lh_n s" and y = "lh_block s"]
  have 2: "same_rest (t\<lparr>lh_n := lh_n s, lh_block := lh_block s\<rparr>) (u\<lparr>lh_n := lh_n s, lh_block := lh_block s\<rparr>)" by simp
  show ?thesis using same_rest_trans [OF 1 2] assms unfolding wrotes_def by (auto simp: history_append)
qed

lemma wrotes_one: "wrote s b d t \<Longrightarrow> wrotes s [(b, d)] t"
proof -
  assume a: "wrote s b d t"
  then have "same_rest s t" by (simp add: wrote_def)
  then have "t\<lparr>lh_n := lh_n s, lh_block := lh_block s\<rparr> = t" using same_rest_log [of s t] by simp
  then show ?thesis using a by (auto simp: wrotes_def wrote_def history_def)
qed

lemma wrotes_lh: "wrotes s ws t \<Longrightarrow> wrotes s ws (t\<lparr>lh_n := x\<rparr>)"
  by (simp add: wrotes_def)

lemma wrotesD:
  assumes "wrotes s ws t"
  shows "cache_ok t" "idle t" "disk t = apply_writes ws (disk s)" "view t = apply_writes ws (view s)"
    "dirty_block t b = (dirty_block s b \<and> b \<notin> fst ` set ws)"
    "log_start t = log_start s" "log_dev t = log_dev s" "disksize t = disksize s"
proof -
  note r = same_rest_log [of s "t\<lparr>lh_n := lh_n s, lh_block := lh_block s\<rparr>"]
    same_restD [of s "t\<lparr>lh_n := lh_n s, lh_block := lh_block s\<rparr>"]
  show "cache_ok t" "idle t" "disk t = apply_writes ws (disk s)" "view t = apply_writes ws (view s)"
    "dirty_block t b = (dirty_block s b \<and> b \<notin> fst ` set ws)" using assms by (simp_all add: wrotes_def)
  show "log_start t = log_start s" "log_dev t = log_dev s" "disksize t = disksize s"
    using r assms by (simp_all add: wrotes_def)
qed

section \<open>The functions of the log\<close>

text \<open>The header block for \<open>n\<close> entries over old contents \<open>d\<close>.\<close>

definition header :: "int \<Rightarrow> (nat \<Rightarrow> nat) \<Rightarrow> block \<Rightarrow> block" where
  "header n blks d = fold (\<lambda>i. put32 (4 + 4 * i) (of_nat (blks i))) [0..<nat n] (put32 0 (of_int n) d)"

lemma header_fold: "k \<le> m \<Longrightarrow>
  (i < k \<longrightarrow> get32 (fold (\<lambda>i. put32 (4 + 4 * i) (of_nat (blks i))) [0..<k] d) (4 + 4 * i) = of_nat (blks i)) \<and>
  get32 (fold (\<lambda>i. put32 (4 + 4 * i) (of_nat (blks i))) [0..<k] d) 0 = get32 d 0"
proof (induction k)
  case (Suc k)
  then show ?case by (cases "i = k") (auto simp: get32_put32_other)
qed simp

lemma header_get:
  "get32 (header n blks d) 0 = of_int n"
  "i < nat n \<Longrightarrow> get32 (header n blks d) (4 + 4 * i) = of_nat (blks i)"
  using header_fold [of "nat n" "nat n" i blks] unfolding header_def by auto

lemma upd_data_comp: "bindK (upd_data b f) (\<lambda>_. upd_data b g) s = upd_data b (\<lambda>d. g (f d)) s"
  by (simp add: upd_data_def upd_buf_def)

lemma upd_data_id: "upd_data b (\<lambda>d. d) s = (Inr (), s)"
  by (simp add: upd_data_def upd_buf_def)

lemma lh_block_upd_data: "upd_data b f s = (Inr (), t) \<Longrightarrow> lh_block t = lh_block s"
  by (auto simp: upd_data_def upd_buf_def)

lemma forK_snoc: "forK (xs @ [x]) f s = bindK (forK xs f) (\<lambda>_. f x) s"
proof (induction xs arbitrary: s)
  case Nil
  then show ?case by (simp add: bindK_apply split: prod.split sum.split)
next
  case (Cons y ys)
  then show ?case by (simp add: bindK_apply split: prod.split sum.split)
qed

lemma write_entries:
  "n \<le> LOGSIZE \<Longrightarrow> forK [0..<n] (write_head_entry b) s =
     upd_data b (fold (\<lambda>i. put32 (4 + 4 * i) (of_nat (lh_block s i))) [0..<n]) s"
proof (induction n)
  case 0
  then show ?case using upd_data_id [of b s] by (simp add: id_def)
next
  case (Suc n)
  obtain t where t: "upd_data b (fold (\<lambda>i. put32 (4 + 4 * i) (of_nat (lh_block s i))) [0..<n]) s = (Inr (), t)"
    by (simp add: upd_data_def)
  have "forK [0..<Suc n] (write_head_entry b) s = write_head_entry b n t"
    using Suc t forK_snoc [of "[0..<n]" n "write_head_entry b" s] by simp
  also have "\<dots> = upd_data b (put32 (4 + 4 * n) (of_nat (lh_block s n))) t"
    using Suc.prems lh_block_upd_data [OF t] by (simp add: write_head_entry_def)
  also have "\<dots> = upd_data b (fold (\<lambda>i. put32 (4 + 4 * i) (of_nat (lh_block s i))) [0..<Suc n]) s"
    using upd_data_comp [of b "fold (\<lambda>i. put32 (4 + 4 * i) (of_nat (lh_block s i))) [0..<n]"
        "put32 (4 + 4 * n) (of_nat (lh_block s n))" s] t by (simp add: comp_def)
  finally show ?case .
qed

text \<open>The side conditions: the cache is idle and has room, block numbers are on the disk.\<close>

definition log_ok :: "'z klog_scheme \<Rightarrow> bool" where
  "log_ok s \<longleftrightarrow> cache_ok s \<and> idle s \<and> log_dev s = 1 \<and> (\<exists>B. finite B \<and> card B < NBUF \<and> (\<forall>b. dirty_block s b \<longrightarrow> b \<in> B))"

lemma log_ok_wrotes: "log_ok s \<Longrightarrow> wrotes s ws t \<Longrightarrow> log_ok t"
  unfolding log_ok_def using wrotesD [of s ws t] by auto

lemma write_head_ok:
  assumes l: "log_ok s" and n: "nat (lh_n s) \<le> LOGSIZE" and b: "log_start s < disksize s"
  shows "\<exists>t. write_head s = (Inr (), t) \<and> wrotes s [(log_start s, header (lh_n s) (lh_block s) (view s (log_start s)))] t
    \<and> lh_n t = lh_n s \<and> lh_block t = lh_block s"
proof -
  obtain B where ok: "cache_ok s" "idle s" "log_dev s = 1" and B: "finite B" "card B < NBUF" "\<forall>b. dirty_block s b \<longrightarrow> b \<in> B"
    using l unfolding log_ok_def by blast
  let ?b = "log_start s" and ?h = "header (lh_n s) (lh_block s)"
  obtain i t where t: "bread 1 ?b s = (Inr i, t)" "got s ?b i t" "\<forall>k. held t k \<longleftrightarrow> k = i"
    using rewrite_ok [OF ok(1,2) b B(3,1,2)] by blast
  note gt = gotD [OF t(2)]
  note lt = same_rest_log [OF gt(2)]
  obtain u where u: "upd_data i ?h t = (Inr (), u)" "touched t ?b i u" "held u i" "disk u = disk t" "disk_past u = disk_past t"
    "bdata u i = ?h (bdata t i)" "view u = (view t)(?b := ?h (view t ?b))"
    using upd_data_ok [OF gt(1,3,4), of ?h] by blast
  note tu = touchedD [OF u(2)]
  have hu: "\<forall>k. held u k \<longleftrightarrow> k = i"
  proof
    fix k show "held u k \<longleftrightarrow> k = i" using u(3) tu(5) [of k] t(3) by (cases "k = i") simp_all
  qed
  obtain v where v: "bindK (bwrite i) (\<lambda>_. brelse i) u = (Inr (), v)" "wrote u ?b (bdata u i) v"
    using write_one [OF tu(1,3) u(3) hu] by blast
  have d: "bdata u i = ?h (view s ?b)" using u(6) got_data [OF t(2)] by simp
  have "same_rest s v" using same_rest_trans [OF same_rest_trans [OF gt(2) tu(2)]] v(2) unfolding wrote_def by simp
  moreover have "dirty_block v b' = (dirty_block s b' \<and> b' \<noteq> ?b)" for b'
    using v(2) touched_dirty [OF u(2), of b'] gt(9) unfolding wrote_def by auto
  ultimately have w: "wrote s ?b (?h (view s ?b)) v"
    using v(2) u gt d unfolding wrote_def by simp
  obtain t' where t': "upd_data i (put32 0 (of_int (lh_n s))) t = (Inr (), t')" by (simp add: upd_data_def)
  have "lh_block t' = lh_block s" using lh_block_upd_data [OF t'] lt by simp
  moreover have "?h = (\<lambda>d. fold (\<lambda>k. put32 (4 + 4 * k) (of_nat (lh_block s k))) [0..<nat (lh_n s)] (put32 0 (of_int (lh_n s)) d))"
    by (intro ext) (simp add: header_def)
  ultimately have e: "forK [0..<nat (lh_n s)] (write_head_entry i) t' = (Inr (), u)"
    using write_entries [OF n, of i t'] t' u(1)
      upd_data_comp [of i "put32 0 (of_int (lh_n s))" "fold (\<lambda>k. put32 (4 + 4 * k) (of_nat (lh_block s k))) [0..<nat (lh_n s)]" t]
    by simp
  have "write_head s = (Inr (), v)" unfolding write_head_def using ok(3) t(1) lt t' e v(1) by simp
  then show ?thesis using wrotes_one [OF w] same_rest_log [of s v] w unfolding wrote_def by blast
qed

text \<open>The blocks of the transaction lie on the disk and outside the log.\<close>

definition entries_ok :: "'z klog_scheme \<Rightarrow> nat \<Rightarrow> bool" where
  "entries_ok s n \<longleftrightarrow> log_start s + n < disksize s \<and> distinct (map (lh_block s) [0..<n]) \<and>
     (\<forall>i<n. lh_block s i < disksize s \<and> \<not> (log_start s \<le> lh_block s i \<and> lh_block s i \<le> log_start s + n))"

text \<open>A buffer can be found for every entry.\<close>

definition room :: "'z klog_scheme \<Rightarrow> nat \<Rightarrow> bool" where
  "room s n \<longleftrightarrow> (\<exists>B. finite B \<and> (\<forall>b. dirty_block s b \<longrightarrow> b \<in> B) \<and> card B < NBUF \<and>
     ((\<forall>i<n. dirty_block s (lh_block s i)) \<or> card B + 1 < NBUF))"

lemma cached_dirty: "cache_ok s \<Longrightarrow> cached s b i \<Longrightarrow> b_dirty (bufs s i) = dirty_block s b"
  using cache_ok_unique unfolding dirty_block_def by metis

lemma view_idle: "cache_ok s \<Longrightarrow> idle s \<Longrightarrow> dirty_block s b \<or> view s b = disk s b"
  using view_clean unfolding idle_def by blast

lemma write_log_block_ok:
  assumes ok: "cache_ok s" "idle s" "log_dev s = 1"
    and b: "log_start s + tail + 1 < disksize s" "lh_block s tail < disksize s" "log_start s + tail + 1 \<noteq> lh_block s tail"
    and B: "\<forall>b. dirty_block s b \<longrightarrow> b \<in> B" "finite B" "card B < NBUF" "dirty_block s (lh_block s tail) \<or> card B + 1 < NBUF"
  shows "\<exists>t. write_log_block tail s = (Inr (), t) \<and> wrote s (log_start s + tail + 1) (view s (lh_block s tail)) t"
proof -
  let ?a = "log_start s + tail + 1" and ?b = "lh_block s tail"
  obtain i t j u where t: "bread 1 ?a s = (Inr i, t)" "same_rest s t" "bread 1 ?b t = (Inr j, u)" "cache_ok u" "i \<noteq> j"
    "cached u ?a i" "held u i" "cached u ?b j" "held u j" "\<forall>k. held u k \<longrightarrow> k = i \<or> k = j" "same_rest s u" "disk u = disk s"
    "disk_past u = disk_past s" "view u = view s" "dirty_block u = dirty_block s" "bdata u i = view s ?a" "bdata u j = view s ?b"
    using read_two [OF ok(1,2) b B] by blast
  have "b_dirty (bufs u j) \<or> bdata u j = disk u ?b"
    using cached_dirty [OF t(4,8)] view_idle [OF ok(1,2), of ?b] t(12,15,17) by simp
  from write_first [OF t(4-9) b(3) t(10) this, of "view s ?b"]
  obtain v where v: "bindK (upd_data i (\<lambda>_. view s ?b)) (\<lambda>_. bindK (bwrite i) (\<lambda>_. bindK (brelse j) (\<lambda>_. brelse i))) u = (Inr (), v)"
    "wrote u ?a (view s ?b) v" by blast
  have "wrote s ?a (view s ?b) v" using v(2) t(11-15) same_rest_trans [OF t(11), of v] unfolding wrote_def by simp
  moreover have "write_log_block tail s = (Inr (), v)"
    unfolding write_log_block_def using t(1,3,17) ok(3) same_rest_log(4) [OF t(2)] v(1) by simp
  ultimately show ?thesis by blast
qed

lemma install_block_ok:
  assumes ok: "cache_ok s" "idle s" "log_dev s = 1"
    and b: "log_start s + tail + 1 < disksize s" "lh_block s tail < disksize s" "log_start s + tail + 1 \<noteq> lh_block s tail"
    and B: "\<forall>b. dirty_block s b \<longrightarrow> b \<in> B" "finite B" "card B < NBUF" "dirty_block s (lh_block s tail) \<or> card B + 1 < NBUF"
  shows "\<exists>t. install_block tail s = (Inr (), t) \<and> wrote s (lh_block s tail) (view s (log_start s + tail + 1)) t"
proof -
  let ?a = "log_start s + tail + 1" and ?b = "lh_block s tail"
  obtain i t j u where t: "bread 1 ?a s = (Inr i, t)" "same_rest s t" "bread 1 ?b t = (Inr j, u)" "cache_ok u" "i \<noteq> j"
    "cached u ?a i" "held u i" "cached u ?b j" "held u j" "\<forall>k. held u k \<longrightarrow> k = i \<or> k = j" "same_rest s u" "disk u = disk s"
    "disk_past u = disk_past s" "view u = view s" "dirty_block u = dirty_block s" "bdata u i = view s ?a" "bdata u j = view s ?b"
    using read_two [OF ok(1,2) b B] by blast
  have "b_dirty (bufs u i) \<or> bdata u i = disk u ?a"
    using cached_dirty [OF t(4,6)] view_idle [OF ok(1,2), of ?a] t(12,15,16) by simp
  from write_second [OF t(4-9) b(3) t(10) this, of "view s ?a"]
  obtain v where v: "bindK (upd_data j (\<lambda>_. view s ?a)) (\<lambda>_. bindK (bwrite j) (\<lambda>_. bindK (brelse i) (\<lambda>_. brelse j))) u = (Inr (), v)"
    "wrote u ?b (view s ?a) v" by blast
  have "wrote s ?b (view s ?a) v" using v(2) t(11-15) same_rest_trans [OF t(11), of v] unfolding wrote_def by simp
  moreover have "install_block tail s = (Inr (), v)"
    unfolding install_block_def using t(1,3,16) ok(3) same_rest_log(4) [OF t(2)] v(1) by simp
  ultimately show ?thesis by blast
qed

lemma write_log_ok:
  assumes ok: "cache_ok s" "idle s" "log_dev s = 1" and e: "entries_ok s n" and r: "room s n" and k: "k \<le> n"
  shows "\<exists>t. forK [0..<k] write_log_block s = (Inr (), t) \<and> lh_n t = lh_n s \<and> lh_block t = lh_block s \<and>
    wrotes s (map (\<lambda>i. (log_start s + i + 1, view s (lh_block s i))) [0..<k]) t"
  using k
proof (induction k)
  case 0
  then show ?case using wrotes_Nil [OF ok(1,2)] by simp
next
  case (Suc k)
  let ?ws = "map (\<lambda>i. (log_start s + i + 1, view s (lh_block s i))) [0..<k]"
  obtain t where t: "forK [0..<k] write_log_block s = (Inr (), t)" "lh_n t = lh_n s" "lh_block t = lh_block s" "wrotes s ?ws t"
    using Suc by auto
  note w = wrotesD [OF t(4)]
  have kn: "k < n" "lh_block s k < disksize s" "\<not> (log_start s \<le> lh_block s k \<and> lh_block s k \<le> log_start s + n)"
    "log_start s + n < disksize s" using Suc.prems e by (auto simp: entries_ok_def)
  have nb: "lh_block s i \<notin> fst ` set ?ws" if "i < n" for i using that e Suc.prems by (fastforce simp: entries_ok_def)
  obtain B where B: "finite B" "\<forall>b. dirty_block s b \<longrightarrow> b \<in> B" "card B < NBUF"
    "(\<forall>i<n. dirty_block s (lh_block s i)) \<or> card B + 1 < NBUF" using r unfolding room_def by blast
  have d: "\<forall>b. dirty_block t b \<longrightarrow> b \<in> B" using w(5) B(2) by blast
  have d2: "dirty_block t (lh_block t k) \<or> card B + 1 < NBUF" using w(5) B(4) nb kn(1) t(3) by auto
  have pos: "log_start t + k + 1 < disksize t" "lh_block t k < disksize t" "log_start t + k + 1 \<noteq> lh_block t k"
    using kn t(3) w(6,8) by auto
  have dev: "log_dev t = 1" using w(7) ok(3) by simp
  obtain u where u: "write_log_block k t = (Inr (), u)" "wrote t (log_start t + k + 1) (view t (lh_block t k)) u"
    using write_log_block_ok [OF w(1,2) dev pos d B(1,3) d2] by blast
  have "view t (lh_block t k) = view s (lh_block s k)" using w(4) t(3) apply_writes_other [OF nb [OF kn(1)]] by simp
  then have "wrotes s (?ws @ [(log_start s + k + 1, view s (lh_block s k))]) u"
    using wrotes_trans [OF t(4) wrotes_one [OF u(2)]] w(6) by simp
  moreover have "forK [0..<Suc k] write_log_block s = (Inr (), u)"
    using t(1) u(1) forK_snoc [of "[0..<k]" k write_log_block s] by simp
  moreover have "same_rest t u" using u(2) by (simp add: wrote_def)
  ultimately show ?case using same_rest_log(3,4) [of t u] t(2,3) by (intro exI [of _ u]) simp
qed

lemma install_ok:
  assumes ok: "cache_ok s" "idle s" "log_dev s = 1" and e: "entries_ok s n" and r: "room s n" and k: "k \<le> n"
  shows "\<exists>t. forK [0..<k] install_block s = (Inr (), t) \<and> lh_n t = lh_n s \<and> lh_block t = lh_block s \<and>
    wrotes s (map (\<lambda>i. (lh_block s i, view s (log_start s + i + 1))) [0..<k]) t"
  using k
proof (induction k)
  case 0
  then show ?case using wrotes_Nil [OF ok(1,2)] by simp
next
  case (Suc k)
  let ?ws = "map (\<lambda>i. (lh_block s i, view s (log_start s + i + 1))) [0..<k]"
  obtain t where t: "forK [0..<k] install_block s = (Inr (), t)" "lh_n t = lh_n s" "lh_block t = lh_block s" "wrotes s ?ws t"
    using Suc by auto
  note w = wrotesD [OF t(4)]
  have kn: "k < n" "lh_block s k < disksize s" "\<not> (log_start s \<le> lh_block s k \<and> lh_block s k \<le> log_start s + n)"
    "log_start s + n < disksize s" using Suc.prems e by (auto simp: entries_ok_def)
  have nl: "log_start s + k + 1 \<notin> fst ` set ?ws"
  proof
    assume "log_start s + k + 1 \<in> fst ` set ?ws"
    then obtain i where "i < k" "lh_block s i = log_start s + k + 1" by auto
    then show False using e Suc.prems unfolding entries_ok_def by (metis Suc_leD add.assoc add_le_cancel_left le_add1 less_le_trans Suc_eq_plus1)
  qed
  have "inj_on (lh_block s) {0..<n}" using e by (simp add: entries_ok_def distinct_map)
  then have "lh_block s k \<noteq> lh_block s i" if "i < k" for i
    using kn(1) that inj_onD [of "lh_block s" "{0..<n}" k i] by auto
  then have nb: "lh_block s k \<notin> fst ` set ?ws" by fastforce
  obtain B where B: "finite B" "\<forall>b. dirty_block s b \<longrightarrow> b \<in> B" "card B < NBUF"
    "(\<forall>i<n. dirty_block s (lh_block s i)) \<or> card B + 1 < NBUF" using r unfolding room_def by blast
  have d: "\<forall>b. dirty_block t b \<longrightarrow> b \<in> B" using w(5) B(2) by blast
  have d2: "dirty_block t (lh_block t k) \<or> card B + 1 < NBUF" using w(5) B(4) nb kn(1) t(3) by auto
  have pos: "log_start t + k + 1 < disksize t" "lh_block t k < disksize t" "log_start t + k + 1 \<noteq> lh_block t k"
    using kn t(3) w(6,8) by auto
  have dev: "log_dev t = 1" using w(7) ok(3) by simp
  obtain u where u: "install_block k t = (Inr (), u)" "wrote t (lh_block t k) (view t (log_start t + k + 1)) u"
    using install_block_ok [OF w(1,2) dev pos d B(1,3) d2] by blast
  have "view t (log_start t + k + 1) = view s (log_start s + k + 1)" using w(4,6) apply_writes_other [OF nl] by simp
  then have "wrotes s (?ws @ [(lh_block s k, view s (log_start s + k + 1))]) u"
    using wrotes_trans [OF t(4) wrotes_one [OF u(2)]] t(3) by simp
  moreover have "forK [0..<Suc k] install_block s = (Inr (), u)"
    using t(1) u(1) forK_snoc [of "[0..<k]" k install_block s] by simp
  moreover have "same_rest t u" using u(2) by (simp add: wrote_def)
  ultimately show ?case using same_rest_log(3,4) [of t u] t(2,3) by (intro exI [of _ u]) simp
qed

lemma commit_ok:
  assumes ok: "cache_ok s" "idle s" "log_dev s = 1" and n: "0 < lh_n s" "nat (lh_n s) \<le> LOGSIZE"
    and e: "entries_ok s (nat (lh_n s))" and r: "room s (nat (lh_n s))"
    and dirty: "\<forall>i<nat (lh_n s). dirty_block s (lh_block s i)"
  shows "\<exists>t h0 h1. commit s = (Inr (), t) \<and> lh_n t = 0 \<and>
    wrotes s (map (\<lambda>i. (log_start s + i + 1, view s (lh_block s i))) [0..<nat (lh_n s)]
      @ [(log_start s, header (lh_n s) (lh_block s) h0)]
      @ map (\<lambda>i. (lh_block s i, view s (lh_block s i))) [0..<nat (lh_n s)]
      @ [(log_start s, header 0 (lh_block s) h1)]) t"
proof -
  let ?n = "nat (lh_n s)" and ?st = "log_start s" and ?blk = "lh_block s"
  let ?ws = "map (\<lambda>i. (?st + i + 1, view s (?blk i))) [0..<?n]"
  obtain t where t: "forK [0..<?n] write_log_block s = (Inr (), t)" "lh_n t = lh_n s" "lh_block t = ?blk" "wrotes s ?ws t"
    using write_log_ok [OF ok e r order_refl] by blast
  note w = wrotesD [OF t(4)]
  have lo: "log_ok s" using ok r unfolding log_ok_def room_def by blast
  have st: "?st < disksize s" using e by (simp add: entries_ok_def)
  let ?H = "header (lh_n s) ?blk (view t ?st)"
  obtain u where u: "write_head t = (Inr (), u)" "wrotes t [(?st, ?H)] u" "lh_n u = lh_n s" "lh_block u = ?blk"
    using write_head_ok [OF log_ok_wrotes [OF lo t(4)]] n(2) st t(2,3) w(6,8) by auto
  note wu = wrotesD [OF u(2)]
  have nb: "?blk i \<notin> fst ` set ?ws" "?blk i \<noteq> ?st" if "i < ?n" for i using that e by (fastforce simp: entries_ok_def)+
  have dl: "\<forall>i<?n. dirty_block u (?blk i)" using dirty wu(5) w(5) nb by auto
  obtain B where B: "finite B" "\<forall>b. dirty_block s b \<longrightarrow> b \<in> B" "card B < NBUF" using r unfolding room_def by blast
  have ru: "room u ?n" unfolding room_def using B dl u(4) wu(5) w(5) by (intro exI [of _ B]) auto
  have eu: "entries_ok u ?n" using e wu(6,8) w(6,8) u(4) by (simp add: entries_ok_def)
  have dv: "log_dev u = 1" using wu(7) w(7) ok(3) by simp
  obtain v where v: "forK [0..<?n] install_block u = (Inr (), v)" "lh_n v = lh_n u" "lh_block v = lh_block u"
    "wrotes u (map (\<lambda>i. (lh_block u i, view u (log_start u + i + 1))) [0..<?n]) v"
    using install_ok [OF wu(1,2) dv eu ru order_refl] by blast
  have ds: "distinct (map (\<lambda>i. ?st + i + 1) [0..<?n])" by (simp add: distinct_map inj_on_def)
  have lv: "view u (?st + i + 1) = view s (?blk i)" if "i < ?n" for i
    using wu(4) w(4) apply_writes_map [OF ds that, of "\<lambda>i. view s (?blk i)"] by simp
  have cm: "map (\<lambda>i. (lh_block u i, view u (log_start u + i + 1))) [0..<?n] = map (\<lambda>i. (?blk i, view s (?blk i))) [0..<?n]"
    using lv u(4) wu(6) w(6) by (intro map_cong) auto
  let ?x = "v\<lparr>lh_n := 0\<rparr>"
  have su: "wrotes s (?ws @ [(?st, ?H)]) u" by (rule wrotes_trans [OF t(4) u(2)])
  have sx: "wrotes s ((?ws @ [(?st, ?H)]) @ map (\<lambda>i. (?blk i, view s (?blk i))) [0..<?n]) ?x"
    using wrotes_lh [OF wrotes_trans [OF su v(4)], of 0] unfolding cm .
  note wx = wrotesD [OF sx]
  obtain y where y: "write_head ?x = (Inr (), y)" "wrotes ?x [(?st, header 0 ?blk (view ?x ?st))] y" "lh_n y = 0"
    using write_head_ok [OF log_ok_wrotes [OF lo sx]] st u(4) v(3) wx(6,8) by auto
  have "commit s = (Inr (), y)"
    unfolding commit_def write_log_def install_trans_def using n(1) t(1,2) u(1,3) v(1,2) y(1)
    by (simp add: bindK_apply)
  moreover have "wrotes s (?ws @ [(?st, ?H)] @ map (\<lambda>i. (?blk i, view s (?blk i))) [0..<?n]
      @ [(?st, header 0 ?blk (view ?x ?st))]) y"
    using wrotes_trans [OF sx y(2)] by simp
  ultimately show ?thesis using y(3) by blast
qed

section \<open>Recovery\<close>

lemma read_entries:
  "n \<le> LOGSIZE \<Longrightarrow> forK [0..<n] (read_head_entry b) s =
     (Inr (), s\<lparr>lh_block := (\<lambda>i. if i < n then unat (get32 (bdata s b) (4 + 4 * i)) else lh_block s i)\<rparr>)"
proof (induction n)
  case (Suc n)
  let ?t = "s\<lparr>lh_block := (\<lambda>i. if i < n then unat (get32 (bdata s b) (4 + 4 * i)) else lh_block s i)\<rparr>"
  have "forK [0..<Suc n] (read_head_entry b) s = read_head_entry b n ?t"
    using Suc forK_snoc [of "[0..<n]" n "read_head_entry b" s] by simp
  also have "\<dots> = (Inr (), s\<lparr>lh_block := (\<lambda>i. if i < Suc n then unat (get32 (bdata s b) (4 + 4 * i)) else lh_block s i)\<rparr>)"
    using Suc.prems by (simp add: read_head_entry_def) (auto simp: fun_eq_iff less_Suc_eq)
  finally show ?case .
qed simp

text \<open>The header on a disk.\<close>

definition disk_n :: "(nat \<Rightarrow> block) \<Rightarrow> nat \<Rightarrow> int" where
  "disk_n d st = sint (get32 (d st) 0)"

definition disk_blk :: "(nat \<Rightarrow> block) \<Rightarrow> nat \<Rightarrow> nat \<Rightarrow> nat" where
  "disk_blk d st i = unat (get32 (d st) (4 + 4 * i))"

text \<open>A machine that has booted: the cache holds nothing.\<close>

definition booted :: "'z klog_scheme \<Rightarrow> bool" where
  "booted s \<longleftrightarrow> cache_ok s \<and> idle s \<and> log_dev s = 1 \<and> (\<forall>b. \<not> dirty_block s b)"

lemma booted_view: "booted s \<Longrightarrow> view s = disk s"
  unfolding booted_def using view_idle by blast

lemma read_head_ok:
  assumes bt: "booted s" and st: "log_start s < disksize s" and n: "nat (disk_n (disk s) (log_start s)) \<le> LOGSIZE"
  shows "\<exists>t. read_head s = (Inr (), t) \<and> wrotes s [] t \<and> lh_n t = disk_n (disk s) (log_start s) \<and>
    (\<forall>i<nat (disk_n (disk s) (log_start s)). lh_block t i = disk_blk (disk s) (log_start s) i)"
proof -
  let ?b = "log_start s" and ?n = "disk_n (disk s) (log_start s)"
  have ok: "cache_ok s" "idle s" "log_dev s = 1" and nd: "\<forall>b. dirty_block s b \<longrightarrow> b \<in> {}" using bt by (simp_all add: booted_def)
  obtain i t where t: "bread 1 ?b s = (Inr i, t)" "got s ?b i t" "\<forall>k. held t k \<longleftrightarrow> k = i"
    using rewrite_ok [OF ok(1,2) st nd] by auto
  note gt = gotD [OF t(2)]
  have dt: "bdata t i = disk s ?b" using got_data [OF t(2)] booted_view [OF bt] by simp
  let ?f = "\<lambda>k. if k < nat ?n then unat (get32 (bdata t i) (4 + 4 * k)) else lh_block t k"
  let ?u = "t\<lparr>lh_n := ?n, lh_block := ?f\<rparr>"
  have g: "got (s\<lparr>lh_n := ?n, lh_block := ?f\<rparr>) ?b i ?u"
  proof -
    have "same_rest (s\<lparr>lh_n := ?n, lh_block := ?f\<rparr>) ?u" by (rule same_rest_lh [OF gt(2)])
    then show ?thesis using t(2) unfolding got_def by (simp add: cached_def held_def)
  qed
  have h: "\<forall>k. held ?u k \<longleftrightarrow> k = i" using t(3) by (simp add: held_def)
  have ok': "cache_ok (s\<lparr>lh_n := ?n, lh_block := ?f\<rparr>)" using ok(1) by simp
  have cl: "dirty_block (s\<lparr>lh_n := ?n, lh_block := ?f\<rparr>) ?b \<or>
      view (s\<lparr>lh_n := ?n, lh_block := ?f\<rparr>) ?b = disk (s\<lparr>lh_n := ?n, lh_block := ?f\<rparr>) ?b"
    using booted_view [OF bt] by simp
  obtain v where v: "brelse i ?u = (Inr (), v)" "cache_ok v" "idle v" "same_rest (s\<lparr>lh_n := ?n, lh_block := ?f\<rparr>) v"
    "disk v = disk s" "disk_past v = disk_past s" "view v = view s" "dirty_block v = dirty_block s"
    using read_one [OF ok' g h cl] by auto
  have lv: "lh_n v = ?n" "lh_block v = ?f" using same_rest_log(3,4) [OF v(4)] by simp_all
  have "same_rest s (v\<lparr>lh_n := lh_n s, lh_block := lh_block s\<rparr>)"
    using same_rest_lh [OF v(4), where x = "lh_n s" and y = "lh_block s"] by simp
  then have w: "wrotes s [] v" using v by (simp add: wrotes_def history_def)
  have e: "forK [0..<nat ?n] (read_head_entry i) (t\<lparr>lh_n := ?n\<rparr>) = (Inr (), ?u)"
    using read_entries [OF n, of i "t\<lparr>lh_n := ?n\<rparr>"] by (simp cong: if_cong)
  have "read_head s = (Inr (), v)"
    unfolding read_head_def using ok(3) t(1) dt v(1) e by (simp add: disk_n_def)
  then show ?thesis using w lv dt by (intro exI [of _ v]) (simp add: disk_blk_def)
qed

text \<open>The header on a disk names blocks of the disk outside the log, each one once.\<close>

definition header_ok :: "(nat \<Rightarrow> block) \<Rightarrow> nat \<Rightarrow> nat \<Rightarrow> bool" where
  "header_ok d st sz \<longleftrightarrow> (let n = nat (disk_n d st) in n \<le> LOGSIZE \<and> st + n < sz \<and> distinct (map (disk_blk d st) [0..<n]) \<and>
     (\<forall>i<n. disk_blk d st i < sz \<and> \<not> (st \<le> disk_blk d st i \<and> disk_blk d st i \<le> st + n)))"

definition recovery_writes :: "(nat \<Rightarrow> block) \<Rightarrow> nat \<Rightarrow> (nat \<times> block) list" where
  "recovery_writes d st = map (\<lambda>i. (disk_blk d st i, d (st + i + 1))) [0..<nat (disk_n d st)]"

lemma recover_ok:
  assumes bt: "booted s" and h: "header_ok (disk s) (log_start s) (disksize s)"
  shows "\<exists>t h1 blks. recover_from_log s = (Inr (), t) \<and> lh_n t = 0 \<and>
    wrotes s (recovery_writes (disk s) (log_start s) @ [(log_start s, header 0 blks h1)]) t"
proof -
  let ?b = "log_start s" and ?n = "nat (disk_n (disk s) (log_start s))"
  have n: "?n \<le> LOGSIZE" and st: "?b < disksize s" using h by (simp_all add: header_ok_def Let_def)
  obtain t where t: "read_head s = (Inr (), t)" "wrotes s [] t" "lh_n t = disk_n (disk s) ?b"
    "\<forall>i<?n. lh_block t i = disk_blk (disk s) ?b i"
    using read_head_ok [OF bt st n] by blast
  note w = wrotesD [OF t(2)]
  have dv: "log_dev t = 1" using w(7) bt by (simp add: booted_def)
  have mp: "map (lh_block t) [0..<?n] = map (disk_blk (disk s) ?b) [0..<?n]" using t(4) by simp
  have e: "entries_ok t ?n" unfolding entries_ok_def mp w(6,8) using h t(4) by (simp add: header_ok_def Let_def)
  have r: "room t ?n" unfolding room_def using w(5) bt by (intro exI [of _ "{}"]) (simp add: booted_def)
  obtain u where u: "forK [0..<?n] install_block t = (Inr (), u)" "lh_n u = lh_n t" "lh_block u = lh_block t"
    "wrotes t (map (\<lambda>i. (lh_block t i, view t (log_start t + i + 1))) [0..<?n]) u"
    using install_ok [OF w(1,2) dv e r order_refl] by blast
  have cm: "map (\<lambda>i. (lh_block t i, view t (log_start t + i + 1))) [0..<?n] = recovery_writes (disk s) ?b"
    using t(4) w(4,6) booted_view [OF bt] unfolding recovery_writes_def by (intro map_cong) auto
  have sx: "wrotes s (recovery_writes (disk s) ?b) (u\<lparr>lh_n := 0\<rparr>)"
    using wrotes_lh [OF wrotes_trans [OF t(2) u(4)], of 0] unfolding cm by simp
  note wx = wrotesD [OF sx]
  have lo: "log_ok s" using bt unfolding booted_def log_ok_def by (auto intro!: exI [of _ "{}"])
  obtain y where y: "write_head (u\<lparr>lh_n := 0\<rparr>) = (Inr (), y)"
    "wrotes (u\<lparr>lh_n := 0\<rparr>) [(?b, header 0 (lh_block u) (view (u\<lparr>lh_n := 0\<rparr>) ?b))] y" "lh_n y = 0"
    using write_head_ok [OF log_ok_wrotes [OF lo sx]] st wx(6,8) by auto
  have "recover_from_log s = (Inr (), y)"
    unfolding recover_from_log_def install_trans_def using t(1,3) u(1) y(1) by simp
  then show ?thesis using wrotes_trans [OF sx y(2)] y(3) by blast
qed

end
