(* ===== verification/Log_Crash.thy ===== *)
theory Log_Crash
  imports Log_Writes
begin

text \<open>
  Crash safety of the log: whenever the machine stops during a commit, and however often it stops
  again while recovering, recovery leaves either all blocks of the transaction or none.
\<close>

section \<open>Disks\<close>

text \<open>The disk that recovery produces, up to the header block.\<close>

definition recovered :: "(nat \<Rightarrow> block) \<Rightarrow> nat \<Rightarrow> (nat \<Rightarrow> block)" where
  "recovered d st = apply_writes (recovery_writes d st) d"

lemma apply_writes_agree: "(\<And>b. b \<notin> fst ` set ws \<Longrightarrow> e b = d b) \<Longrightarrow> apply_writes ws e = apply_writes ws d"
proof (induction ws arbitrary: d e)
  case Nil
  then show ?case by (simp add: fun_eq_iff)
next
  case (Cons w ws)
  obtain b x where w: "w = (b, x)" by force
  have "apply_writes ws (e(b := x)) = apply_writes ws (d(b := x))"
  proof (rule Cons.IH)
    fix c assume "c \<notin> fst ` set ws"
    then show "(e(b := x)) c = (d(b := x)) c" using Cons.prems [of c] by (cases "c = b") (auto simp: w)
  qed
  then show ?case by (simp add: w)
qed

lemma recovery_writes_cong:
  assumes "d' st = d st" "\<And>i. i < nat (disk_n d st) \<Longrightarrow> d' (st + i + 1) = d (st + i + 1)"
  shows "recovery_writes d' st = recovery_writes d st"
  using assms by (simp add: recovery_writes_def disk_n_def disk_blk_def)

lemma header_ok_cong: "d' st = d st \<Longrightarrow> header_ok d' st sz = header_ok d st sz"
  by (simp add: header_ok_def disk_n_def disk_blk_def Let_def cong: map_cong)

lemma recovery_keys:
  assumes "header_ok d st sz" "b \<in> fst ` set (recovery_writes d st)"
  shows "b \<noteq> st" "i < nat (disk_n d st) \<Longrightarrow> b \<noteq> st + i + 1"
  using assms by (auto simp: header_ok_def recovery_writes_def Let_def)

lemma disk_n_header: "0 \<le> n \<Longrightarrow> n < 2 ^ 31 \<Longrightarrow> disk_n (d(st := header n blks h)) st = n"
proof -
  assume n: "0 \<le> n" "n < 2 ^ 31"
  have "sint (of_int n :: u32) = n" using n by (simp add: signed_of_int signed_take_bit_int_eq_self)
  then show ?thesis by (simp add: disk_n_def header_get)
qed

lemma header_empty:
  assumes "d st = header 0 blks h" "st < sz"
  shows "header_ok d st sz" "recovery_writes d st = []" "disk_n d st = 0"
proof -
  have "disk_n d st = 0" using disk_n_header [of 0 d st blks h] assms(1) by (simp add: disk_n_def)
  then show "header_ok d st sz" "recovery_writes d st = []" "disk_n d st = 0"
    using assms(2) by (simp_all add: header_ok_def recovery_writes_def Let_def)
qed

text \<open>Interrupting recovery: the disk in between recovers to the same.\<close>

lemma recovery_crash:
  assumes h: "header_ok d st sz" and j: "j \<le> length (recovery_writes d st) + 1"
    and d': "d' = apply_writes (take j (recovery_writes d st @ [(st, header 0 blks x)])) d"
  shows "header_ok d' st sz \<and> (\<forall>b. b \<noteq> st \<longrightarrow> recovered d' st b = recovered d st b)"
proof (cases "j \<le> length (recovery_writes d st)")
  case True
  let ?R = "recovery_writes d st"
  have e: "d' = apply_writes (take j ?R) d" using d' True by simp
  have k: "b \<notin> fst ` set (take j ?R)" if "b \<notin> fst ` set ?R" for b
    using that set_take_subset [of j ?R] by blast
  have same: "d' b = d b" if "b \<notin> fst ` set ?R" for b unfolding e by (rule apply_writes_other [OF k [OF that]])
  have st: "d' st = d st" using same recovery_keys(1) [OF h] by blast
  have "recovery_writes d' st = ?R"
    by (rule recovery_writes_cong [of d' st d, OF st]) (use same recovery_keys(2) [OF h] in blast)
  moreover have "apply_writes ?R d' = apply_writes ?R d" by (rule apply_writes_agree [OF same])
  ultimately show ?thesis using h header_ok_cong [of d' st d sz] st by (simp add: recovered_def)
next
  case False
  then have "j = length (recovery_writes d st) + 1" using j by simp
  then have e: "d' = (recovered d st)(st := header 0 blks x)" using d' by (simp add: recovered_def)
  have "st < sz" using h by (simp add: header_ok_def Let_def)
  then show ?thesis using header_empty [of d' st blks x sz] e by (simp add: recovered_def)
qed

section \<open>Crash points of a commit\<close>

text \<open>The state when \<open>commit\<close> is called for a transaction of at least one block.\<close>

definition committing :: "'z klog_scheme \<Rightarrow> bool" where
  "committing s \<longleftrightarrow> cache_ok s \<and> idle s \<and> log_dev s = 1 \<and> 0 < lh_n s \<and> nat (lh_n s) < NBUF \<and>
     entries_ok s (nat (lh_n s)) \<and> (\<forall>i<nat (lh_n s). lh_block s i < 2 ^ 32) \<and>
     (\<forall>b. dirty_block s b \<longleftrightarrow> b \<in> lh_block s ` {0..<nat (lh_n s)}) \<and> disk_n (disk s) (log_start s) = 0"

definition in_log :: "'z klog_scheme \<Rightarrow> nat \<Rightarrow> bool" where
  "in_log s b \<longleftrightarrow> log_start s \<le> b \<and> b \<le> log_start s + nat (lh_n s)"

definition commit_writes :: "'z klog_scheme \<Rightarrow> block \<Rightarrow> block \<Rightarrow> (nat \<times> block) list" where
  "commit_writes s h0 h1 =
     map (\<lambda>i. (log_start s + i + 1, view s (lh_block s i))) [0..<nat (lh_n s)]
      @ [(log_start s, header (lh_n s) (lh_block s) h0)]
      @ map (\<lambda>i. (lh_block s i, view s (lh_block s i))) [0..<nat (lh_n s)]
      @ [(log_start s, header 0 (lh_block s) h1)]"

lemma committingD:
  assumes "committing s"
  shows "cache_ok s" "idle s" "log_dev s = 1" "0 < lh_n s" "nat (lh_n s) < NBUF" "entries_ok s (nat (lh_n s))"
    "\<And>i. i < nat (lh_n s) \<Longrightarrow> lh_block s i < 2 ^ 32" "disk_n (disk s) (log_start s) = 0"
    "\<And>b. dirty_block s b \<longleftrightarrow> b \<in> lh_block s ` {0..<nat (lh_n s)}" "log_start s < disksize s"
  using assms by (auto simp: committing_def entries_ok_def)

lemma view_unlogged: "committing s \<Longrightarrow> b \<notin> lh_block s ` {0..<nat (lh_n s)} \<Longrightarrow> view s b = disk s b"
  using view_idle [of s b] committingD(1,2,9) by blast

lemma fst_map_pair: "fst ` set (map (\<lambda>i. (f i, g i)) xs) = f ` set xs"
  by (auto simp: image_image)

text \<open>Before the header is written, nothing of the transaction can be seen.\<close>

lemma crash_before:
  assumes c: "committing s" and k: "k \<le> nat (lh_n s)" and d: "d = apply_writes (take k (commit_writes s h0 h1)) (disk s)"
  shows "header_ok d (log_start s) (disksize s) \<and> (\<forall>b. \<not> in_log s b \<longrightarrow> recovered d (log_start s) b = disk s b)"
proof -
  let ?L = "map (\<lambda>i. (log_start s + i + 1, view s (lh_block s i))) [0..<nat (lh_n s)]"
  have e: "d = apply_writes (take k ?L) (disk s)" using d k by (simp add: commit_writes_def)
  have same: "d b = disk s b" if "b \<notin> (\<lambda>i. log_start s + i + 1) ` {0..<nat (lh_n s)}" for b
  proof -
    have "b \<notin> fst ` set ?L" using that by (simp only: fst_map_pair set_upt not_False_eq_True)
    then have "b \<notin> fst ` set (take k ?L)" using set_take_subset [of k ?L] by blast
    then show ?thesis unfolding e by (rule apply_writes_other)
  qed
  have st: "d (log_start s) = disk s (log_start s)" by (rule same) auto
  then have "disk_n d (log_start s) = 0" using committingD(8) [OF c] by (simp add: disk_n_def)
  then have "header_ok d (log_start s) (disksize s)" "recovered d (log_start s) = d"
    using committingD(10) [OF c] by (simp_all add: header_ok_def recovered_def recovery_writes_def Let_def)
  moreover have "d b = disk s b" if "\<not> in_log s b" for b by (rule same) (use that in \<open>auto simp: in_log_def\<close>)
  ultimately show ?thesis by simp
qed

text \<open>From then on, all of it can.\<close>

lemma crash_after:
  assumes c: "committing s" and m: "m \<le> nat (lh_n s)"
    and d: "d = apply_writes (take m (map (\<lambda>i. (lh_block s i, view s (lh_block s i))) [0..<nat (lh_n s)]))
      ((apply_writes (map (\<lambda>i. (log_start s + i + 1, view s (lh_block s i))) [0..<nat (lh_n s)]) (disk s))
        (log_start s := header (lh_n s) (lh_block s) h0))" (is "d = apply_writes (take m ?I) (?e(_ := _))")
  shows "header_ok d (log_start s) (disksize s) \<and> (\<forall>b. \<not> in_log s b \<longrightarrow> recovered d (log_start s) b = view s b) \<and>
    recovery_writes d (log_start s) = ?I"
proof -
  let ?n = "nat (lh_n s)" and ?st = "log_start s" and ?blk = "lh_block s"
  have eo: "entries_ok s ?n" using committingD(6) [OF c] .
  have bl: "?blk i \<noteq> ?st" "\<not> in_log s (?blk i)" if "i < ?n" for i using eo that by (auto simp: entries_ok_def in_log_def)
  have lg: "?st + j + 1 \<noteq> ?blk i" if "i < ?n" "j < ?n" for i j
    using bl(2) [OF that(1)] that(2) unfolding in_log_def by linarith
  have ds: "distinct (map (\<lambda>i. ?st + i + 1) [0..<?n])" by (simp add: distinct_map inj_on_def)
  have dI: "d b = (?e(?st := header (lh_n s) ?blk h0)) b" if "b \<notin> ?blk ` {0..<?n}" for b
  proof -
    have "b \<notin> fst ` set ?I" using that by (simp only: fst_map_pair set_upt not_False_eq_True)
    then have "b \<notin> fst ` set (take m ?I)" using set_take_subset [of m ?I] by blast
    then show ?thesis unfolding d by (rule apply_writes_other)
  qed
  have hd: "d ?st = header (lh_n s) ?blk h0" using dI [of ?st] bl(1) by force
  have n: "disk_n d ?st = lh_n s"
    using disk_n_header [of "lh_n s" d ?st ?blk h0] committingD(4,5) [OF c] hd by (simp add: disk_n_def)
  have b: "disk_blk d ?st i = ?blk i" if "i < ?n" for i
    using header_get(2) [OF that, of ?blk h0] committingD(7) [OF c that] hd by (simp add: disk_blk_def unat_of_nat)
  have lv: "d (?st + i + 1) = view s (?blk i)" if "i < ?n" for i
  proof -
    have "?st + i + 1 \<notin> ?blk ` {0..<?n}" using lg that by force
    then show ?thesis using dI [of "?st + i + 1"] apply_writes_map [OF ds that, of "\<lambda>i. view s (?blk i)" "disk s"] by simp
  qed
  have R: "recovery_writes d ?st = ?I" unfolding recovery_writes_def n using b lv by (intro map_cong) auto
  have mp: "map (disk_blk d ?st) [0..<?n] = map ?blk [0..<?n]" using b by simp
  have "header_ok d ?st (disksize s)"
    unfolding header_ok_def n Let_def mp using eo b committingD(5) [OF c] by (simp add: entries_ok_def)
  moreover have "recovered d ?st x = view s x" if x: "\<not> in_log s x" for x
  proof (cases "x \<in> ?blk ` {0..<?n}")
    case True
    then obtain i where i: "i < ?n" "x = ?blk i" by auto
    have "distinct (map ?blk [0..<?n])" using eo by (simp add: entries_ok_def)
    then show ?thesis using apply_writes_map [of ?blk ?n i "\<lambda>i. view s (?blk i)" d] i by (simp add: recovered_def R)
  next
    case False
    then have "x \<notin> fst ` set ?I" by (simp only: fst_map_pair set_upt not_False_eq_True)
    then have "recovered d ?st x = d x" unfolding recovered_def R by (rule apply_writes_other)
    also have "\<dots> = ?e x" using dI [OF False] x by (auto simp: in_log_def)
    also have "\<dots> = disk s x" using x by (intro apply_writes_other) (auto simp: in_log_def)
    finally show ?thesis using view_unlogged [OF c False] by simp
  qed
  ultimately show ?thesis using R by blast
qed

lemma crash_done:
  assumes c: "committing s" and d: "d = apply_writes (commit_writes s h0 h1) (disk s)"
  shows "header_ok d (log_start s) (disksize s) \<and> recovered d (log_start s) = d \<and> (\<forall>b. \<not> in_log s b \<longrightarrow> d b = view s b)"
proof -
  let ?n = "nat (lh_n s)" and ?I = "map (\<lambda>i. (lh_block s i, view s (lh_block s i))) [0..<nat (lh_n s)]"
  let ?e = "(apply_writes (map (\<lambda>i. (log_start s + i + 1, view s (lh_block s i))) [0..<?n]) (disk s))
        (log_start s := header (lh_n s) (lh_block s) h0)"
  let ?f = "apply_writes (take ?n ?I) ?e"
  have d2: "d = ?f(log_start s := header 0 (lh_block s) h1)" using d by (simp add: commit_writes_def)
  have f: "\<forall>b. \<not> in_log s b \<longrightarrow> recovered ?f (log_start s) b = view s b" "recovery_writes ?f (log_start s) = ?I"
    using crash_after [OF c order_refl refl, of h0] by auto
  have "apply_writes ?I ?f = apply_writes ?I ?e" by (rule apply_writes_agree) (simp add: apply_writes_other)
  then have "recovered ?f (log_start s) = ?f" unfolding recovered_def f(2) by simp
  then have v: "d b = view s b" if "\<not> in_log s b" for b
    using f(1) that unfolding d2 by (cases "b = log_start s") (auto simp: in_log_def)
  show ?thesis
    using v header_empty [of d "log_start s" "lh_block s" h1 "disksize s"] committingD(10) [OF c] d2
    by (simp add: recovered_def)
qed

lemma crash_disk:
  assumes c: "committing s" and k: "k \<le> length (commit_writes s h0 h1)"
    and d: "d = apply_writes (take k (commit_writes s h0 h1)) (disk s)"
  shows "header_ok d (log_start s) (disksize s) \<and>
    ((\<forall>b. \<not> in_log s b \<longrightarrow> recovered d (log_start s) b = disk s b) \<or> (\<forall>b. \<not> in_log s b \<longrightarrow> recovered d (log_start s) b = view s b))"
proof (cases "k \<le> nat (lh_n s)")
  case True
  then show ?thesis using crash_before [OF c True d] by blast
next
  case False
  let ?n = "nat (lh_n s)" and ?I = "map (\<lambda>i. (lh_block s i, view s (lh_block s i))) [0..<nat (lh_n s)]"
  define m where "m = k - ?n - 1"
  have k': "k = ?n + 1 + m" "m \<le> ?n + 1" using False k by (auto simp: m_def commit_writes_def)
  show ?thesis
  proof (cases "m \<le> ?n")
    case True
    have "d = apply_writes (take m ?I)
      ((apply_writes (map (\<lambda>i. (log_start s + i + 1, view s (lh_block s i))) [0..<?n]) (disk s))
        (log_start s := header (lh_n s) (lh_block s) h0))"
      using d True by (simp add: commit_writes_def k'(1))
    then show ?thesis using crash_after [OF c True] by blast
  next
    case False
    then have "take k (commit_writes s h0 h1) = commit_writes s h0 h1" using k' by (simp add: commit_writes_def)
    then show ?thesis using crash_done [OF c, of d h0 h1] d by simp
  qed
qed

section \<open>Stopping at any moment\<close>

text \<open>The disks on which a run from \<open>s\<close> to \<open>t\<close> may have been cut off.\<close>

definition crash_points :: "'z klog_scheme \<Rightarrow> 'z klog_scheme \<Rightarrow> (nat \<Rightarrow> block) set" where
  "crash_points s t = insert (disk t) (set (take (length (disk_past t) - length (disk_past s)) (disk_past t)))"

lemma wrotes_crash_points:
  assumes "wrotes s ws t" "d \<in> crash_points s t"
  shows "\<exists>k\<le>length ws. d = apply_writes (take k ws) (disk s)"
proof -
  have h: "length (history ws (disk s)) = length ws" by (simp add: history_def)
  have "d = apply_writes ws (disk s) \<or> d \<in> set (history ws (disk s))"
    using assms h by (simp add: crash_points_def wrotes_def)
  then show ?thesis
  proof
    assume "d = apply_writes ws (disk s)"
    then show ?thesis by (intro exI [of _ "length ws"]) simp
  next
    assume "d \<in> set (history ws (disk s))"
    then show ?thesis by (auto simp: history_set intro: less_imp_le)
  qed
qed

text \<open>The machine boots on \<open>d\<close>, with the log of \<open>s\<close>.\<close>

definition boots :: "'z klog_scheme \<Rightarrow> (nat \<Rightarrow> block) \<Rightarrow> 'z klog_scheme \<Rightarrow> bool" where
  "boots s d u \<longleftrightarrow> booted u \<and> disk u = d \<and> log_start u = log_start s \<and> disksize u = disksize s"

text \<open>The disks after any number of interrupted recoveries.\<close>

inductive crashed :: "'z klog_scheme \<Rightarrow> (nat \<Rightarrow> block) \<Rightarrow> (nat \<Rightarrow> block) \<Rightarrow> bool" for s d where
  crashed_once: "crashed s d d"
| crashed_again: "crashed s d d' \<Longrightarrow> boots s d' u \<Longrightarrow> recover_from_log u = (r, v) \<Longrightarrow> d'' \<in> crash_points u v \<Longrightarrow> crashed s d d''"

definition recovers_to :: "'z klog_scheme \<Rightarrow> (nat \<Rightarrow> block) \<Rightarrow> (nat \<Rightarrow> block) \<Rightarrow> bool" where
  "recovers_to s d e \<longleftrightarrow> (\<forall>d' u. crashed s d d' \<and> boots s d' u \<longrightarrow>
     (\<exists>v. recover_from_log u = (Inr (), v) \<and> lh_n v = 0 \<and> (\<forall>b. \<not> in_log s b \<longrightarrow> disk v b = e b)))"

lemma crashed_recovered:
  assumes "crashed s d d'" "header_ok d (log_start s) (disksize s)"
  shows "header_ok d' (log_start s) (disksize s) \<and> (\<forall>b. b \<noteq> log_start s \<longrightarrow> recovered d' (log_start s) b = recovered d (log_start s) b)"
  using assms
proof (induction rule: crashed.induct)
  case crashed_once
  then show ?case by simp
next
  case (crashed_again d' u r v d'')
  then have h: "header_ok d' (log_start s) (disksize s)"
    and rc: "\<forall>b. b \<noteq> log_start s \<longrightarrow> recovered d' (log_start s) b = recovered d (log_start s) b" by auto
  have u: "booted u" "disk u = d'" "log_start u = log_start s" "disksize u = disksize s"
    using crashed_again.hyps(2) by (auto simp: boots_def)
  obtain h1 blks where w: "wrotes u (recovery_writes d' (log_start s) @ [(log_start s, header 0 blks h1)]) v"
    using recover_ok [OF u(1)] h crashed_again.hyps(3) u by auto
  obtain k where k: "k \<le> length (recovery_writes d' (log_start s)) + 1"
    "d'' = apply_writes (take k (recovery_writes d' (log_start s) @ [(log_start s, header 0 blks h1)])) d'"
    using wrotes_crash_points [OF w crashed_again.hyps(4)] u(2) by auto
  show ?case using recovery_crash [OF h k] rc by auto
qed

lemma recovers:
  assumes h: "header_ok d (log_start s) (disksize s)" and e: "\<forall>b. \<not> in_log s b \<longrightarrow> recovered d (log_start s) b = e b"
  shows "recovers_to s d e"
  unfolding recovers_to_def
proof (intro allI impI)
  fix d' u assume a: "crashed s d d' \<and> boots s d' u"
  have u: "booted u" "disk u = d'" "log_start u = log_start s" "disksize u = disksize s" using a by (auto simp: boots_def)
  have r: "header_ok d' (log_start s) (disksize s)" "\<forall>b. b \<noteq> log_start s \<longrightarrow> recovered d' (log_start s) b = recovered d (log_start s) b"
    using crashed_recovered [OF conjunct1 [OF a] h] by auto
  obtain v h1 blks where v: "recover_from_log u = (Inr (), v)" "lh_n v = 0"
    "wrotes u (recovery_writes d' (log_start s) @ [(log_start s, header 0 blks h1)]) v"
    using recover_ok [OF u(1)] r(1) u by auto
  have "disk v = (recovered d' (log_start s))(log_start s := header 0 blks h1)"
    using v(3) u(2) by (simp add: wrotes_def recovered_def)
  then have "disk v b = e b" if "\<not> in_log s b" for b using r(2) e that by (cases "b = log_start s") (auto simp: in_log_def)
  then show "\<exists>v. recover_from_log u = (Inr (), v) \<and> lh_n v = 0 \<and> (\<forall>b. \<not> in_log s b \<longrightarrow> disk v b = e b)"
    using v(1,2) by blast
qed

lemma commit_run:
  assumes c: "committing s"
  shows "\<exists>t h0 h1. commit s = (Inr (), t) \<and> lh_n t = 0 \<and> wrotes s (commit_writes s h0 h1) t"
proof -
  let ?B = "lh_block s ` {0..<nat (lh_n s)}"
  have cd: "card ?B < NBUF" using card_image_le [of "{0..<nat (lh_n s)}" "lh_block s"] committingD(5) [OF c] by simp
  have r: "room s (nat (lh_n s))" unfolding room_def using cd committingD(9) [OF c] by (intro exI [of _ ?B]) auto
  have n: "nat (lh_n s) \<le> LOGSIZE" using committingD(5) [OF c] by simp
  show ?thesis unfolding commit_writes_def
    by (rule commit_ok [OF committingD(1-4) [OF c] n committingD(6) [OF c] r]) (use committingD(9) [OF c] in auto)
qed

text \<open>
  C1. A commit returns with every block of the transaction on disk, and whenever it is cut off, and
  however often the recovery that follows is cut off too, the recovery that completes leaves
  outside the log either the disk before the commit or the disk after it.
\<close>

theorem commit_crash_safe:
  assumes "committing s"
  shows "\<exists>t. commit s = (Inr (), t) \<and> lh_n t = 0 \<and> (\<forall>b. \<not> in_log s b \<longrightarrow> disk t b = view s b) \<and>
    (\<forall>d\<in>crash_points s t. recovers_to s d (disk s) \<or> recovers_to s d (view s)) \<and>
    recovers_to s (disk t) (view s)"
proof -
  obtain t h0 h1 where t: "commit s = (Inr (), t)" "lh_n t = 0" "wrotes s (commit_writes s h0 h1) t"
    using commit_run [OF assms] by blast
  have fin: "header_ok (disk t) (log_start s) (disksize s) \<and> recovered (disk t) (log_start s) = disk t \<and>
      (\<forall>b. \<not> in_log s b \<longrightarrow> disk t b = view s b)"
    using t(3) by (intro crash_done [OF assms, of _ h0 h1]) (simp add: wrotes_def)
  have "recovers_to s d (disk s) \<or> recovers_to s d (view s)" if d: "d \<in> crash_points s t" for d
  proof -
    obtain k where "k \<le> length (commit_writes s h0 h1)" "d = apply_writes (take k (commit_writes s h0 h1)) (disk s)"
      using wrotes_crash_points [OF t(3) d] by blast
    then show ?thesis using crash_disk [OF assms] recovers by metis
  qed
  moreover have "recovers_to s (disk t) (view s)" using fin by (intro recovers) auto
  ultimately show ?thesis using t(1,2) fin by blast
qed

text \<open>A transaction of one block, held in buffer 0.\<close>

definition one_block_log :: klog where
  "one_block_log = \<lparr>me = 0, ncli = (\<lambda>_. 0), intena = (\<lambda>_. True), iflag = (\<lambda>_. True), curproc = (\<lambda>_. Some 0),
     lk_locked = (\<lambda>_. False), lk_cpu = (\<lambda>_. None), sleeplks = (\<lambda>_. \<lparr>sl_locked = False, sl_pid = 0\<rparr>), kptable = ptable_zero,
     disk = (\<lambda>_ _. 0), disk_past = [], disksize = 100,
     bufs = (\<lambda>i. \<lparr>b_valid = (i = 0), b_dirty = (i = 0), b_dev = (if i = 0 then 1 else 0), b_blockno = (if i = 0 then 50 else 0),
       b_refcnt = 0, b_prev = (if i = 0 then None else Some (i - 1)), b_next = (if i < 29 then Some (i + 1) else None),
       b_data = (\<lambda>_. if i = 0 then 7 else 0)\<rparr>),
     head_prev = Some 29, head_next = Some 0,
     log_start = 2, log_size = 30, log_outstanding = 0, log_committing = True, log_dev = 1, lh_n = 1, lh_block = (\<lambda>_. 50)\<rparr>"

lemma one_block_lru: "lru one_block_log [0..<NBUF]"
proof -
  have "[0..<NBUF] = [0, 1, 2, 3, 4, 5, 6, 7, 8, 9, 10, 11, 12, 13, 14, 15, 16, 17, 18, 19, 20, 21, 22, 23, 24, 25, 26, 27, 28, 29]"
    by code_simp
  then have "path (nextp one_block_log) None (map Some [0..<NBUF]) None" "path (prevp one_block_log) None (map Some (rev [0..<NBUF])) None"
    by (simp_all add: one_block_log_def nextp_def prevp_def del: upt_rec_numeral)
  then show ?thesis unfolding lru_def by (auto simp del: upt_rec_numeral)
qed

lemma one_block_committing: "committing one_block_log"
proof -
  have "calm one_block_log" by (simp add: calm_def lockable_def cpu_ok_def one_block_log_def)
  then have "cache_ok one_block_log"
    using one_block_lru unfolding cache_ok_def
    by (auto simp: cached_def buf_ok_def held_def one_block_log_def Let_def split: if_splits)
  moreover have "dirty_block one_block_log b \<longleftrightarrow> b = 50" for b
    by (auto simp: dirty_block_def cached_def one_block_log_def)
  ultimately show ?thesis
    by (simp add: committing_def idle_def held_def entries_ok_def disk_n_def get32_def one_block_log_def)
qed

theorem commit_crash_safe_witness:
  "committing one_block_log \<and> view one_block_log 50 \<noteq> disk one_block_log 50 \<and>
   (\<exists>t. commit one_block_log = (Inr (), t) \<and> disk t 50 = view one_block_log 50 \<and>
     (\<forall>d\<in>crash_points one_block_log t. recovers_to one_block_log d (disk one_block_log) \<or> recovers_to one_block_log d (view one_block_log)))"
proof -
  have "\<not> in_log one_block_log 50" by (simp add: in_log_def one_block_log_def)
  moreover have "view one_block_log 50 \<noteq> disk one_block_log 50"
    by (simp add: view_def one_block_log_def fun_eq_iff upt_rec)
  ultimately show ?thesis using commit_crash_safe [OF one_block_committing] one_block_committing by blast
qed

end
