(* ===== verification/Fs_Tx.thy ===== *)
theory Fs_Tx
  imports Log_Writes Fs
begin

text \<open>
  Blocks inside a transaction. The file system changes blocks by \<open>bread\<close>, an assignment to the buffer,
  \<open>log_write\<close> and \<open>brelse\<close>; several buffers may be in use at once. Here each of the three steps is an
  equation on the block store \<open>view\<close>: the disk is not written, a changed block is dirty and in the log.
\<close>

section \<open>What a transaction leaves alone\<close>

definition tx_same :: "'z klog_scheme \<Rightarrow> 'z klog_scheme \<Rightarrow> bool" where
  "tx_same s t \<longleftrightarrow> same_rest s (t\<lparr>lh_n := lh_n s, lh_block := lh_block s\<rparr>) \<and> disk t = disk s \<and> disk_past t = disk_past s"

lemma tx_same_refl [simp]: "tx_same s s"
  by (simp add: tx_same_def)

lemma tx_same_trans: "tx_same s t \<Longrightarrow> tx_same t u \<Longrightarrow> tx_same s u"
proof -
  assume a: "tx_same s t" "tx_same t u"
  have 1: "same_rest s (t\<lparr>lh_n := lh_n s, lh_block := lh_block s\<rparr>)" using a(1) by (simp add: tx_same_def)
  have "same_rest t (u\<lparr>lh_n := lh_n t, lh_block := lh_block t\<rparr>)" using a(2) by (simp add: tx_same_def)
  from same_rest_lh [OF this, where x = "lh_n s" and y = "lh_block s"]
  have 2: "same_rest (t\<lparr>lh_n := lh_n s, lh_block := lh_block s\<rparr>) (u\<lparr>lh_n := lh_n s, lh_block := lh_block s\<rparr>)" by simp
  show ?thesis using same_rest_trans [OF 1 2] a by (simp add: tx_same_def)
qed

lemma tx_sameI: "same_rest s t \<Longrightarrow> disk t = disk s \<Longrightarrow> disk_past t = disk_past s \<Longrightarrow> tx_same s t"
proof -
  assume a: "same_rest s t" "disk t = disk s" "disk_past t = disk_past s"
  then have "t\<lparr>lh_n := lh_n s, lh_block := lh_block s\<rparr> = t" using same_rest_log [of s t] by simp
  then show ?thesis using a by (simp add: tx_same_def)
qed

lemma tx_sameD:
  assumes "tx_same s t"
  shows "disksize t = disksize s" "log_size t = log_size s" "log_outstanding t = log_outstanding s" "klog.more t = klog.more s"
    "disk t = disk s"
proof -
  have r: "same_rest s (t\<lparr>lh_n := lh_n s, lh_block := lh_block s\<rparr>)" using assms by (simp add: tx_same_def)
  show "disksize t = disksize s" "log_size t = log_size s" "log_outstanding t = log_outstanding s"
    using same_restD [OF r] same_rest_log [OF r] by simp_all
  have "kbio.more (t\<lparr>lh_n := lh_n s, lh_block := lh_block s\<rparr>) = kbio.more s" using same_restD(2) [OF r] .
  then have "klog.more (t\<lparr>lh_n := lh_n s, lh_block := lh_block s\<rparr>) = klog.more s" by (cases s; cases t) simp
  then show "klog.more t = klog.more s" by simp
  show "disk t = disk s" using assms by (simp add: tx_same_def)
qed

lemma tx_same_fs:
  assumes "tx_same s (t :: 'z kfs_scheme)"
  shows "fsb t = fsb s" "inodes t = inodes s"
  using tx_sameD(4) [OF assms] by (cases s; cases t; simp)+

section \<open>States inside a transaction\<close>

definition lh_set :: "'z klog_scheme \<Rightarrow> nat set" where
  "lh_set s = lh_block s ` {0..<nat (lh_n s)}"

text \<open>\<open>H\<close> is the set of buffers in use.\<close>

definition tx :: "'z klog_scheme \<Rightarrow> nat set \<Rightarrow> bool" where
  "tx s H \<longleftrightarrow> cache_ok s \<and> H \<subseteq> {..<NBUF} \<and> (\<forall>i. held s i \<longleftrightarrow> i \<in> H) \<and>
     (\<forall>i\<in>H. b_dirty (bufs s i) \<or> bdata s i = disk s (b_blockno (bufs s i))) \<and>
     0 \<le> lh_n s \<and> inj_on (lh_block s) {0..<nat (lh_n s)} \<and> (\<forall>b. dirty_block s b \<longleftrightarrow> b \<in> lh_set s)"

abbreviation blk :: "'z kbio_scheme \<Rightarrow> nat \<Rightarrow> nat" where
  "blk s i \<equiv> b_blockno (bufs s i)"

lemma txD:
  assumes "tx s H"
  shows "cache_ok s" "H \<subseteq> {..<NBUF}" "held s i \<longleftrightarrow> i \<in> H" "i \<in> H \<Longrightarrow> b_dirty (bufs s i) \<or> bdata s i = disk s (blk s i)"
    "0 \<le> lh_n s" "inj_on (lh_block s) {0..<nat (lh_n s)}" "dirty_block s b \<longleftrightarrow> b \<in> lh_set s"
  using assms unfolding tx_def by blast+

lemma tx_finite: "tx s H \<Longrightarrow> finite H"
  using txD(2) [of s H] finite_subset by blast

lemma finite_lh_set [simp]: "finite (lh_set s)"
  by (simp add: lh_set_def)

lemma card_lh_set: "tx s H \<Longrightarrow> card (lh_set s) = nat (lh_n s)"
  using txD(6) [of s H] by (simp add: lh_set_def card_image)

lemma tx_cached: "tx s H \<Longrightarrow> i \<in> H \<Longrightarrow> cached s (blk s i) i"
proof -
  assume a: "tx s H" "i \<in> H"
  have h: "held s i" using txD(3) [OF a(1)] a(2) by simp
  have "i < NBUF" using txD(2) [OF a(1)] a(2) by auto
  then show ?thesis using buf_okD(2) [OF cache_ok_buf [OF txD(1) [OF a(1)]]] h by (auto simp: cached_def)
qed

lemma tx_data: "tx s H \<Longrightarrow> i \<in> H \<Longrightarrow> bdata s i = view s (blk s i)"
  using view_cached [OF txD(1) tx_cached] buf_okD(2) [OF cache_ok_buf [OF txD(1)]] txD(3) tx_cached
  by (metis cachedD(1))

lemma tx_bread:
  assumes t: "tx s H" and b: "b < disksize s" "\<forall>i\<in>H. blk s i \<noteq> b" and c: "card H + nat (lh_n s) < NBUF"
  shows "\<exists>i t. bread 1 b s = (Inr i, t) \<and> i \<notin> H \<and> tx t (insert i H) \<and> blk t i = b \<and> (\<forall>j\<in>H. blk t j = blk s j) \<and>
    view t = view s \<and> lh_n t = lh_n s \<and> lh_block t = lh_block s \<and> tx_same s t"
proof -
  note d = txD [OF t]
  have "\<forall>i. cached s b i \<longrightarrow> \<not> held s i" using b(2) d(3) by (auto simp: cached_def)
  moreover have "\<exists>i<NBUF. \<not> held s i \<and> \<not> b_dirty (bufs s i)"
    using buffer_available [OF d(1), of H "lh_set s"] d tx_finite [OF t] c card_lh_set [OF t] by simp
  ultimately obtain i u where u: "bread 1 b s = (Inr i, u)" "got s b i u"
    using bread_ok [OF d(1) b(1)] by blast
  note g = gotD [OF u(2)]
  have same: "bufs u j = bufs s j" if "j \<noteq> i" for j using u(2) that unfolding got_def by blast
  have lg: "lh_n u = lh_n s" "lh_block u = lh_block s" "log_outstanding u = log_outstanding s" using same_rest_log [OF g(2)] by simp_all
  have iH: "i \<notin> H" using g(5) d(3) by simp
  have "b_dirty (bufs u i) \<or> bdata u i = disk u (blk u i)"
  proof (cases "dirty_block s b")
    case True
    then have "dirty_block u b" using g(9) by simp
    then show ?thesis using cached_dirty [OF g(1,3)] by simp
  next
    case False
    then have "view s b = disk s b" using view_clean [OF d(1)] \<open>\<forall>i. cached s b i \<longrightarrow> \<not> held s i\<close> by blast
    then show ?thesis using got_data [OF u(2)] g(3,6) by (simp add: cached_def)
  qed
  moreover have "b_dirty (bufs u j) \<or> bdata u j = disk u (blk u j)" if "j \<in> H" for j
    using d(4) [OF that] same [of j] that iH g(6) by (cases "j = i") auto
  moreover have "insert i H \<subseteq> {..<NBUF}" using d(2) g(3) by (simp add: cached_def)
  ultimately have "tx u (insert i H)"
    unfolding tx_def using g d(3,5,6,7) lg got_held [OF u(2)] by (auto simp: lh_set_def)
  moreover have "tx_same s u" using g(2,6,7) by (rule tx_sameI)
  moreover have "blk u j = blk s j" if "j \<in> H" for j using same [of j] iH that by (cases "j = i") auto
  ultimately show ?thesis using u(1) iH g(3,8) lg by (intro exI [of _ i] exI [of _ u]) (simp add: cached_def)
qed

lemma tx_brelse:
  assumes t: "tx s H" and i: "i \<in> H"
  shows "\<exists>t. brelse i s = (Inr (), t) \<and> tx t (H - {i}) \<and> (\<forall>j\<in>H. blk t j = blk s j) \<and> view t = view s \<and> lh_n t = lh_n s \<and>
    lh_block t = lh_block s \<and> tx_same s t"
proof -
  note d = txD [OF t]
  have ci: "cached s (blk s i) i" "held s i" using tx_cached [OF t i] d(3) i by simp_all
  obtain u where u: "brelse i s = (Inr (), u)" "touched s (blk s i) i u" "\<not> held u i" "disk u = disk s" "disk_past u = disk_past s"
    "b_dirty (bufs u i) = b_dirty (bufs s i)" "view u = view s"
    using brelse_ok [OF d(1) ci d(4) [OF i]] by blast
  note g = touchedD [OF u(2)]
  have lg: "lh_n u = lh_n s" "lh_block u = lh_block s" "log_outstanding u = log_outstanding s" using same_rest_log [OF g(2)] by simp_all
  have bk: "blk u j = blk s j" if "j \<in> H" for j using tx_cached [OF t that] g(4) [of "blk s j" j] by (simp add: cached_def)
  have "dirty_block u b = dirty_block s b" for b
    using touched_dirty [OF u(2), of b] u(6) cached_dirty [OF d(1) ci(1)] by auto
  moreover have "held u j \<longleftrightarrow> j \<in> H - {i}" for j using u(3) g(5) [of j] d(3) [of j] by (cases "j = i") auto
  ultimately have "tx u (H - {i})"
    unfolding tx_def using g(1,6,7) d(2,4-7) lg bk u(4) by (auto simp: lh_set_def)
  moreover have "tx_same s u" using g(2) u(4,5) by (rule tx_sameI)
  ultimately show ?thesis using u(1,7) bk lg by blast
qed

text \<open>An assignment to a buffer followed by \<open>log_write\<close>.\<close>

lemma log_slot:
  assumes "0 \<le> n" "inj_on blks {0..<nat n}"
  shows "log_slot n blks b = nat n \<and> b \<notin> blks ` {0..<nat n} \<or> log_slot n blks b < nat n \<and> blks (log_slot n blks b) = b"
proof (cases "List.find (\<lambda>i. blks i = b) [0..<nat n]")
  case None
  then have "\<forall>x<nat n. blks x \<noteq> b" by (simp add: find_None_iff)
  moreover have "log_slot n blks b = nat n" using None by (simp add: log_slot_def)
  ultimately show ?thesis by auto
next
  case (Some i)
  then have "i < nat n" "blks i = b" by (auto simp: find_Some_iff)
  moreover have "log_slot n blks b = i" using Some by (simp add: log_slot_def)
  ultimately show ?thesis by simp
qed

definition logged :: "nat \<Rightarrow> 'z klog_scheme \<Rightarrow> 'z klog_scheme" where
  "logged b s = (let i = log_slot (lh_n s) (lh_block s) b in
     s\<lparr>lh_block := (lh_block s)(i := b), lh_n := (if int i = lh_n s then lh_n s + 1 else lh_n s)\<rparr>)"

lemma logged_set:
  assumes "0 \<le> lh_n s" "inj_on (lh_block s) {0..<nat (lh_n s)}"
  shows "lh_set (logged b s) = insert b (lh_set s)" "inj_on (lh_block (logged b s)) {0..<nat (lh_n (logged b s))}"
    "0 \<le> lh_n (logged b s)"
proof -
  let ?n = "nat (lh_n s)" and ?i = "log_slot (lh_n s) (lh_block s) b"
  consider (new) "?i = ?n" "b \<notin> lh_set s" | (old) "?i < ?n" "lh_block s ?i = b"
    using log_slot [OF assms, of b] unfolding lh_set_def by blast
  then have "lh_set (logged b s) = insert b (lh_set s) \<and> inj_on (lh_block (logged b s)) {0..<nat (lh_n (logged b s))} \<and> 0 \<le> lh_n (logged b s)"
  proof cases
    case new
    have e: "{0..<nat (lh_n s + 1)} = insert ?n {0..<?n}" using assms(1) by auto
    have "lh_block (logged b s) = (lh_block s)(?n := b)" "lh_n (logged b s) = lh_n s + 1"
      using new(1) assms(1) by (simp_all add: logged_def Let_def)
    then show ?thesis using new(2) assms unfolding lh_set_def by (auto simp: e inj_on_def)
  next
    case old
    then have "(lh_block s)(?i := b) = lh_block s" by auto
    moreover have "int ?i \<noteq> lh_n s" using old(1) assms(1) by simp
    ultimately have "logged b s = s" by (simp add: logged_def Let_def)
    moreover have "b \<in> lh_set s" unfolding lh_set_def using old by (intro image_eqI [of _ _ ?i]) auto
    ultimately show ?thesis using assms by (simp add: insert_absorb)
  qed
  then show "lh_set (logged b s) = insert b (lh_set s)" "inj_on (lh_block (logged b s)) {0..<nat (lh_n (logged b s))}"
    "0 \<le> lh_n (logged b s)" by blast+
qed

lemma logged_simps [simp]:
  "cache_ok (logged b s) = cache_ok s" "view (logged b s) = view s" "dirty_block (logged b s) = dirty_block s"
  "bufs (logged b s) = bufs s" "disk (logged b s) = disk s" "disk_past (logged b s) = disk_past s"
  "log_outstanding (logged b s) = log_outstanding s" "held (logged b s) i = held s i"
  by (simp_all add: logged_def Let_def held_def)

lemma logged_same: "tx_same s t \<Longrightarrow> tx_same s (logged b t)"
  by (simp add: tx_same_def logged_def Let_def)

lemma log_write_run:
  assumes c: "calm s" and n: "lh_n s < int LOGSIZE" "lh_n s < log_size s - 1" "0 < log_outstanding s"
  shows "log_write i s = (Inr (), logged (blk s i) (upd_buf i (\<lambda>x. x\<lparr>b_dirty := True\<rparr>) s))"
proof -
  have l: "lockable LogLock s" using calm_lockable [OF c] .
  let ?t = "logged (blk s i) (upd_buf i (\<lambda>x. x\<lparr>b_dirty := True\<rparr>) s)"
  have "lockable LogLock ?t" using l by (simp add: logged_def Let_def upd_buf_def lockable_def cpu_ok_def)
  moreover have "(let blockno = blk (took LogLock s) i; k = log_slot (lh_n (took LogLock s)) (lh_block (took LogLock s)) blockno
           in upd_buf i (\<lambda>x. x\<lparr>b_dirty := True\<rparr>)
                (took LogLock s\<lparr>lh_block := (lh_block (took LogLock s))(k := blockno),
                   lh_n := (if int k = lh_n (took LogLock s) then lh_n (took LogLock s) + 1 else lh_n (took LogLock s))\<rparr>)) = took LogLock ?t"
    by (simp add: took_def logged_def upd_buf_def Let_def)
  ultimately show ?thesis using l n by (simp add: log_write_def bindK_apply acquire_lockable release_took)
qed

lemma mark_dirty:
  assumes ok: "cache_ok s" and i: "cached s b i" "held s i"
  defines "t \<equiv> upd_buf i (\<lambda>x. x\<lparr>b_dirty := True\<rparr>) s"
  shows "touched s b i t" "view t = view s"
proof -
  have ci: "i < NBUF" "b_dev (bufs s i) = 1" "b_blockno (bufs s i) = b" using i by (simp_all add: cached_def)
  note bo = cache_ok_buf [OF ok ci(1)]
  have v: "b_valid (bufs s i)" using buf_okD(2) [OF bo i(2)] by blast
  have bi: "buf_ok t i" using bo i v ci by (auto simp: t_def buf_ok_def Let_def held_def)
  have sr: "same_rest s t" by (simp add: t_def same_rest_def upd_buf_def)
  show t: "touched s b i t"
    by (rule touchedI [OF ok i(1), of t "bufs t i"]) (use ci cache_ok_calm [OF ok] bi sr in \<open>simp_all add: t_def\<close>)
  have "view t = (view s)(b := bdata t i)" using touched_view [OF ok t] v by (simp add: t_def)
  then show "view t = view s" using view_cached [OF ok i(1) v] by (simp add: t_def fun_upd_idem)
qed

lemma tx_update:
  assumes t: "tx s H" and i: "i \<in> H" and n: "lh_n s < int LOGSIZE" "lh_n s < log_size s - 1" "0 < log_outstanding s"
  shows "\<exists>u t. upd_data i f s = (Inr (), u) \<and> log_write i u = (Inr (), t) \<and> tx t H \<and> (\<forall>j\<in>H. blk t j = blk s j) \<and>
    view t = (view s)(blk s i := f (view s (blk s i))) \<and> lh_set t = insert (blk s i) (lh_set s) \<and> tx_same s t"
proof -
  note d = txD [OF t]
  let ?b = "blk s i"
  have ci: "cached s ?b i" "held s i" using tx_cached [OF t i] d(3) i by simp_all
  obtain u where u: "upd_data i f s = (Inr (), u)" "touched s ?b i u" "held u i" "disk u = disk s" "disk_past u = disk_past s"
    "bdata u i = f (bdata s i)" "view u = (view s)(?b := f (view s ?b))"
    using upd_data_ok [OF d(1) ci, of f] by blast
  note g = touchedD [OF u(2)]
  have lg: "lh_n u = lh_n s" "lh_block u = lh_block s" "log_outstanding u = log_outstanding s" "log_size u = log_size s"
    using same_rest_log [OF g(2)] by simp_all
  have bu: "blk u i = ?b" using g(3) by (simp add: cached_def)
  let ?v = "upd_buf i (\<lambda>x. x\<lparr>b_dirty := True\<rparr>) u" and ?t = "logged ?b (upd_buf i (\<lambda>x. x\<lparr>b_dirty := True\<rparr>) u)"
  have lw: "log_write i u = (Inr (), ?t)"
    using log_write_run [of u i] cache_ok_calm [OF g(1)] n lg bu by simp
  note m = mark_dirty [OF g(1,3) u(3)] and gv = touchedD [OF mark_dirty(1) [OF g(1,3) u(3)]]
  have inj: "0 \<le> lh_n ?v" "inj_on (lh_block ?v) {0..<nat (lh_n ?v)}" using d(5,6) lg by (simp_all add: upd_buf_def)
  have sv: "lh_set ?v = lh_set s" using lg by (simp add: lh_set_def upd_buf_def)
  have bk: "blk ?t j = blk s j" if "j \<in> H" for j
    using tx_cached [OF t that] g(4) [of "blk s j" j] gv(4) [of "blk s j" j] by (simp add: cached_def)
  have hd: "held ?t j \<longleftrightarrow> j \<in> H" for j
    using g(5) [of j] gv(5) [of j] d(3) [of j] u(3) i by (cases "j = i") (auto simp: held_def)
  have dirty: "dirty_block ?t b \<longleftrightarrow> b \<in> lh_set ?t" for b
    using touched_dirty [OF m(1), of b] touched_dirty [OF u(2), of b] d(7) [of b] logged_set(1) [OF inj] sv
    by (auto simp: upd_buf_def)
  have cl: "b_dirty (bufs ?t j) \<or> bdata ?t j = disk ?t (blk ?t j)" if "j \<in> H" for j
  proof (cases "j = i")
    case False
    then show ?thesis using d(4) [OF that] g(6,7) [of j] gv(6,7) [of j] u(4) bk [OF that] by simp
  qed simp
  have "tx ?t H"
    unfolding tx_def using gv(1) d(2) hd cl lg logged_set(2,3) [OF inj] dirty by (simp add: upd_buf_def)
  moreover have "tx_same s ?t"
    using tx_same_trans [OF tx_sameI [OF g(2) u(4,5)] logged_same [OF tx_sameI [OF gv(2)]]] by simp
  moreover have "view ?t = (view s)(?b := f (view s ?b))" using m(2) u(7) by simp
  ultimately show ?thesis using u(1) lw bk logged_set(1) [OF inj] sv by auto
qed

end
