(* ===== verification/Fs_Tree.thy ===== *)
theory Fs_Tree
  imports Fs_Tx
begin

text \<open>
  Files as trees of blocks. The addresses of an inode and of its indirect blocks are read from the
  block store \<open>V\<close>; every slot of the tree is a position. In a good tree the addresses are blocks marked
  in the bitmap, pairwise different and no bitmap blocks. Putting a fresh block at an empty position
  changes this one address only.
\<close>

section \<open>The bitmap\<close>

definition used :: "(nat \<Rightarrow> block) \<Rightarrow> superblock \<Rightarrow> nat \<Rightarrow> bool" where
  "used V sb b \<longleftrightarrow> bitmap (V (BBLOCK b sb)) (b mod BPB)"

definition bitmap_blocks :: "superblock \<Rightarrow> nat set" where
  "bitmap_blocks sb = (\<lambda>b. BBLOCK b sb) ` {0..<sb_size sb}"

lemma bitmap_bit: "bitmap d i \<longleftrightarrow> bit (d (i div 8)) (i mod 8)"
  unfolding bitmap_def by (simp add: bit_iff_and_push_bit_not_eq_0)

lemma bitmap_set: "bitmap (set_bitmap bi d) i \<longleftrightarrow> i = bi \<or> bitmap d i"
proof -
  have "i = bi" if "i div 8 = bi div 8" "i mod 8 = bi mod 8" using that by (metis div_mult_mod_eq)
  then show ?thesis by (auto simp: bitmap_bit set_bitmap_def bit_or_iff bit_exp_iff)
qed

text \<open>The disk layout: the bitmap and the boot block are marked as used.\<close>

definition layout_ok :: "(nat \<Rightarrow> block) \<Rightarrow> superblock \<Rightarrow> bool" where
  "layout_ok V sb \<longleftrightarrow> sb_size sb < 2 ^ 32 \<and> used V sb 0 \<and> 0 \<notin> bitmap_blocks sb \<and>
     (\<forall>b\<in>bitmap_blocks sb. b < sb_size sb \<and> used V sb b)"

text \<open>The block store after \<open>balloc\<close> has returned \<open>b\<close>.\<close>

definition alloc :: "superblock \<Rightarrow> nat \<Rightarrow> (nat \<Rightarrow> block) \<Rightarrow> (nat \<Rightarrow> block)" where
  "alloc sb b V = V(BBLOCK b sb := set_bitmap (b mod BPB) (V (BBLOCK b sb)), b := (\<lambda>_. 0))"

lemma used_alloc:
  assumes l: "layout_ok V sb" and b: "b < sb_size sb" "\<not> used V sb b" and c: "c < sb_size sb"
  shows "used (alloc sb b V) sb c \<longleftrightarrow> c = b \<or> used V sb c"
proof -
  have n: "BBLOCK c sb \<noteq> b" using l b c by (auto simp: layout_ok_def bitmap_blocks_def)
  have "c = b" if "BBLOCK c sb = BBLOCK b sb" "c mod BPB = b mod BPB"
  proof -
    have "c div BPB = b div BPB" using that(1) by (simp add: BBLOCK_def)
    then show ?thesis using that(2) by (metis div_mult_mod_eq)
  qed
  then show ?thesis using n by (auto simp: used_def alloc_def bitmap_set)
qed

lemma alloc_other: "c \<noteq> b \<Longrightarrow> c \<notin> bitmap_blocks sb \<Longrightarrow> b < sb_size sb \<Longrightarrow> alloc sb b V c = V c"
  by (auto simp: alloc_def bitmap_blocks_def)

lemma alloc_layout:
  assumes "layout_ok V sb" "b < sb_size sb" "\<not> used V sb b"
  shows "layout_ok (alloc sb b V) sb"
proof -
  have "0 < sb_size sb" using assms(2) by simp
  then show ?thesis using assms used_alloc [OF assms] unfolding layout_ok_def by auto
qed

section \<open>Positions\<close>

datatype pos = A nat | I nat | D nat | E nat nat

fun valid :: "pos \<Rightarrow> bool" where
  "valid (A k) = (k < NDIRECT + 2)"
| "valid (I k) = (k < NINDIRECT)"
| "valid (D j) = (j < NINDIRECT)"
| "valid (E j k) = (j < NINDIRECT \<and> k < NINDIRECT)"

text \<open>The positions of indirect blocks, and the position and slot where an address is stored.\<close>

fun is_index :: "pos \<Rightarrow> bool" where
  "is_index (A k) = (k = NDIRECT \<or> k = NDIRECT + 1)"
| "is_index (D j) = True"
| "is_index _ = False"

fun child :: "pos \<Rightarrow> nat \<Rightarrow> pos" where
  "child (A n) k = (if n = NDIRECT then I k else D k)"
| "child (D j) k = E j k"
| "child p k = p"

definition ent :: "(nat \<Rightarrow> block) \<Rightarrow> nat \<Rightarrow> nat \<Rightarrow> nat" where
  "ent V a k = (if a = 0 then 0 else unat (get32 (V a) (4 * k)))"

fun addr :: "(nat \<Rightarrow> block) \<Rightarrow> inode \<Rightarrow> pos \<Rightarrow> nat" where
  "addr V x (A k) = i_addrs x k"
| "addr V x (I k) = ent V (i_addrs x NDIRECT) k"
| "addr V x (D j) = ent V (i_addrs x (NDIRECT + 1)) j"
| "addr V x (E j k) = ent V (ent V (i_addrs x (NDIRECT + 1)) j) k"

lemma addr_child: "is_index p \<Longrightarrow> addr V x (child p k) = ent V (addr V x p) k"
  by (cases p) auto

lemma valid_child: "valid p \<Longrightarrow> is_index p \<Longrightarrow> k < NINDIRECT \<Longrightarrow> valid (child p k)"
  by (cases p) auto

lemma child_cases:
  obtains k where "p = A k" | q k where "p = child q k" "is_index q" "valid p \<longrightarrow> valid q \<and> k < NINDIRECT"
proof (cases p)
  case (I k)
  have "p = child (A NDIRECT) k" "is_index (A NDIRECT)" "valid p \<longrightarrow> valid (A NDIRECT) \<and> k < NINDIRECT" using I by auto
  then show thesis by (rule that(2))
next
  case (D k)
  have "p = child (A (NDIRECT + 1)) k" "is_index (A (NDIRECT + 1))" "valid p \<longrightarrow> valid (A (NDIRECT + 1)) \<and> k < NINDIRECT" using D by auto
  then show thesis by (rule that(2))
next
  case (E j k)
  have "p = child (D j) k" "is_index (D j)" "valid p \<longrightarrow> valid (D j) \<and> k < NINDIRECT" using E by auto
  then show thesis by (rule that(2))
qed (use that(1) in blast)

lemma child_inject: "is_index q \<Longrightarrow> is_index q' \<Longrightarrow> child q k = child q' k' \<longleftrightarrow> q = q' \<and> k = k'"
  by (cases q; cases q') auto

lemma child_not_A: "is_index q \<Longrightarrow> child q k \<noteq> A n"
  by (cases q) auto

text \<open>The address for each block of the file.\<close>

definition file_pos :: "nat \<Rightarrow> pos" where
  "file_pos bn = (if bn < NDIRECT then A bn
     else if bn - NDIRECT < NINDIRECT then I (bn - NDIRECT)
     else E ((bn - NDIRECT - NINDIRECT) div NINDIRECT) ((bn - NDIRECT - NINDIRECT) mod NINDIRECT))"

lemma file_pos_valid: "bn < MAXFILE \<Longrightarrow> valid (file_pos bn) \<and> \<not> is_index (file_pos bn)"
  by (auto simp: file_pos_def less_mult_imp_div_less)

section \<open>Good trees\<close>

definition tree_ok :: "(nat \<Rightarrow> block) \<Rightarrow> superblock \<Rightarrow> inode \<Rightarrow> bool" where
  "tree_ok V sb x \<longleftrightarrow>
     (\<forall>p. valid p \<longrightarrow> addr V x p \<noteq> 0 \<longrightarrow> addr V x p < sb_size sb \<and> used V sb (addr V x p) \<and> addr V x p \<notin> bitmap_blocks sb) \<and>
     (\<forall>p q. valid p \<longrightarrow> valid q \<longrightarrow> addr V x p = addr V x q \<longrightarrow> addr V x p \<noteq> 0 \<longrightarrow> p = q)"

lemma tree_okD:
  assumes "tree_ok V sb x" "valid p" "addr V x p \<noteq> 0"
  shows "addr V x p < sb_size sb" "used V sb (addr V x p)" "addr V x p \<notin> bitmap_blocks sb"
    "valid q \<Longrightarrow> addr V x p = addr V x q \<Longrightarrow> p = q"
  using assms unfolding tree_ok_def by blast+

text \<open>Storing \<open>b\<close>, an empty block, at the empty position \<open>p0\<close>.\<close>

lemma addr_set:
  assumes top: "\<And>n. i_addrs x1 n = (if A n = p0 then b else i_addrs x n)"
    and b: "V1 b = (\<lambda>_. 0)" "b < 2 ^ 32" and e: "addr V x p0 = 0"
    and slot: "\<And>q k. valid q \<Longrightarrow> is_index q \<Longrightarrow> k < NINDIRECT \<Longrightarrow> addr V x q \<noteq> 0 \<Longrightarrow>
      get32 (V1 (addr V x q)) (4 * k) = (if child q k = p0 then of_nat b else get32 (V (addr V x q)) (4 * k))"
    and par: "\<And>q k. is_index q \<Longrightarrow> p0 = child q k \<Longrightarrow> addr V x q \<noteq> 0"
    and p: "valid p"
  shows "addr V1 x1 p = (if p = p0 then b else addr V x p)"
proof -
  have z: "ent V1 b k = 0" for k using b(1) by (simp add: ent_def get32_def)
  have step: "addr V1 x1 (child q k) = (if child q k = p0 then b else addr V x (child q k))"
    if q: "valid q" "is_index q" "k < NINDIRECT" and IH: "addr V1 x1 q = (if q = p0 then b else addr V x q)" for q k
  proof (cases "q = p0")
    case True
    have "child p0 k \<noteq> p0" using q(2) True by (cases p0) auto
    then show ?thesis using z IH True e q(2) addr_child [of p0 V x k] addr_child [of p0 V1 x1 k] by (simp add: ent_def)
  next
    case False
    show ?thesis
    proof (cases "addr V x q = 0")
      case True
      then have "child q k \<noteq> p0" using par q(2) by blast
      then show ?thesis using IH False True q(2) addr_child [of q V x k] addr_child [of q V1 x1 k] by (simp add: ent_def)
    next
      case nz: False
      show ?thesis using slot [OF q nz] IH False nz q(2) addr_child [of q V x k] addr_child [of q V1 x1 k] b(2)
        by (simp add: ent_def unat_of_nat)
    qed
  qed
  have sub: "addr V1 x1 (A n) = (if A n = p0 then b else addr V x (A n))" for n using top by simp
  have dd: "addr V1 x1 (D j) = (if D j = p0 then b else addr V x (D j))" if "j < NINDIRECT" for j
    using step [OF _ _ that sub, of "NDIRECT + 1"] by simp
  show ?thesis
  proof (cases p)
    case (A k)
    then show ?thesis using sub by simp
  next
    case (I k)
    then show ?thesis using step [OF _ _ _ sub, of NDIRECT k] p by simp
  next
    case (D j)
    then show ?thesis using dd p by simp
  next
    case (E j k)
    then show ?thesis using step [OF _ _ _ dd, of j k] p by simp
  qed
qed

section \<open>Growing files\<close>

text \<open>
  From \<open>V, x\<close> to \<open>V', x'\<close> blocks were added at some of the positions \<open>P\<close> and the data at the positions \<open>W\<close>
  may have been written; the added blocks were free before, new data blocks are empty unless written, and
  only bitmap blocks, indirect blocks of the file, written blocks and new blocks changed.
\<close>

definition grows :: "superblock \<Rightarrow> pos set \<Rightarrow> pos set \<Rightarrow> (nat \<Rightarrow> block) \<Rightarrow> inode \<Rightarrow> (nat \<Rightarrow> block) \<Rightarrow> inode \<Rightarrow> bool" where
  "grows sb P W V x V' x' \<longleftrightarrow> x' = x\<lparr>i_addrs := i_addrs x'\<rparr> \<and> tree_ok V' sb x' \<and> layout_ok V' sb \<and>
     (\<forall>p. valid p \<longrightarrow> addr V x p \<noteq> 0 \<longrightarrow> addr V' x' p = addr V x p) \<and>
     (\<forall>p. valid p \<longrightarrow> addr V x p = 0 \<longrightarrow> addr V' x' p \<noteq> 0 \<longrightarrow> p \<in> P \<and> \<not> used V sb (addr V' x' p) \<and>
        (\<not> is_index p \<longrightarrow> p \<notin> W \<longrightarrow> V' (addr V' x' p) = (\<lambda>_. 0))) \<and>
     (\<forall>c. c < sb_size sb \<longrightarrow> used V' sb c \<longrightarrow> used V sb c \<or> (\<exists>p\<in>P. valid p \<and> addr V x p = 0 \<and> c = addr V' x' p)) \<and>
     (\<forall>c. c < sb_size sb \<longrightarrow> used V sb c \<longrightarrow> used V' sb c) \<and>
     (\<forall>c. c < sb_size sb \<longrightarrow> used V sb c \<longrightarrow> c \<notin> bitmap_blocks sb \<longrightarrow> (\<forall>q. valid q \<longrightarrow> is_index q \<or> q \<in> W \<longrightarrow> c \<noteq> addr V x q) \<longrightarrow> V' c = V c)"

abbreviation grow :: "superblock \<Rightarrow> pos set \<Rightarrow> (nat \<Rightarrow> block) \<Rightarrow> inode \<Rightarrow> (nat \<Rightarrow> block) \<Rightarrow> inode \<Rightarrow> bool" where
  "grow sb P \<equiv> grows sb P {}"

lemma growD:
  assumes "grows sb P W V x V' x'"
  shows "x' = x\<lparr>i_addrs := i_addrs x'\<rparr>" "tree_ok V' sb x'" "layout_ok V' sb"
    "valid p \<Longrightarrow> addr V x p \<noteq> 0 \<Longrightarrow> addr V' x' p = addr V x p"
    "valid p \<Longrightarrow> addr V x p = 0 \<Longrightarrow> addr V' x' p \<noteq> 0 \<Longrightarrow> p \<in> P \<and> \<not> used V sb (addr V' x' p)"
    "valid p \<Longrightarrow> addr V x p = 0 \<Longrightarrow> addr V' x' p \<noteq> 0 \<Longrightarrow> \<not> is_index p \<Longrightarrow> p \<notin> W \<Longrightarrow> V' (addr V' x' p) = (\<lambda>_. 0)"
    "c < sb_size sb \<Longrightarrow> used V' sb c \<Longrightarrow> used V sb c \<or> (\<exists>p\<in>P. valid p \<and> addr V x p = 0 \<and> c = addr V' x' p)"
    "c < sb_size sb \<Longrightarrow> used V sb c \<Longrightarrow> used V' sb c"
    "c < sb_size sb \<Longrightarrow> used V sb c \<Longrightarrow> c \<notin> bitmap_blocks sb \<Longrightarrow>
      (\<And>q. valid q \<Longrightarrow> is_index q \<or> q \<in> W \<Longrightarrow> c \<noteq> addr V x q) \<Longrightarrow> V' c = V c"
  using assms unfolding grows_def by blast+

lemma grow_refl: "tree_ok V sb x \<Longrightarrow> layout_ok V sb \<Longrightarrow> grows sb P W V x V x"
  by (simp add: grows_def)

lemma grow_mono: "grows sb P W V x V' x' \<Longrightarrow> P \<subseteq> Q \<Longrightarrow> W \<subseteq> X \<Longrightarrow> grows sb Q X V x V' x'"
  unfolding grows_def by (elim conjE, intro conjI) blast+

lemma grow_trans:
  assumes t: "layout_ok V sb" and g: "grows sb P W V x V1 x1" and h: "grows sb Q X V1 x1 V2 x2"
  shows "grows sb (P \<union> Q) (W \<union> X) V x V2 x2"
proof -
  have old: "addr V2 x2 p = addr V x p" if "valid p" "addr V x p \<noteq> 0" for p
    using growD(4) [OF g that] growD(4) [OF h that(1)] that(2) by simp
  have new: "p \<in> P \<union> Q \<and> \<not> used V sb (addr V2 x2 p) \<and> (\<not> is_index p \<longrightarrow> p \<notin> W \<union> X \<longrightarrow> V2 (addr V2 x2 p) = (\<lambda>_. 0))"
    if p: "valid p" "addr V x p = 0" "addr V2 x2 p \<noteq> 0" for p
  proof (cases "addr V1 x1 p = 0")
    case True
    note n = growD(5) [OF h p(1) True p(3)] growD(6) [OF h p(1) True p(3)]
    have "addr V2 x2 p < sb_size sb" using tree_okD(1) [OF growD(2) [OF h] p(1,3)] .
    then show ?thesis using n growD(8) [OF g, of "addr V2 x2 p"] by blast
  next
    case False
    note n = growD(5) [OF g p(1,2) False] growD(6) [OF g p(1,2) False]
    have e: "addr V2 x2 p = addr V1 x1 p" by (rule growD(4) [OF h p(1) False])
    note d = tree_okD [OF growD(2) [OF g] p(1) False]
    have "V2 (addr V1 x1 p) = V1 (addr V1 x1 p)" if "\<not> is_index p" "p \<notin> X"
      by (rule growD(9) [OF h d(1-3)]) (use d(4) that in blast)
    then show ?thesis using n e by auto
  qed
  have mk: "used V sb c \<or> (\<exists>p\<in>P \<union> Q. valid p \<and> addr V x p = 0 \<and> c = addr V2 x2 p)" if c: "c < sb_size sb" "used V2 sb c" for c
  proof (cases "used V1 sb c")
    case True
    show ?thesis
    proof (cases "used V sb c")
      case False
      then obtain p where p: "p \<in> P" "valid p" "addr V x p = 0" "c = addr V1 x1 p" using growD(7) [OF g c(1) True] by blast
      have "c \<noteq> 0" using False t unfolding layout_ok_def by metis
      then have "addr V2 x2 p = c" using growD(4) [OF h p(2)] p(4) by simp
      then show ?thesis using p by blast
    qed simp
  next
    case False
    then obtain p where p: "p \<in> Q" "valid p" "addr V1 x1 p = 0" "c = addr V2 x2 p" using growD(7) [OF h c] by blast
    moreover have "addr V x p = 0" using growD(4) [OF g p(2)] p(3) by auto
    ultimately show ?thesis by blast
  qed
  have frame: "V2 c = V c" if c: "c < sb_size sb" "used V sb c" "c \<notin> bitmap_blocks sb"
    "\<And>q. valid q \<Longrightarrow> is_index q \<or> q \<in> W \<union> X \<Longrightarrow> c \<noteq> addr V x q" for c
  proof -
    have n: "c \<noteq> addr V1 x1 q" if q: "valid q" "is_index q \<or> q \<in> X" for q
    proof (cases "addr V x q = 0")
      case True
      have "c \<noteq> 0 \<or> addr V1 x1 q \<noteq> 0" using c(4) [OF q(1)] q(2) True by fastforce
      then show ?thesis using growD(5) [OF g q(1) True] c(2) by metis
    next
      case False
      then show ?thesis using growD(4) [OF g q(1)] c(4) [OF q(1)] q(2) by auto
    qed
    have "V2 c = V1 c" by (rule growD(9) [OF h c(1) growD(8) [OF g c(1,2)] c(3) n])
    moreover have "V1 c = V c" by (rule growD(9) [OF g c(1-3)]) (use c(4) in blast)
    ultimately show ?thesis by simp
  qed
  have "x1\<lparr>i_addrs := c\<rparr> = x\<lparr>i_addrs := c\<rparr>" for c using arg_cong [OF growD(1) [OF g], of "\<lambda>y. y\<lparr>i_addrs := c\<rparr>"] by simp
  then have "x2 = x\<lparr>i_addrs := i_addrs x2\<rparr>" using growD(1) [OF h] by metis
  moreover have "used V2 sb c" if "c < sb_size sb" "used V sb c" for c
    by (rule growD(8) [OF h that(1) growD(8) [OF g that]])
  ultimately show ?thesis unfolding grows_def
    using growD(2,3) [OF h] old new mk frame by (intro conjI allI impI) blast+
qed

text \<open>One more block, at an empty position whose parent exists.\<close>

lemma grow_one:
  assumes t: "tree_ok V sb x" and l: "layout_ok V sb" and p0: "valid p0" "addr V x p0 = 0"
    and b: "b < sb_size sb" "\<not> used V sb b"
    and x1: "x1 = x\<lparr>i_addrs := i_addrs x1\<rparr>"
    and ad: "\<And>p. valid p \<Longrightarrow> addr V1 x1 p = (if p = p0 then b else addr V x p)"
    and us: "\<And>c. c < sb_size sb \<Longrightarrow> used V1 sb c \<longleftrightarrow> c = b \<or> used V sb c"
    and z: "V1 b = (\<lambda>_. 0)"
    and fr: "\<And>c. c < sb_size sb \<Longrightarrow> used V sb c \<Longrightarrow> c \<notin> bitmap_blocks sb \<Longrightarrow>
      (\<And>q. valid q \<Longrightarrow> is_index q \<Longrightarrow> c \<noteq> addr V x q) \<Longrightarrow> V1 c = V c"
  shows "grow sb {p0} V x V1 x1"
proof -
  have bm: "b \<notin> bitmap_blocks sb" "b \<noteq> 0" using b l unfolding layout_ok_def by metis+
  have t1: "tree_ok V1 sb x1" unfolding tree_ok_def
  proof (intro conjI allI impI)
    fix p assume p: "valid p" "addr V1 x1 p \<noteq> 0"
    show "addr V1 x1 p < sb_size sb" "used V1 sb (addr V1 x1 p)" "addr V1 x1 p \<notin> bitmap_blocks sb"
      using ad [OF p(1)] p(2) tree_okD(1-3) [OF t p(1)] us b bm by (auto split: if_splits)
  next
    fix p q assume p: "valid p" "valid q" "addr V1 x1 p = addr V1 x1 q" "addr V1 x1 p \<noteq> 0"
    have "addr V x r \<noteq> b" if "valid r" for r using tree_okD(2) [OF t that] b(2) bm(2) by metis
    then show "p = q" using p ad [OF p(1)] ad [OF p(2)] tree_okD(4) [OF t p(1) _ p(2)] by (auto split: if_splits)
  qed
  have l1: "layout_ok V1 sb" using l us b(1) unfolding layout_ok_def by auto
  show ?thesis unfolding grows_def
  proof (intro conjI allI impI)
    show "x1 = x\<lparr>i_addrs := i_addrs x1\<rparr>" by (rule x1)
    show "tree_ok V1 sb x1" "layout_ok V1 sb" by (rule t1, rule l1)
    show "addr V1 x1 p = addr V x p" if "valid p" "addr V x p \<noteq> 0" for p using ad [OF that(1)] that p0 by auto
    fix p assume p: "valid p" "addr V x p = 0" "addr V1 x1 p \<noteq> 0"
    then have "p = p0" "addr V1 x1 p = b" using ad [OF p(1)] by (auto split: if_splits)
    then show "p \<in> {p0}" "\<not> used V sb (addr V1 x1 p)" "V1 (addr V1 x1 p) = (\<lambda>_. 0)" using b z by simp_all
  next
    fix c assume c: "c < sb_size sb" "used V1 sb c"
    then show "used V sb c \<or> (\<exists>p\<in>{p0}. valid p \<and> addr V x p = 0 \<and> c = addr V1 x1 p)" using us [OF c(1)] ad [OF p0(1)] p0 by auto
  next
    fix c assume c: "c < sb_size sb" "used V sb c"
    then show "used V1 sb c" using us [OF c(1)] by simp
  next
    fix c assume c: "c < sb_size sb" "used V sb c" "c \<notin> bitmap_blocks sb" "\<forall>q. valid q \<longrightarrow> is_index q \<or> q \<in> {} \<longrightarrow> c \<noteq> addr V x q"
    then show "V1 c = V c" using fr [OF c(1-3)] by blast
  qed
qed

lemma alloc_index:
  assumes "tree_ok V sb x" "b < sb_size sb" "\<not> used V sb b" "valid q" "addr V x q \<noteq> 0"
  shows "alloc sb b V (addr V x q) = V (addr V x q)"
  using tree_okD(2,3) [OF assms(1,4,5)] assms(2,3) by (intro alloc_other) auto

lemma grow_inode:
  assumes t: "tree_ok V sb x" and l: "layout_ok V sb" and k: "k < NDIRECT + 2" "i_addrs x k = 0"
    and b: "b < sb_size sb" "\<not> used V sb b"
  shows "grow sb {A k} V x (alloc sb b V) (x\<lparr>i_addrs := (i_addrs x)(k := b)\<rparr>)" (is "grow _ _ _ _ ?V ?x")
    "addr (alloc sb b V) (x\<lparr>i_addrs := (i_addrs x)(k := b)\<rparr>) (A k) = b"
proof -
  have sz: "b < 2 ^ 32" using l b(1) by (simp add: layout_ok_def)
  have ad: "addr ?V ?x p = (if p = A k then b else addr V x p)" if "valid p" for p
    by (rule addr_set [OF _ _ sz _ _ _ that])
      (use alloc_index [OF t b] k in \<open>auto simp: alloc_def child_not_A child_not_A [symmetric]\<close>)
  show "grow sb {A k} V x ?V ?x"
  proof (rule grow_one [OF t l _ _ b _ ad])
    fix c assume c: "c < sb_size sb" "used V sb c" "c \<notin> bitmap_blocks sb"
    then show "?V c = V c" using b by (intro alloc_other) auto
  qed (use k used_alloc [OF l b] in \<open>auto simp: alloc_def\<close>)
  show "addr ?V ?x (A k) = b" by simp
qed

lemma grow_index:
  assumes t: "tree_ok V sb x" and l: "layout_ok V sb" and q: "valid q" "is_index q" "k < NINDIRECT" "addr V x q \<noteq> 0"
    and e: "addr V x (child q k) = 0" and b: "b < sb_size sb" "\<not> used V sb b"
  defines "V1 \<equiv> (alloc sb b V)(addr V x q := put32 (4 * k) (of_nat b) (alloc sb b V (addr V x q)))"
  shows "grow sb {child q k} V x V1 x" "addr V1 x (child q k) = b"
proof -
  have sz: "b < 2 ^ 32" using l b(1) by (simp add: layout_ok_def)
  note dq = tree_okD [OF t q(1,4)]
  have nb: "addr V x q \<noteq> b" using dq(2) b(2) by auto
  have sl: "get32 (V1 (addr V x r)) (4 * j) = (if child r j = child q k then of_nat b else get32 (V (addr V x r)) (4 * j))"
    if r: "valid r" "is_index r" "j < NINDIRECT" "addr V x r \<noteq> 0" for r j
  proof (cases "r = q")
    case True
    have "4 * j + 4 \<le> 4 * k \<or> 4 * k + 4 \<le> 4 * j" if "j \<noteq> k" using that by auto
    then show ?thesis using True alloc_index [OF t b q(1,4)] child_inject [OF q(2) q(2), of j k]
      by (auto simp: V1_def get32_put32_other)
  next
    case False
    then have "addr V x r \<noteq> addr V x q" using tree_okD(4) [OF t r(1,4) q(1)] by blast
    then show ?thesis using alloc_index [OF t b r(1,4)] child_inject [OF r(2) q(2), of j k] False by (simp add: V1_def)
  qed
  have z: "V1 b = (\<lambda>_. 0)" using nb by (simp add: V1_def alloc_def)
  have ad: "addr V1 x p = (if p = child q k then b else addr V x p)" if "valid p" for p
  proof (rule addr_set [OF _ z sz e sl _ that])
    show "i_addrs x n = (if A n = child q k then b else i_addrs x n)" for n using child_not_A [OF q(2), of k n] by auto
    show "addr V x r \<noteq> 0" if "is_index r" "child q k = child r j" for r j using that q child_inject by metis
  qed
  have bb: "BBLOCK c sb \<noteq> addr V x q" if "c < sb_size sb" for c
  proof -
    have "BBLOCK c sb \<in> bitmap_blocks sb" using that by (simp add: bitmap_blocks_def)
    then show ?thesis using dq(3) by metis
  qed
  show "grow sb {child q k} V x V1 x"
  proof (rule grow_one [OF t l valid_child [OF q(1-3)] e b _ ad _ z])
    show "used V1 sb c \<longleftrightarrow> c = b \<or> used V sb c" if "c < sb_size sb" for c
      using used_alloc [OF l b that] bb [OF that] by (simp add: used_def V1_def)
    fix c assume c: "c < sb_size sb" "used V sb c" "c \<notin> bitmap_blocks sb" "\<And>q. valid q \<Longrightarrow> is_index q \<Longrightarrow> c \<noteq> addr V x q"
    then show "V1 c = V c" using c(4) [OF q(1,2)] b by (auto simp: V1_def intro!: alloc_other)
  qed simp_all
  show "addr V1 x (child q k) = b" using ad [OF valid_child [OF q(1-3)]] by simp
qed

section \<open>Contents\<close>

definition file_byte :: "(nat \<Rightarrow> block) \<Rightarrow> inode \<Rightarrow> nat \<Rightarrow> u8" where
  "file_byte V x off = (let a = addr V x (file_pos (off div BSIZE)) in if a = 0 then 0 else V a (off mod BSIZE))"

lemma grow_file_byte:
  assumes t: "tree_ok V sb x" and g: "grows sb P W V x V' x'" and o: "off < MAXFILE * BSIZE" and w: "file_pos (off div BSIZE) \<notin> W"
  shows "file_byte V' x' off = file_byte V x off"
proof -
  have "off div BSIZE < MAXFILE" using o by (simp add: less_mult_imp_div_less)
  then have p: "valid (file_pos (off div BSIZE))" "\<not> is_index (file_pos (off div BSIZE))" using file_pos_valid by blast+
  let ?p = "file_pos (off div BSIZE)"
  show ?thesis
  proof (cases "addr V x ?p = 0")
    case True
    then show ?thesis using growD(6) [OF g p(1) True _ p(2) w] by (simp add: file_byte_def Let_def)
  next
    case False
    note d = tree_okD [OF t p(1) False]
    have "V' (addr V x ?p) = V (addr V x ?p)" by (rule growD(9) [OF g d(1-3)]) (use d(4) p(2) w in metis)
    then show ?thesis using growD(4) [OF g p(1) False] by (simp add: file_byte_def Let_def)
  qed
qed

text \<open>Writing a data block changes neither the tree nor the bitmap.\<close>

lemma addr_cong: "(\<And>q. valid q \<Longrightarrow> is_index q \<Longrightarrow> addr V x q \<noteq> 0 \<Longrightarrow> V' (addr V x q) = V (addr V x q)) \<Longrightarrow> valid p \<Longrightarrow>
    addr V' x p = addr V x p"
proof (induction p)
  case (I k)
  then show ?case using I.prems(1) [of "A NDIRECT"] by (simp add: ent_def)
next
  case (D j)
  then show ?case using D.prems(1) [of "A (NDIRECT + 1)"] by (simp add: ent_def)
next
  case (E j k)
  then show ?case using E.prems(1) [of "A (NDIRECT + 1)"] E.prems(1) [of "D j"] by (auto simp: ent_def split: if_splits)
qed simp

lemma grow_write:
  assumes t: "tree_ok V sb x" and l: "layout_ok V sb" and p: "valid p" "\<not> is_index p" "addr V x p \<noteq> 0"
  shows "grows sb {p} {p} V x (V(addr V x p := d)) x"
proof -
  let ?V = "V(addr V x p := d)"
  note o = tree_okD [OF t p(1,3)]
  have ad: "addr ?V x q = addr V x q" if "valid q" for q
    by (rule addr_cong [OF _ that]) (use tree_okD(4) [OF t p(1,3)] p(2) in \<open>metis fun_upd_other\<close>)
  have us: "used ?V sb c = used V sb c" if "c < sb_size sb" for c
  proof -
    have "BBLOCK c sb \<noteq> addr V x p" using o(3) that unfolding bitmap_blocks_def by (metis atLeastLessThan_iff image_eqI le0)
    then show ?thesis by (simp add: used_def)
  qed
  have "tree_ok ?V sb x" using t ad us unfolding tree_ok_def by simp
  moreover have "layout_ok ?V sb" using l us o(1) us [of 0] unfolding layout_ok_def by (auto simp del: fun_upd_apply)
  ultimately show ?thesis unfolding grows_def using ad us p(1) by (intro conjI allI impI) auto
qed

end
