(* ===== verification/Fs_Bmap.thy ===== *)
theory Fs_Bmap
  imports Fs_Tree
begin

text \<open>
  The functions of \<open>fs.c\<close> that allocate: \<open>balloc\<close> returns a free block, marked and cleared, and \<open>bmap\<close> the
  address of a block of a file, which grows by the missing blocks on the way.
\<close>

section \<open>Room in the log\<close>

text \<open>\<open>n\<close> more blocks besides those of the bitmap may be written, with three buffers in use at a time.\<close>

definition room_for :: "nat \<Rightarrow> 'z kfs_scheme \<Rightarrow> bool" where
  "room_for n s \<longleftrightarrow> 0 < log_outstanding s \<and> sb_size (fsb s) \<le> disksize s \<and>
     card (lh_set s \<union> bitmap_blocks (fsb s)) + n < min (nat (log_size s - 1)) (NBUF - 2)"

lemma finite_bitmap_blocks [simp]: "finite (bitmap_blocks sb)"
  by (simp add: bitmap_blocks_def)

lemma room_for_lh:
  assumes "tx s H" "room_for n s"
  shows "nat (lh_n s) < NBUF - 2" "lh_n s < int LOGSIZE" "lh_n s < log_size s - 1" "0 < log_outstanding s" "sb_size (fsb s) \<le> disksize s"
proof -
  have "card (lh_set s) \<le> card (lh_set s \<union> bitmap_blocks (fsb s))" by (intro card_mono) auto
  then have "nat (lh_n s) < nat (log_size s - 1)" "nat (lh_n s) < NBUF - 2"
    using card_lh_set [OF assms(1)] assms(2) unfolding room_for_def min_less_iff_conj by linarith+
  then show "nat (lh_n s) < NBUF - 2" "lh_n s < int LOGSIZE" "lh_n s < log_size s - 1" by simp_all
  show "0 < log_outstanding s" "sb_size (fsb s) \<le> disksize s" using assms(2) by (simp_all add: room_for_def)
qed

lemma room_for_less: "room_for n s \<Longrightarrow> m \<le> n \<Longrightarrow> room_for m s"
  by (simp add: room_for_def)

lemma room_for_step:
  assumes "room_for (n + m) s" "tx_same s t" "lh_set t \<subseteq> lh_set s \<union> bitmap_blocks (fsb s) \<union> X" "finite X" "card X \<le> m"
  shows "room_for n t"
proof -
  let ?B = "bitmap_blocks (fsb s)"
  have "card (lh_set t \<union> ?B) \<le> card (lh_set s \<union> ?B \<union> X)" using assms(3,4) by (intro card_mono) auto
  also have "\<dots> \<le> card (lh_set s \<union> ?B) + card X" by (rule card_Un_le)
  finally have "card (lh_set t \<union> ?B) + n \<le> card (lh_set s \<union> ?B) + (n + m)" using assms(5) by simp
  then show ?thesis using assms(1) tx_sameD [OF assms(2)] tx_same_fs [OF assms(2)] by (simp add: room_for_def)
qed

section \<open>One block\<close>

text \<open>Running \<open>m\<close> from \<open>s\<close> returns \<open>r\<close>, with the block store \<open>V\<close> and the blocks \<open>L\<close> in the log afterwards.\<close>

definition runs :: "('z klog_scheme, 'a) K \<Rightarrow> 'z klog_scheme \<Rightarrow> nat set \<Rightarrow> 'a \<Rightarrow> 'z klog_scheme \<Rightarrow> nat set \<Rightarrow> (nat \<Rightarrow> block) \<Rightarrow> nat set \<Rightarrow> bool" where
  "runs m s H r t H' V L \<longleftrightarrow> m s = (Inr r, t) \<and> tx t H' \<and> view t = V \<and> lh_set t = L \<and> tx_same s t \<and> (\<forall>j\<in>H \<inter> H'. blk t j = blk s j)"

lemma runsD:
  assumes "runs m s H r t H' V L"
  shows "m s = (Inr r, t)" "tx t H'" "view t = V" "lh_set t = L" "tx_same s t" "j \<in> H \<Longrightarrow> j \<in> H' \<Longrightarrow> blk t j = blk s j"
  using assms unfolding runs_def by auto

lemma runs_bread:
  assumes "tx s H" "b < disksize s" "\<forall>i\<in>H. blk s i \<noteq> b" "card H + nat (lh_n s) < NBUF"
  shows "\<exists>i t. runs (bread 1 b) s H i t (insert i H) (view s) (lh_set s) \<and> i \<notin> H \<and> blk t i = b"
proof -
  obtain i t where "bread 1 b s = (Inr i, t)" "i \<notin> H" "tx t (insert i H)" "blk t i = b" "\<forall>j\<in>H. blk t j = blk s j"
    "view t = view s" "lh_n t = lh_n s" "lh_block t = lh_block s" "tx_same s t" using tx_bread [OF assms] by blast
  then show ?thesis by (intro exI [of _ i] exI [of _ t]) (auto simp: runs_def lh_set_def)
qed

lemma runs_brelse:
  assumes "tx s H" "i \<in> H"
  shows "\<exists>t. runs (brelse i) s H () t (H - {i}) (view s) (lh_set s)"
proof -
  obtain t where "brelse i s = (Inr (), t)" "tx t (H - {i})" "\<forall>j\<in>H. blk t j = blk s j"
    "view t = view s" "lh_n t = lh_n s" "lh_block t = lh_block s" "tx_same s t" using tx_brelse [OF assms] by blast
  then show ?thesis by (intro exI [of _ t]) (auto simp: runs_def lh_set_def)
qed

lemma runs_update:
  assumes "tx s H" "i \<in> H" "lh_n s < int LOGSIZE" "lh_n s < log_size s - 1" "0 < log_outstanding s"
  shows "\<exists>t. runs (bindK (upd_data i f) (\<lambda>_. log_write i)) s H () t H
    ((view s)(blk s i := f (view s (blk s i)))) (insert (blk s i) (lh_set s))"
proof -
  obtain u t where "upd_data i f s = (Inr (), u)" "log_write i u = (Inr (), t)" "tx t H" "\<forall>j\<in>H. blk t j = blk s j"
    "view t = (view s)(blk s i := f (view s (blk s i)))" "lh_set t = insert (blk s i) (lh_set s)" "tx_same s t"
    using tx_update [OF assms, of f] by blast
  then show ?thesis by (intro exI [of _ t]) (auto simp: runs_def bindK_apply)
qed

lemma runs_bind:
  assumes "runs m s H r t H' V L" "runs (f r) t H' r' u H'' V' L'" "H \<inter> H'' \<subseteq> H'"
  shows "runs (bindK m f) s H r' u H'' V' L'"
proof -
  have "blk u j = blk s j" if "j \<in> H \<inter> H''" for j
    using that assms(3) runsD(6) [OF assms(1), of j] runsD(6) [OF assms(2), of j] by auto
  then show ?thesis
    using runsD(1-5) [OF assms(1)] runsD(1-5) [OF assms(2)] tx_same_trans [OF runsD(5) [OF assms(1)] runsD(5) [OF assms(2)]]
    unfolding runs_def by (simp add: bindK_apply)
qed

lemma bindK_assoc: "bindK (bindK m f) g = bindK m (\<lambda>x. bindK (f x) g)"
  by (auto simp: bindK_def fun_eq_iff split: prod.splits sum.splits)

lemma runs_bzero:
  assumes t: "tx s H" "card H \<le> 2" and b: "b < disksize s" "\<forall>i\<in>H. blk s i \<noteq> b" and r: "room_for n s"
  shows "\<exists>t. runs (bzero 1 b) s H () t H ((view s)(b := (\<lambda>_. 0))) (insert b (lh_set s))"
proof -
  note l = room_for_lh [OF t(1) r]
  have "card H + nat (lh_n s) < NBUF" using t(2) l(1) by simp
  then obtain i u where u: "runs (bread 1 b) s H i u (insert i H) (view s) (lh_set s)" "i \<notin> H" "blk u i = b"
    using runs_bread [OF t(1) b] by blast
  have "lh_n u = lh_n s" using card_lh_set [OF runsD(2) [OF u(1)]] card_lh_set [OF t(1)] runsD(4) [OF u(1)]
    txD(5) [OF runsD(2) [OF u(1)]] txD(5) [OF t(1)] by simp
  then have lu: "lh_n u < int LOGSIZE" "lh_n u < log_size u - 1" "0 < log_outstanding u"
    using l tx_sameD [OF runsD(5) [OF u(1)]] by simp_all
  obtain v where v: "runs (bindK (upd_data i (\<lambda>_ _. 0)) (\<lambda>_. log_write i)) u (insert i H) () v (insert i H)
    ((view s)(b := (\<lambda>_. 0))) (insert b (lh_set s))"
    using runs_update [OF runsD(2) [OF u(1)] insertI1 lu, of "\<lambda>_ _. 0"] u(3) runsD(3,4) [OF u(1)] by auto
  obtain w where "runs (brelse i) v (insert i H) () w H ((view s)(b := (\<lambda>_. 0))) (insert b (lh_set s))"
    using runs_brelse [OF runsD(2) [OF v] insertI1] runsD(3,4) [OF v] u(2) by auto
  then have "runs (bindK (bread 1 b) (\<lambda>bp. bindK (bindK (upd_data bp (\<lambda>_ _. 0)) (\<lambda>_. log_write bp)) (\<lambda>_. brelse bp))) s H () w H
    ((view s)(b := (\<lambda>_. 0))) (insert b (lh_set s))"
    by (intro runs_bind [OF u(1)] runs_bind [OF v]) auto
  then show ?thesis unfolding bzero_def bindK_assoc by blast
qed

section \<open>Allocation\<close>

text \<open>The buffers in use hold blocks that are marked and no bitmap blocks.\<close>

definition apart :: "'z kfs_scheme \<Rightarrow> nat set \<Rightarrow> bool" where
  "apart s H \<longleftrightarrow> card H \<le> 2 \<and> (\<forall>i\<in>H. blk s i \<notin> bitmap_blocks (fsb s) \<and> used (view s) (fsb s) (blk s i))"

lemma runs_lh:
  assumes "tx s H" "runs m s H r t H' V (lh_set s)" "room_for n s"
  shows "room_for n t"
  using room_for_step [of n 0 s t "{}"] runsD [OF assms(2)] assms(3) by simp

lemma BBLOCK_add: "b mod BPB = 0 \<Longrightarrow> bi < BPB \<Longrightarrow> BBLOCK (b + bi) sb = BBLOCK b sb \<and> (b + bi) mod BPB = bi"
proof -
  assume a: "b mod BPB = 0" "bi < BPB"
  obtain q where "b = BPB * q" using a(1) by (metis mod_0_imp_dvd dvdE)
  then show ?thesis using a(2) by (simp add: BBLOCK_def)
qed

lemma runs_balloc_loop:
  assumes "tx s H" "apart s H" "room_for 1 s" "layout_ok (view s) (fsb s)" "\<forall>b\<in>set bs. b mod BPB = 0 \<and> b < sb_size (fsb s)"
    "\<exists>b\<in>set bs. \<exists>bi<min BPB (sb_size (fsb s) - b). \<not> used (view s) (fsb s) (b + bi)"
  shows "\<exists>b t. runs (balloc_loop 1 bs) s H b t H (alloc (fsb s) b (view s)) ({b, BBLOCK b (fsb s)} \<union> lh_set s) \<and>
    b < sb_size (fsb s) \<and> \<not> used (view s) (fsb s) b"
  using assms
proof (induction bs arbitrary: s)
  case (Cons b bs)
  let ?sb = "fsb s" and ?V = "view s" and ?B = "BBLOCK b (fsb s)"
  note l = room_for_lh [OF Cons.prems(1,3)]
  have b: "b mod BPB = 0" "b < sb_size ?sb" using Cons.prems(5) by auto
  have Bm: "?B \<in> bitmap_blocks ?sb" using b(2) by (simp add: bitmap_blocks_def)
  then have Bd: "?B < disksize s" using Cons.prems(4) l(5) unfolding layout_ok_def by fastforce
  have Bn: "\<forall>i\<in>H. blk s i \<noteq> ?B" using Cons.prems(2) Bm unfolding apart_def by metis
  have cd: "card H + nat (lh_n s) < NBUF" using Cons.prems(2) l(1) by (simp add: apart_def)
  obtain i u where u: "runs (bread 1 ?B) s H i u (insert i H) ?V (lh_set s)" "i \<notin> H" "blk u i = ?B"
    using runs_bread [OF Cons.prems(1) Bd Bn cd] by blast
  note du = runsD [OF u(1)]
  have fu: "fsb u = ?sb" using tx_same_fs [OF du(5)] by simp
  have dat: "bdata u i = ?V ?B" using tx_data [OF du(2) insertI1] du(3) u(3) by simp
  have ru: "room_for 1 u" using runs_lh [OF Cons.prems(1) u(1) Cons.prems(3)] .
  note lu = room_for_lh [OF du(2) ru]
  let ?r = "List.find (\<lambda>bi. \<not> bitmap (?V ?B) bi) [0..<min BPB (sb_size ?sb - b)]"
  have us: "used ?V ?sb (b + bi) = bitmap (?V ?B) bi" if "bi < BPB" for bi
    using BBLOCK_add [OF b(1) that, of ?sb] by (simp add: used_def)
  show ?case
  proof (cases ?r)
    case None
    obtain v where v: "runs (brelse i) u (insert i H) () v H ?V (lh_set s)"
      using runs_brelse [OF du(2) insertI1] du(3,4) u(2) by auto
    note dv = runsD [OF v]
    have sv: "tx_same s v" using tx_same_trans [OF du(5) dv(5)] .
    have fv: "fsb v = ?sb" using tx_same_fs [OF sv] by simp
    have bv: "blk v j = blk s j" if "j \<in> H" for j using du(6) [of j] dv(6) [of j] that by simp
    have av: "apart v H" using Cons.prems(2) bv dv(3) fv by (simp add: apart_def)
    have rv: "room_for 1 v" using room_for_step [of 1 0 s v "{}"] Cons.prems(3) sv dv(4) by simp
    have no: "used ?V ?sb (b + bi)" if "bi < min BPB (sb_size ?sb - b)" for bi
      using None that us by (auto simp: find_None_iff)
    then have ex: "\<exists>b\<in>set bs. \<exists>bi<min BPB (sb_size ?sb - b). \<not> used ?V ?sb (b + bi)" using Cons.prems(6) by auto
    obtain c t where ct: "runs (balloc_loop 1 bs) v H c t H (alloc ?sb c ?V) ({c, BBLOCK c ?sb} \<union> lh_set s)"
      "c < sb_size ?sb" "\<not> used ?V ?sb c"
      using Cons.IH [OF dv(2) av rv] Cons.prems(4,5) ex fv dv(3,4) by auto
    have "balloc_loop 1 (b # bs) s = (Inr c, t)"
      using du(1) dv(1) runsD(1) [OF ct(1)] dat None by (simp add: bindK_apply fu)
    then have "runs (balloc_loop 1 (b # bs)) s H c t H (alloc ?sb c ?V) ({c, BBLOCK c ?sb} \<union> lh_set s)"
      using runsD(2-6) [OF ct(1)] bv tx_same_trans [OF sv runsD(5) [OF ct(1)]] unfolding runs_def by auto
    then show ?thesis using ct(2,3) by blast
  next
    case (Some bi)
    then have bi: "bi < min BPB (sb_size ?sb - b)" "\<not> bitmap (?V ?B) bi" by (auto simp: find_Some_iff)
    let ?c = "b + bi"
    have c: "?c < sb_size ?sb" "\<not> used ?V ?sb ?c" "BBLOCK ?c ?sb = ?B" "?c mod BPB = bi"
      using bi us [of bi] b(2) BBLOCK_add [OF b(1), of bi ?sb] by auto
    let ?V1 = "?V(?B := set_bitmap bi (?V ?B))"
    obtain v where v: "runs (bindK (upd_data i (set_bitmap bi)) (\<lambda>_. log_write i)) u (insert i H) () v (insert i H) ?V1 (insert ?B (lh_set s))"
      using runs_update [OF du(2) insertI1 lu(2-4), of "set_bitmap bi"] du(3,4) u(3) by auto
    note dv = runsD [OF v]
    obtain w where w: "runs (brelse i) v (insert i H) () w H ?V1 (insert ?B (lh_set s))"
      using runs_brelse [OF dv(2) insertI1] dv(3,4) u(2) by auto
    note dw = runsD [OF w]
    have sw: "tx_same s w" using tx_same_trans [OF tx_same_trans [OF du(5) dv(5)] dw(5)] .
    have rw: "room_for 1 w" using room_for_step [of 1 0 s w "{}"] Cons.prems(3) sw dw(4) Bm by auto
    have bw: "blk w j = blk s j" if "j \<in> H" for j using du(6) [of j] dv(6) [of j] dw(6) [of j] that by simp
    have "\<forall>j\<in>H. blk w j \<noteq> ?c" using Cons.prems(2) c(2) bw unfolding apart_def by metis
    moreover have "?c < disksize w" using c(1) l(5) tx_sameD(1) [OF sw] by simp
    ultimately obtain t where t: "runs (bzero 1 ?c) w H () t H (?V1(?c := (\<lambda>_. 0))) (insert ?c (insert ?B (lh_set s)))"
      using runs_bzero [OF dw(2) _ _ _ rw, of ?c] Cons.prems(2) dw(3,4) unfolding apart_def by auto
    have "balloc_loop 1 (b # bs) s = (Inr ?c, t)"
      using du(1) dv(1) dw(1) runsD(1) [OF t] dat Some by (auto simp: bindK_apply fu split: sum.splits prod.splits)
    moreover have "?V1(?c := (\<lambda>_. 0)) = alloc ?sb ?c ?V" using c(3,4) by (simp add: alloc_def)
    ultimately have "runs (balloc_loop 1 (b # bs)) s H ?c t H (alloc ?sb ?c ?V) ({?c, BBLOCK ?c ?sb} \<union> lh_set s)"
      using runsD(2-6) [OF t] bw tx_same_trans [OF sw runsD(5) [OF t]] c(3) unfolding runs_def by auto
    then show ?thesis using c(1,2) by blast
  qed
qed simp

lemma runs_balloc:
  assumes "tx s H" "apart s H" "room_for 1 s" "layout_ok (view s) (fsb s)" "\<exists>b. b < sb_size (fsb s) \<and> \<not> used (view s) (fsb s) b"
  shows "\<exists>b t. runs (balloc 1) s H b t H (alloc (fsb s) b (view s)) ({b, BBLOCK b (fsb s)} \<union> lh_set s) \<and>
    b < sb_size (fsb s) \<and> \<not> used (view s) (fsb s) b"
proof -
  let ?n = "sb_size (fsb s)"
  let ?bs = "map (\<lambda>k. k * BPB) [0..<(?n + BPB - 1) div BPB]"
  obtain b where b: "b < ?n" "\<not> used (view s) (fsb s) b" using assms(5) by blast
  have in_bs: "k * BPB < ?n" if "k < (?n + BPB - 1) div BPB" for k
  proof -
    have "k + 1 \<le> (?n + BPB - 1) div BPB" using that by simp
    then have "(k + 1) * BPB \<le> ?n + BPB - 1" by (simp add: less_eq_div_iff_mult_less_eq)
    then show ?thesis by simp
  qed
  have "b div BPB < (?n + BPB - 1) div BPB"
  proof -
    have "(b div BPB + 1) * BPB \<le> ?n + BPB - 1" using b(1) by simp
    then show ?thesis by (simp add: less_eq_div_iff_mult_less_eq Suc_le_eq [symmetric])
  qed
  then have "b div BPB * BPB \<in> set ?bs" by auto
  moreover have "b mod BPB < min BPB (?n - b div BPB * BPB)" 
  proof -
    have "b div BPB * BPB + b mod BPB = b" "b mod BPB < BPB" by simp_all
    then show ?thesis using b(1) unfolding min_less_iff_conj by linarith
  qed
  moreover have "b div BPB * BPB + b mod BPB = b" by simp
  ultimately have ex: "\<exists>b\<in>set ?bs. \<exists>bi<min BPB (?n - b). \<not> used (view s) (fsb s) (b + bi)" using b(2) by metis
  have al: "\<forall>b\<in>set ?bs. b mod BPB = 0 \<and> b < ?n" using in_bs by auto
  show ?thesis using runs_balloc_loop [OF assms(1-4) al ex] by (simp add: runs_def balloc_def bindK_apply)
qed

section \<open>Steps of a growing file\<close>

text \<open>The cache does not look at inodes.\<close>

lemma tx_inodes [simp]:
  "tx (s\<lparr>inodes := x\<rparr>) H = tx s H" "view (s\<lparr>inodes := x\<rparr>) = view s" "lh_set (s\<lparr>inodes := x\<rparr>) = lh_set s"
  "room_for n (s\<lparr>inodes := x\<rparr>) = room_for n s"
proof -
  have c: "cached (s\<lparr>inodes := x\<rparr>) = cached s" by (simp add: cached_def fun_eq_iff)
  have h: "held (s\<lparr>inodes := x\<rparr>) = held s" by (simp add: held_def fun_eq_iff)
  have b: "buf_ok (s\<lparr>inodes := x\<rparr>) = buf_ok s" by (simp add: buf_ok_def h fun_eq_iff)
  have "nextp (s\<lparr>inodes := x\<rparr>) = nextp s" "prevp (s\<lparr>inodes := x\<rparr>) = prevp s"
    by (auto simp: nextp_def prevp_def fun_eq_iff split: option.split)
  then have l: "lru (s\<lparr>inodes := x\<rparr>) xs = lru s xs" for xs by (simp add: lru_def)
  have m: "calm (s\<lparr>inodes := x\<rparr>) = calm s" by (simp add: calm_def lockable_def cpu_ok_def)
  have k: "cache_ok (s\<lparr>inodes := x\<rparr>) = cache_ok s" unfolding cache_ok_def c b l m by (rule refl)
  have d: "dirty_block (s\<lparr>inodes := x\<rparr>) = dirty_block s" by (simp add: dirty_block_def c fun_eq_iff)
  show lh: "lh_set (s\<lparr>inodes := x\<rparr>) = lh_set s" by (simp add: lh_set_def)
  show "tx (s\<lparr>inodes := x\<rparr>) H = tx s H" by (simp add: tx_def k h d lh)
  show "view (s\<lparr>inodes := x\<rparr>) = view s" by (auto simp: view_def fun_eq_iff simp del: NBUF_def split: option.split)
  show "room_for n (s\<lparr>inodes := x\<rparr>) = room_for n s" by (simp add: room_for_def lh)
qed

lemma tx_same_inodes: "tx_same s t \<Longrightarrow> tx_same (s\<lparr>inodes := x\<rparr>) (t\<lparr>inodes := x\<rparr>)"
proof -
  assume a: "tx_same s t"
  let ?t = "t\<lparr>lh_n := lh_n s, lh_block := lh_block s\<rparr>"
  have r: "same_rest s ?t" using a by (simp add: tx_same_def)
  have t: "?t = s\<lparr>sleeplks := sleeplks ?t, kptable := kptable ?t, disk := disk ?t, disk_past := disk_past ?t,
           bufs := bufs ?t, head_prev := head_prev ?t, head_next := head_next ?t\<rparr>" using r unfolding same_rest_def by blast
  have "?t\<lparr>inodes := x\<rparr> = s\<lparr>inodes := x, sleeplks := sleeplks ?t, kptable := kptable ?t, disk := disk ?t, disk_past := disk_past ?t,
           bufs := bufs ?t, head_prev := head_prev ?t, head_next := head_next ?t\<rparr>" by (subst t) simp
  then have "same_rest (s\<lparr>inodes := x\<rparr>) (?t\<lparr>inodes := x\<rparr>)" using r unfolding same_rest_def by simp
  moreover have "?t\<lparr>inodes := x\<rparr> = t\<lparr>inodes := x, lh_n := lh_n s, lh_block := lh_block s\<rparr>" by (cases t) simp
  ultimately show ?thesis using a by (simp add: tx_same_def)
qed

lemma tx_same_keep: "tx_same s t \<Longrightarrow> tx_same s (t\<lparr>inodes := inodes s\<rparr>)"
  using tx_same_inodes [of s t "inodes s"] by simp

text \<open>The blocks of a file that exist at the positions \<open>P\<close>.\<close>

definition at :: "'z kfs_scheme \<Rightarrow> nat \<Rightarrow> pos \<Rightarrow> nat" where
  "at s ip p = addr (view s) (inodes s ip) p"

definition blocks_at :: "'z kfs_scheme \<Rightarrow> nat \<Rightarrow> pos set \<Rightarrow> nat set" where
  "blocks_at s ip P = {at s ip p |p. p \<in> P \<and> valid p \<and> at s ip p \<noteq> 0}"

lemma blocks_atI: "p \<in> P \<Longrightarrow> valid p \<Longrightarrow> at s ip p \<noteq> 0 \<Longrightarrow> at s ip p \<in> blocks_at s ip P"
  by (auto simp: blocks_at_def)

definition fs_steps :: "'z kfs_scheme \<Rightarrow> nat \<Rightarrow> pos set \<Rightarrow> pos set \<Rightarrow> 'z kfs_scheme \<Rightarrow> bool" where
  "fs_steps s ip P W t \<longleftrightarrow> grows (fsb s) P W (view s) (inodes s ip) (view t) (inodes t ip) \<and> (\<forall>j. j \<noteq> ip \<longrightarrow> inodes t j = inodes s j) \<and>
     lh_set t \<subseteq> lh_set s \<union> bitmap_blocks (fsb s) \<union> blocks_at t ip P \<and> tx_same s (t\<lparr>inodes := inodes s\<rparr>)"

abbreviation fs_step :: "'z kfs_scheme \<Rightarrow> nat \<Rightarrow> pos set \<Rightarrow> 'z kfs_scheme \<Rightarrow> bool" where
  "fs_step s ip P \<equiv> fs_steps s ip P {}"

lemma fs_stepD:
  assumes "fs_steps s ip P W t"
  shows "grows (fsb s) P W (view s) (inodes s ip) (view t) (inodes t ip)" "j \<noteq> ip \<Longrightarrow> inodes t j = inodes s j"
    "lh_set t \<subseteq> lh_set s \<union> bitmap_blocks (fsb s) \<union> blocks_at t ip P" "tx_same s (t\<lparr>inodes := inodes s\<rparr>)" "fsb t = fsb s"
    "disksize t = disksize s" "valid p \<Longrightarrow> at s ip p \<noteq> 0 \<Longrightarrow> at t ip p = at s ip p"
proof -
  show g: "grows (fsb s) P W (view s) (inodes s ip) (view t) (inodes t ip)" and "lh_set t \<subseteq> lh_set s \<union> bitmap_blocks (fsb s) \<union> blocks_at t ip P"
    and x: "tx_same s (t\<lparr>inodes := inodes s\<rparr>)"
    using assms by (simp_all add: fs_steps_def)
  show "inodes t j = inodes s j" if "j \<noteq> ip" using assms that by (simp add: fs_steps_def)
  show "fsb t = fsb s" using tx_same_fs [OF x] by simp
  show "disksize t = disksize s" using tx_sameD [OF x] by simp
  show "at t ip p = at s ip p" if "valid p" "at s ip p \<noteq> 0" using growD(4) [OF g that(1)] that(2) by (simp add: at_def)
qed

lemma fs_step_trans:
  assumes l: "layout_ok (view s) (fsb s)" and a: "fs_steps s ip P W t" and b: "fs_steps t ip Q X u"
  shows "fs_steps s ip (P \<union> Q) (W \<union> X) u"
proof -
  note da = fs_stepD [OF a] and db = fs_stepD [OF b]
  have "blocks_at t ip P \<subseteq> blocks_at u ip (P \<union> Q)"
  proof
    fix c assume "c \<in> blocks_at t ip P"
    then obtain p where p: "c = at t ip p" "p \<in> P" "valid p" "at t ip p \<noteq> 0" by (auto simp: blocks_at_def)
    then have "c = at u ip p" "at u ip p \<noteq> 0" using db(7) by simp_all
    then show "c \<in> blocks_at u ip (P \<union> Q)" using p unfolding blocks_at_def by blast
  qed
  moreover have "blocks_at u ip Q \<subseteq> blocks_at u ip (P \<union> Q)" by (auto simp: blocks_at_def)
  ultimately have "lh_set u \<subseteq> lh_set s \<union> bitmap_blocks (fsb s) \<union> blocks_at u ip (P \<union> Q)" using da(3) db(3) da(5) by auto
  moreover have "tx_same s (u\<lparr>inodes := inodes s\<rparr>)"
    using tx_same_trans [OF da(4)] tx_same_inodes [OF db(4), of "inodes s"] by simp
  moreover have "grows (fsb s) (P \<union> Q) (W \<union> X) (view s) (inodes s ip) (view u) (inodes u ip)"
    using grow_trans [OF l da(1)] db(1) da(5) by simp
  ultimately show ?thesis using da(2) db(2) unfolding fs_steps_def by simp
qed

lemma finite_blocks_at: "finite P \<Longrightarrow> finite (blocks_at s ip P) \<and> card (blocks_at s ip P) \<le> card P"
proof -
  assume f: "finite P"
  have "blocks_at s ip P \<subseteq> at s ip ` P" by (auto simp: blocks_at_def)
  then show ?thesis using f by (meson card_image_le card_mono finite_imageI finite_subset order_trans)
qed

text \<open>
  There is room to write the positions \<open>P\<close> and \<open>e\<close> more blocks: every block of the bitmap or of \<open>P\<close> that is not in
  the log yet, and those that do not exist yet, can be logged, and enough blocks are free.
\<close>

definition missing :: "'z kfs_scheme \<Rightarrow> nat \<Rightarrow> pos set \<Rightarrow> pos set" where
  "missing s ip P = {p \<in> P. at s ip p = 0}"

definition spare :: "nat \<Rightarrow> nat \<Rightarrow> pos set \<Rightarrow> 'z kfs_scheme \<Rightarrow> bool" where
  "spare e ip P s \<longleftrightarrow> finite P \<and> (\<forall>p\<in>P. valid p) \<and> 0 < log_outstanding s \<and> sb_size (fsb s) \<le> disksize s \<and>
     card (lh_set s \<union> bitmap_blocks (fsb s) \<union> blocks_at s ip P) + card (missing s ip P) + e < min (nat (log_size s - 1)) (NBUF - 2) \<and>
     card (missing s ip P) \<le> card {b. b < sb_size (fsb s) \<and> \<not> used (view s) (fsb s) b}"

lemma spareD:
  assumes "spare e ip P s"
  shows "finite P" "p \<in> P \<Longrightarrow> valid p" "0 < log_outstanding s" "sb_size (fsb s) \<le> disksize s"
    "card (lh_set s \<union> bitmap_blocks (fsb s) \<union> blocks_at s ip P) + card (missing s ip P) + e < min (nat (log_size s - 1)) (NBUF - 2)"
    "card (missing s ip P) \<le> card {b. b < sb_size (fsb s) \<and> \<not> used (view s) (fsb s) b}"
  using assms unfolding spare_def by blast+

lemma spare_room:
  assumes "spare e ip P s"
  shows "room_for (card (missing s ip P) + e) s"
proof -
  have "finite (blocks_at s ip P)" using finite_blocks_at assms by (auto simp: spare_def)
  then have "card (lh_set s \<union> bitmap_blocks (fsb s)) \<le> card (lh_set s \<union> bitmap_blocks (fsb s) \<union> blocks_at s ip P)"
    by (intro card_mono) auto
  then show ?thesis using assms by (simp add: spare_def room_for_def)
qed

lemma spare_missing:
  assumes "spare e ip P s" "p \<in> P" "at s ip p = 0"
  shows "room_for 1 s" "\<exists>b. b < sb_size (fsb s) \<and> \<not> used (view s) (fsb s) b"
proof -
  have "p \<in> missing s ip P" "finite (missing s ip P)" using assms by (auto simp: missing_def spare_def)
  then have c: "0 < card (missing s ip P)" by (metis card_gt_0_iff empty_iff)
  then show "room_for 1 s" using room_for_less [OF spare_room [OF assms(1)]] by simp
  have "0 < card {b. b < sb_size (fsb s) \<and> \<not> used (view s) (fsb s) b}" using c assms(1) unfolding spare_def by linarith
  then have "{b. b < sb_size (fsb s) \<and> \<not> used (view s) (fsb s) b} \<noteq> {}" unfolding card_gt_0_iff by (rule conjunct1)
  then show "\<exists>b. b < sb_size (fsb s) \<and> \<not> used (view s) (fsb s) b" by blast
qed

lemma spare_step:
  assumes sp: "spare e ip P s" and st: "fs_steps s ip Q W t" and q: "Q \<subseteq> P" and l: "layout_ok (view s) (fsb s)"
  shows "spare e ip P t"
proof -
  note d = fs_stepD [OF st] and e = spareD [OF sp]
  let ?B = "bitmap_blocks (fsb s)" and ?N = "missing s ip P - missing t ip P"
  note fin = e(1,2)
  have u0: "used (view s) (fsb s) 0" using l by (simp add: layout_ok_def)
  have keep: "missing t ip P \<subseteq> missing s ip P" using d(7) fin(2) by (force simp: missing_def)
  have f: "finite (missing s ip P)" "finite (blocks_at s ip P)" using fin finite_blocks_at by (auto simp: missing_def)
  have cN: "card ?N + card (missing t ip P) = card (missing s ip P)"
    using card_Diff_subset [OF finite_subset [OF keep f(1)] keep] card_mono [OF f(1) keep] by simp
  have bl: "blocks_at t ip P \<subseteq> blocks_at s ip P \<union> at t ip ` ?N"
  proof
    fix c assume "c \<in> blocks_at t ip P"
    then obtain p where p: "c = at t ip p" "p \<in> P" "valid p" "at t ip p \<noteq> 0" by (auto simp: blocks_at_def)
    then show "c \<in> blocks_at s ip P \<union> at t ip ` ?N"
      using d(7) [OF p(3)] blocks_atI [OF p(2,3), of s ip] by (cases "at s ip p = 0") (auto simp: missing_def)
  qed
  have "blocks_at t ip Q \<subseteq> blocks_at t ip P" using q by (auto simp: blocks_at_def)
  then have "lh_set t \<union> ?B \<union> blocks_at t ip P \<subseteq> (lh_set s \<union> ?B \<union> blocks_at s ip P) \<union> at t ip ` ?N" using d(3) bl by blast
  then have "card (lh_set t \<union> ?B \<union> blocks_at t ip P) \<le> card ((lh_set s \<union> ?B \<union> blocks_at s ip P) \<union> at t ip ` ?N)"
    using f by (intro card_mono) auto
  also have "\<dots> \<le> card (lh_set s \<union> ?B \<union> blocks_at s ip P) + card ?N"
    using card_Un_le [of "lh_set s \<union> ?B \<union> blocks_at s ip P" "at t ip ` ?N"] card_image_le [of ?N "at t ip"] f(1) by simp
  finally have room: "card (lh_set t \<union> ?B \<union> blocks_at t ip P) + card (missing t ip P) + e
      \<le> card (lh_set s \<union> ?B \<union> blocks_at s ip P) + card (missing s ip P) + e" using cN by simp
  have "{b. b < sb_size (fsb s) \<and> \<not> used (view s) (fsb s) b} \<subseteq> {b. b < sb_size (fsb t) \<and> \<not> used (view t) (fsb t) b} \<union> at t ip ` ?N"
  proof
    fix b assume b: "b \<in> {b. b < sb_size (fsb s) \<and> \<not> used (view s) (fsb s) b}"
    show "b \<in> {b. b < sb_size (fsb t) \<and> \<not> used (view t) (fsb t) b} \<union> at t ip ` ?N"
    proof (cases "used (view t) (fsb s) b")
      case True
      then obtain p where p: "p \<in> Q" "valid p" "at s ip p = 0" "b = at t ip p" using growD(7) [OF d(1), of b] b by (auto simp: at_def)
      moreover have "b \<noteq> 0" using b u0 by (cases "b = 0") simp_all
      ultimately show ?thesis using q by (auto simp: missing_def)
    qed (use b d(5) in simp)
  qed
  then have "card {b. b < sb_size (fsb s) \<and> \<not> used (view s) (fsb s) b} \<le>
      card ({b. b < sb_size (fsb t) \<and> \<not> used (view t) (fsb t) b} \<union> at t ip ` ?N)" using f(1) by (intro card_mono) auto
  also have "\<dots> \<le> card {b. b < sb_size (fsb t) \<and> \<not> used (view t) (fsb t) b} + card ?N"
    using card_Un_le [of "{b. b < sb_size (fsb t) \<and> \<not> used (view t) (fsb t) b}" "at t ip ` ?N"] card_image_le [of ?N "at t ip"] f(1) by simp
  finally have "card (missing t ip P) \<le> card {b. b < sb_size (fsb t) \<and> \<not> used (view t) (fsb t) b}" using cN e(6) by linarith
  moreover have "log_outstanding t = log_outstanding s" "log_size t = log_size s" using tx_sameD [OF d(4)] by simp_all
  ultimately show ?thesis using le_less_trans [OF room e(5)] e(1-4) d(5,6) unfolding spare_def by simp
qed

text \<open>A file inside a transaction; the buffers in use hold indirect blocks of it.\<close>

definition file_inv :: "'z kfs_scheme \<Rightarrow> nat set \<Rightarrow> nat \<Rightarrow> bool" where
  "file_inv s H ip \<longleftrightarrow> tx s H \<and> card H \<le> 2 \<and> i_dev (inodes s ip) = 1 \<and> layout_ok (view s) (fsb s) \<and>
     tree_ok (view s) (fsb s) (inodes s ip) \<and> (\<forall>i\<in>H. \<exists>q. valid q \<and> is_index q \<and> at s ip q \<noteq> 0 \<and> blk s i = at s ip q)"

lemma file_invD:
  assumes "file_inv s H ip"
  shows "tx s H" "card H \<le> 2" "i_dev (inodes s ip) = 1" "layout_ok (view s) (fsb s)" "tree_ok (view s) (fsb s) (inodes s ip)" "apart s H"
  using assms tree_okD [of "view s" "fsb s" "inodes s ip"] unfolding file_inv_def apart_def at_def by (blast, blast, blast, blast, blast, metis)

lemma file_inv_step:
  assumes "file_inv s H ip" "fs_steps s ip P W t" "tx t H" "\<forall>j\<in>H. blk t j = blk s j"
  shows "file_inv t H ip"
proof -
  note d = fs_stepD [OF assms(2)]
  have "i_dev (inodes t ip) = i_dev (inodes s ip)" using growD(1) [OF d(1)] by (metis inode.select_convs(1) inode.surjective inode.update_convs(10))
  moreover have "\<exists>q. valid q \<and> is_index q \<and> at t ip q \<noteq> 0 \<and> blk t i = at t ip q" if "i \<in> H" for i
    using assms(1,4) d(7) that unfolding file_inv_def by metis
  ultimately show ?thesis using assms(1,3) growD(2,3) [OF d(1)] d(5) unfolding file_inv_def by simp
qed

lemma fs_step_refl: "file_inv s H ip \<Longrightarrow> fs_steps s ip P W s"
  using grow_refl [OF file_invD(5,4)] by (auto simp: fs_steps_def)

lemma fs_step_mono: "fs_steps s ip P W t \<Longrightarrow> P \<subseteq> Q \<Longrightarrow> W \<subseteq> X \<Longrightarrow> fs_steps s ip Q X t"
proof -
  assume a: "fs_steps s ip P W t" "P \<subseteq> Q" "W \<subseteq> X"
  have "blocks_at t ip P \<subseteq> blocks_at t ip Q" using a(2) by (auto simp: blocks_at_def)
  then show ?thesis using a grow_mono [OF fs_stepD(1) [OF a(1)] a(2,3)] unfolding fs_steps_def by blast
qed

lemma fs_steps_trans':
  "file_inv s H ip \<Longrightarrow> fs_steps s ip P W t \<Longrightarrow> fs_steps t ip Q X u \<Longrightarrow> P \<union> Q \<subseteq> R \<Longrightarrow> W \<union> X \<subseteq> Y \<Longrightarrow> fs_steps s ip R Y u"
  using fs_step_mono [OF fs_step_trans [OF file_invD(4)]] by blast

lemma fs_step_trans':
  "file_inv s H ip \<Longrightarrow> fs_step s ip P t \<Longrightarrow> fs_step t ip Q u \<Longrightarrow> P \<union> Q \<subseteq> R \<Longrightarrow> fs_step s ip R u"
  using fs_steps_trans' [of s H ip P "{}" t Q "{}" u R "{}"] by simp

lemma file_inv_runs:
  assumes "file_inv s H ip" "runs m s H r t H' (view s) (lh_set s)" "card H' \<le> 2"
    "\<forall>i\<in>H' - H. \<exists>q. valid q \<and> is_index q \<and> at s ip q \<noteq> 0 \<and> blk t i = at s ip q"
  shows "file_inv t H' ip \<and> fs_step s ip {} t"
proof -
  note d = runsD [OF assms(2)] and f = tx_same_fs [OF runsD(5) [OF assms(2)]] and i = file_invD [OF assms(1)]
  have at: "at t ip = at s ip" by (rule ext) (simp add: at_def d(3) f)
  have "\<exists>q. valid q \<and> is_index q \<and> at t ip q \<noteq> 0 \<and> blk t j = at t ip q" if "j \<in> H'" for j
    using assms(1,4) d(6) [of j] that unfolding at file_inv_def by (cases "j \<in> H") auto
  then have "file_inv t H' ip" using d(2,3) f i assms(3) unfolding file_inv_def by simp
  moreover have "fs_step s ip {} t" using d(3,4) f grow_refl [OF i(5,4)] tx_same_keep [OF d(5)] by (auto simp: fs_steps_def)
  ultimately show ?thesis by blast
qed

section \<open>The slots of the inode and of indirect blocks\<close>

lemma bmap_inode_ok:
  assumes f: "file_inv s H ip" and sp: "spare e ip P s" "A k \<in> P" and k: "k < NDIRECT + 2"
  shows "\<exists>a t. bmap_inode ip k s = (Inr a, t) \<and> fs_step s ip {A k} t \<and> file_inv t H ip \<and> at t ip (A k) = a \<and> a \<noteq> 0 \<and>
    (\<forall>j\<in>H. blk t j = blk s j)"
proof (cases "i_addrs (inodes s ip) k = 0")
  case False
  then show ?thesis using f fs_step_refl [OF f] by (intro exI [of _ "i_addrs (inodes s ip) k"] exI [of _ s]) (simp add: bmap_inode_def at_def)
next
  case True
  note d = file_invD [OF f]
  let ?x = "inodes s ip" and ?V = "view s" and ?sb = "fsb s"
  have "at s ip (A k) = 0" using True by (simp add: at_def)
  note n = spare_missing [OF sp this]
  obtain b u where u: "runs (balloc 1) s H b u H (alloc ?sb b ?V) ({b, BBLOCK b ?sb} \<union> lh_set s)" "b < sb_size ?sb" "\<not> used ?V ?sb b"
    using runs_balloc [OF d(1,6) n(1) d(4) n(2)] by auto
  note du = runsD [OF u(1)] and fu = tx_same_fs [OF runsD(5) [OF u(1)]]
  let ?y = "?x\<lparr>i_addrs := (i_addrs ?x)(k := b)\<rparr>"
  let ?t = "u\<lparr>inodes := (inodes u)(ip := ?y)\<rparr>"
  have g: "grow ?sb {A k} ?V ?x (alloc ?sb b ?V) ?y" by (rule grow_inode(1) [OF d(5,4) k True u(2,3)])
  have b0: "b \<noteq> 0" using d(4) u(3) unfolding layout_ok_def by metis
  have Bm: "BBLOCK b ?sb \<in> bitmap_blocks ?sb" using u(2) by (simp add: bitmap_blocks_def)
  have "b \<in> blocks_at ?t ip {A k}" using k b0 by (auto simp: blocks_at_def at_def)
  then have "lh_set ?t \<subseteq> lh_set s \<union> bitmap_blocks ?sb \<union> blocks_at ?t ip {A k}" using du(4) Bm by auto
  then have st: "fs_step s ip {A k} ?t" using g du(3) fu tx_same_keep [OF du(5)] unfolding fs_steps_def by simp
  moreover have "file_inv ?t H ip" by (rule file_inv_step [OF f st]) (use du(2,6) in simp_all)
  moreover have "bmap_inode ip k s = (Inr b, ?t)"
    using True d(3) du(1) fu(2) by (simp add: bmap_inode_def bindK_apply upd_inode_def)
  ultimately show ?thesis using b0 du(6) by (intro exI [of _ b] exI [of _ ?t]) (simp add: at_def)
qed

lemma bmap_indirect_ok:
  assumes f: "file_inv s H ip" and sp: "spare e ip P s" "child q k \<in> P" and bp: "bp \<in> H" "blk s bp = at s ip q"
    and q: "valid q" "is_index q" "at s ip q \<noteq> 0" "k < NINDIRECT"
  shows "\<exists>a t. bmap_indirect 1 bp k s = (Inr a, t) \<and> fs_step s ip {q, child q k} t \<and> file_inv t H ip \<and> at t ip (child q k) = a \<and> a \<noteq> 0 \<and>
    (\<forall>j\<in>H. blk t j = blk s j)"
proof -
  note d = file_invD [OF f]
  let ?x = "inodes s ip" and ?V = "view s" and ?sb = "fsb s" and ?a = "at s ip q"
  have dat: "bdata s bp = ?V ?a" using tx_data [OF d(1) bp(1)] bp(2) by simp
  have ch: "at s ip (child q k) = unat (get32 (?V ?a) (4 * k))" using addr_child [OF q(2), of ?V ?x k] q(3) by (simp add: at_def ent_def)
  show ?thesis
  proof (cases "at s ip (child q k) = 0")
    case False
    then show ?thesis using f fs_step_refl [OF f] ch dat
      by (intro exI [of _ "at s ip (child q k)"] exI [of _ s]) (simp add: bmap_indirect_def)
  next
    case True
    note n = spare_missing [OF sp True]
    obtain b u where u: "runs (balloc 1) s H b u H (alloc ?sb b ?V) ({b, BBLOCK b ?sb} \<union> lh_set s)" "b < sb_size ?sb" "\<not> used ?V ?sb b"
      using runs_balloc [OF d(1,6) n(1) d(4) n(2)] by auto
    note du = runsD [OF u(1)] and fu = tx_same_fs [OF runsD(5) [OF u(1)]]
    have Bm: "BBLOCK b ?sb \<in> bitmap_blocks ?sb" using u(2) by (simp add: bitmap_blocks_def)
    have "room_for 0 u"
      by (rule room_for_step [OF _ du(5), of 0 1 "{b}"]) (use n(1) du(4) Bm in auto)
    note lu = room_for_lh [OF du(2) this]
    let ?W = "(alloc ?sb b ?V)(?a := put32 (4 * k) (of_nat b) (alloc ?sb b ?V ?a))"
    obtain t where t: "runs (bindK (upd_data bp (put32 (4 * k) (of_nat b))) (\<lambda>_. log_write bp)) u H () t H ?W (insert ?a (lh_set u))"
      using runs_update [OF du(2) bp(1) lu(2-4), of "put32 (4 * k) (of_nat b)"] du(3) du(6) [OF bp(1) bp(1)] bp(2) by auto
    note dt = runsD [OF t] and ft = tx_same_fs [OF runsD(5) [OF t]]
    have g: "grow ?sb {child q k} ?V ?x ?W ?x" "addr ?W ?x (child q k) = b"
      using grow_index [OF d(5,4) q(1,2,4) _ _ u(2,3)] q(3) True by (auto simp: at_def)
    have b0: "b \<noteq> 0" using d(4) u(3) unfolding layout_ok_def by metis
    have at: "at t ip (child q k) = b" using g(2) dt(3) ft fu by (simp add: at_def)
    have "at t ip q = ?a" using growD(4) [OF g(1) q(1)] q(3) dt(3) ft fu by (simp add: at_def)
    then have "{?a, b} \<subseteq> blocks_at t ip {q, child q k}"
      using q(1,3) at b0 valid_child [OF q(1,2,4)] blocks_atI [of q "{q, child q k}" t ip] blocks_atI [of "child q k" "{q, child q k}" t ip] by simp
    then have "lh_set t \<subseteq> lh_set s \<union> bitmap_blocks ?sb \<union> blocks_at t ip {q, child q k}" using dt(4) du(4) Bm by auto
    then have st: "fs_step s ip {q, child q k} t"
      using grow_mono [OF g(1), of "{q, child q k}" "{}"] dt(3) tx_same_keep [OF tx_same_trans [OF du(5) dt(5)]] fu ft unfolding fs_steps_def by simp
    moreover have bk: "\<forall>j\<in>H. blk t j = blk s j" using du(6) dt(6) by simp
    moreover have "file_inv t H ip" by (rule file_inv_step [OF f st dt(2) bk])
    moreover have "bindK (upd_data bp (put32 (4 * k) (of_nat b))) (\<lambda>_. bindK (log_write bp) (\<lambda>_. retK b)) u = (Inr b, t)"
      unfolding bindK_assoc [symmetric] by (subst bindK_apply, subst dt(1)) simp
    then have "bmap_indirect 1 bp k s = (Inr b, t)"
      using True ch dat du(1) unfolding bmap_indirect_def by (simp add: bindK_apply)
    ultimately show ?thesis using b0 at by blast
  qed
qed

section \<open>The block map\<close>

text \<open>The positions \<open>bmap\<close> visits.\<close>

definition visit :: "nat \<Rightarrow> pos set" where
  "visit bn = (case file_pos bn of A k \<Rightarrow> {A k} | I k \<Rightarrow> {A NDIRECT, I k} | D j \<Rightarrow> {} | E j k \<Rightarrow> {A (NDIRECT + 1), D j, E j k})"

lemma finite_visit [simp]: "finite (visit bn)" and card_visit: "card (visit bn) \<le> 3"
  by (auto simp: visit_def card_insert_if split: pos.split)

text \<open>Reading an indirect block and looking at one of its slots.\<close>

lemma bread_index:
  assumes f: "file_inv s H ip" and H: "card H \<le> 1" and r: "room_for n s" and q: "valid q" "is_index q" "at s ip q \<noteq> 0"
    and n: "\<forall>i\<in>H. blk s i \<noteq> at s ip q"
  shows "\<exists>i t. bread 1 (at s ip q) s = (Inr i, t) \<and> i \<notin> H \<and> file_inv t (insert i H) ip \<and> fs_step s ip {} t \<and> blk t i = at s ip q \<and>
    (\<forall>j\<in>H. blk t j = blk s j) \<and> at t ip = at s ip"
proof -
  note d = file_invD [OF f] and l = room_for_lh [OF file_invD(1) [OF f] r]
  have "at s ip q < disksize s" using tree_okD(1) [OF d(5) q(1)] q(3) l(5) by (simp add: at_def)
  moreover have "card H + nat (lh_n s) < NBUF" using H l(1) by simp
  ultimately obtain i t where t: "runs (bread 1 (at s ip q)) s H i t (insert i H) (view s) (lh_set s)" "i \<notin> H" "blk t i = at s ip q"
    using runs_bread [OF d(1)] n by blast
  have "card (insert i H) \<le> 2" using H t(2) tx_finite [OF d(1)] by simp
  then have "file_inv t (insert i H) ip \<and> fs_step s ip {} t"
    by (intro file_inv_runs [OF f t(1)]) (use q t(3) in auto)
  moreover have "at t ip = at s ip" using runsD(3) [OF t(1)] tx_same_fs [OF runsD(5) [OF t(1)]] by (intro ext) (simp add: at_def)
  ultimately show ?thesis using t runsD(1,6) [OF t(1)] by blast
qed

lemma brelse_index:
  assumes f: "file_inv s H ip" and i: "i \<in> H"
  shows "\<exists>t. brelse i s = (Inr (), t) \<and> file_inv t (H - {i}) ip \<and> fs_step s ip {} t \<and> at t ip = at s ip \<and>
    (\<forall>j\<in>H - {i}. blk t j = blk s j)"
proof -
  note d = file_invD [OF f]
  obtain t where t: "runs (brelse i) s H () t (H - {i}) (view s) (lh_set s)" using runs_brelse [OF d(1) i] by blast
  have "card (H - {i}) \<le> 2" using d(2) by (meson card_Diff1_le le_trans)
  then have "file_inv t (H - {i}) ip \<and> fs_step s ip {} t" by (intro file_inv_runs [OF f t]) auto
  moreover have "at t ip = at s ip" using runsD(3) [OF t] tx_same_fs [OF runsD(5) [OF t]] by (intro ext) (simp add: at_def)
  ultimately show ?thesis using runsD(1,6) [OF t] by blast
qed

lemma bmap_ok:
  assumes f: "file_inv s {} ip" and bn: "bn < MAXFILE" and sp: "spare e ip P s" "visit bn \<subseteq> P"
  shows "\<exists>a t. bmap ip bn s = (Inr a, t) \<and> fs_step s ip (visit bn) t \<and> file_inv t {} ip \<and> at t ip (file_pos bn) = a \<and> a \<noteq> 0"
proof -
  note d = file_invD [OF f]
  have spr: "spare e ip P t" if "fs_step s ip Q t" "Q \<subseteq> visit bn" for Q t
    by (rule spare_step [OF sp(1) that(1) _ d(4)]) (use that(2) sp(2) in blast)
  consider (dir) "bn < NDIRECT" | (ind) k where "bn - NDIRECT = k" "k < NINDIRECT" "\<not> bn < NDIRECT"
    | (dbl) j k where "(bn - NDIRECT - NINDIRECT) div NINDIRECT = j" "(bn - NDIRECT - NINDIRECT) mod NINDIRECT = k" "j < NINDIRECT" "k < NINDIRECT"
      "\<not> bn < NDIRECT" "\<not> bn - NDIRECT < NINDIRECT" "bn - NDIRECT - NINDIRECT < NDBINDIRECT"
    using bn by (force simp: less_mult_imp_div_less)
  then show ?thesis
  proof cases
    case dir
    then have p: "file_pos bn = A bn" "visit bn = {A bn}" by (simp_all add: file_pos_def visit_def)
    then show ?thesis using bmap_inode_ok [OF f sp(1), of bn] sp(2) dir by (auto simp: bmap_def bindK_apply)
  next
    case ind
    let ?q = "A NDIRECT"
    have p: "file_pos bn = I k" "visit bn = {?q, I k}" using ind by (simp_all add: file_pos_def visit_def)
    obtain a t where t: "bmap_inode ip NDIRECT s = (Inr a, t)" "fs_step s ip {?q} t" "file_inv t {} ip" "at t ip ?q = a" "a \<noteq> 0"
      using bmap_inode_ok [OF f sp(1), of NDIRECT] sp(2) p(2) by auto
    have nt: "spare e ip P t" by (rule spr [OF t(2)]) (auto simp: p)
    obtain i u where u: "bread 1 a t = (Inr i, u)" "file_inv u {i} ip" "fs_step t ip {} u" "blk u i = a" "at u ip = at t ip"
      using bread_index [OF t(3) _ spare_room [OF nt], of ?q] t(4,5) by auto
    have su: "fs_step s ip {?q} u" by (rule fs_step_trans' [OF f t(2) u(3)]) simp
    have nu: "spare e ip P u" by (rule spr [OF su]) (auto simp: p)
    obtain b v where v: "bmap_indirect 1 i k u = (Inr b, v)" "fs_step u ip {?q, I k} v" "file_inv v {i} ip" "at v ip (I k) = b" "b \<noteq> 0"
      using bmap_indirect_ok [OF u(2) nu, of ?q k i] u(4,5) t(4,5) ind(2) sp(2) p(2) by auto
    obtain w where w: "brelse i v = (Inr (), w)" "file_inv w {} ip" "fs_step v ip {} w" "at w ip = at v ip"
      using brelse_index [OF v(3), of i] by auto
    have sv: "fs_step s ip (visit bn) v" by (rule fs_step_trans' [OF f su v(2)]) (auto simp: p)
    have "fs_step s ip (visit bn) w" by (rule fs_step_trans' [OF f sv w(3)]) simp
    moreover have "bmap ip bn s = (Inr b, w)"
      using ind d(3) t(1) u(1) v(1) w(1) by (simp add: bmap_def bindK_apply)
    ultimately show ?thesis using w(2,4) v(4,5) p(1) by auto
  next
    case dbl
    let ?q = "A (NDIRECT + 1)"
    have p: "file_pos bn = E j k" "visit bn = {?q, D j, E j k}" using dbl by (simp_all add: file_pos_def visit_def)
    obtain a t where t: "bmap_inode ip (NDIRECT + 1) s = (Inr a, t)" "fs_step s ip {?q} t" "file_inv t {} ip" "at t ip ?q = a" "a \<noteq> 0"
      using bmap_inode_ok [OF f sp(1), of "NDIRECT + 1"] sp(2) p(2) by auto
    have nt: "spare e ip P t" by (rule spr [OF t(2)]) (auto simp: p)
    obtain i u where u: "bread 1 a t = (Inr i, u)" "file_inv u {i} ip" "fs_step t ip {} u" "blk u i = a" "at u ip = at t ip"
      using bread_index [OF t(3) _ spare_room [OF nt], of ?q] t(4,5) by auto
    have su: "fs_step s ip {?q} u" by (rule fs_step_trans' [OF f t(2) u(3)]) simp
    have nu: "spare e ip P u" by (rule spr [OF su]) (auto simp: p)
    obtain a2 v where v: "bmap_indirect 1 i j u = (Inr a2, v)" "fs_step u ip {?q, D j} v" "file_inv v {i} ip" "at v ip (D j) = a2" "a2 \<noteq> 0" "blk v i = blk u i"
      using bmap_indirect_ok [OF u(2) nu, of ?q j i] u(4,5) t(4,5) dbl(3) sp(2) p(2) by auto
    have sv: "fs_step s ip {?q, D j} v" by (rule fs_step_trans' [OF f su v(2)]) simp
    have nv: "spare e ip P v" by (rule spr [OF sv]) (auto simp: p)
    have av: "at v ip ?q = a" using fs_stepD(7) [OF v(2), of ?q] u(5) t(4,5) by simp
    have "a \<noteq> a2" using tree_okD(4) [OF file_invD(5) [OF v(3)], of ?q "D j"] av v(4,5) t(5) dbl(3) by (auto simp: at_def)
    then obtain i2 w where w: "bread 1 a2 v = (Inr i2, w)" "i2 \<noteq> i" "file_inv w {i2, i} ip" "fs_step v ip {} w" "blk w i2 = a2" "at w ip = at v ip"
      using bread_index [OF v(3) _ spare_room [OF nv], of "D j"] v(4,5,6) u(4) dbl(3) by auto
    have sw: "fs_step s ip {?q, D j} w" by (rule fs_step_trans' [OF f sv w(4)]) simp
    have nw: "spare e ip P w" by (rule spr [OF sw]) (auto simp: p)
    obtain b x where x: "bmap_indirect 1 i2 k w = (Inr b, x)" "fs_step w ip {D j, E j k} x" "file_inv x {i2, i} ip" "at x ip (E j k) = b" "b \<noteq> 0"
      using bmap_indirect_ok [OF w(3) nw, of "D j" k i2] w(5,6) v(4,5) dbl(3,4) sp(2) p(2) by auto
    obtain y where y: "brelse i2 x = (Inr (), y)" "file_inv y {i} ip" "fs_step x ip {} y" "at y ip = at x ip"
      using brelse_index [OF x(3), of i2] w(2) by auto
    obtain z where z: "brelse i y = (Inr (), z)" "file_inv z {} ip" "fs_step y ip {} z" "at z ip = at y ip"
      using brelse_index [OF y(2), of i] by auto
    have sx: "fs_step s ip (visit bn) x" by (rule fs_step_trans' [OF f sw x(2)]) (auto simp: p)
    have sy: "fs_step s ip (visit bn) y" by (rule fs_step_trans' [OF f sx y(3)]) simp
    have "fs_step s ip (visit bn) z" by (rule fs_step_trans' [OF f sy z(3)]) simp
    moreover have "bmap ip bn s = (Inr b, z)"
      using dbl d(3) t(1) u(1) v(1) w(1) x(1) y(1) z(1) by (simp add: bmap_def bindK_apply)
    ultimately show ?thesis using z(2,4) y(4) x(4,5) p(1) by auto
  qed
qed

end
