(* ===== verification/Fs_Read.thy ===== *)
theory Fs_Read
  imports Fs_Bmap
begin

text \<open>
  Reading files: \<open>readi\<close> returns the bytes of the file and changes nothing but the cache.
\<close>

text \<open>A file whose blocks up to its size exist. Nothing is in use and the cache has three buffers to spare.\<close>

definition readable :: "'z kfs_scheme \<Rightarrow> nat \<Rightarrow> bool" where
  "readable s ip \<longleftrightarrow> tx s {} \<and> nat (lh_n s) + 2 < NBUF \<and> sb_size (fsb s) \<le> disksize s \<and> i_dev (inodes s ip) = 1 \<and>
     tree_ok (view s) (fsb s) (inodes s ip) \<and> unat (i_size (inodes s ip)) \<le> MAXFILE * BSIZE \<and>
     (\<forall>bn. bn * BSIZE < unat (i_size (inodes s ip)) \<longrightarrow> at s ip (file_pos bn) \<noteq> 0)"

lemma readableD:
  assumes "readable s ip"
  shows "tx s {}" "nat (lh_n s) + 2 < NBUF" "sb_size (fsb s) \<le> disksize s" "i_dev (inodes s ip) = 1"
    "tree_ok (view s) (fsb s) (inodes s ip)" "unat (i_size (inodes s ip)) \<le> MAXFILE * BSIZE"
    "bn * BSIZE < unat (i_size (inodes s ip)) \<Longrightarrow> at s ip (file_pos bn) \<noteq> 0"
  using assms unfolding readable_def by blast+

text \<open>An operation that only moves buffers.\<close>

definition looks :: "('z kfs_scheme, 'a) K \<Rightarrow> 'z kfs_scheme \<Rightarrow> 'a \<Rightarrow> 'z kfs_scheme \<Rightarrow> bool" where
  "looks m s r t \<longleftrightarrow> m s = (Inr r, t) \<and> tx t {} \<and> view t = view s \<and> lh_set t = lh_set s \<and> tx_same s t"

lemma looksD:
  assumes "looks m s r t"
  shows "m s = (Inr r, t)" "tx t {}" "view t = view s" "lh_set t = lh_set s" "tx_same s t" "inodes t = inodes s" "fsb t = fsb s"
    "disksize t = disksize s"
  using assms tx_same_fs [of s t] tx_sameD(1) [of s t] unfolding looks_def by blast+

lemma same_lh_n: "tx s H \<Longrightarrow> tx t H' \<Longrightarrow> lh_set t = lh_set s \<Longrightarrow> lh_n t = lh_n s"
  using card_lh_set [of s H] card_lh_set [of t H'] txD(5) [of s H] txD(5) [of t H'] by simp

lemma looks_readable: "looks m s r t \<Longrightarrow> readable s ip \<Longrightarrow> readable t ip"
  using looksD [of m s r t] same_lh_n [of s "{}" t "{}"] unfolding readable_def at_def by simp

lemma parents_exist:
  assumes "at s ip p \<noteq> 0"
  shows "p = I k \<Longrightarrow> at s ip (A NDIRECT) \<noteq> 0" "p = D k \<Longrightarrow> at s ip (A (NDIRECT + 1)) \<noteq> 0"
    "p = E j k \<Longrightarrow> at s ip (D j) \<noteq> 0 \<and> at s ip (A (NDIRECT + 1)) \<noteq> 0"
  using assms by (auto simp: at_def ent_def split: if_splits)

lemma looks_bmap:
  assumes r: "readable s ip" and bn: "bn < MAXFILE" and p: "at s ip (file_pos bn) \<noteq> 0"
  shows "\<exists>t. looks (bmap ip bn) s (at s ip (file_pos bn)) t"
proof -
  note d = readableD [OF r]
  have sz: "at s ip q < disksize s" if "valid q" "at s ip q \<noteq> 0" for q
    using tree_okD(1) [OF d(5) that(1)] that(2) d(3) by (simp add: at_def)
  have rd: "\<exists>i t. runs (bread 1 b) u H i t (insert i H) (view u) (lh_set u) \<and> i \<notin> H \<and> blk t i = b"
    if "tx u H" "lh_set u = lh_set s" "disksize u = disksize s" "b < disksize s" "\<forall>i\<in>H. blk u i \<noteq> b" "card H \<le> 2" for u H b
    using that d(2) same_lh_n [OF d(1) that(1,2)] by (intro runs_bread) auto
  show ?thesis
  proof (cases "file_pos bn")
    case (A k)
    then have "bn < NDIRECT" "k = bn" by (auto simp: file_pos_def split: if_splits)
    then show ?thesis using p d(1) A by (intro exI [of _ s]) (simp add: looks_def bmap_def bmap_inode_def at_def bindK_apply)
  next
    case (I k)
    let ?q = "A NDIRECT" and ?a = "at s ip (A NDIRECT)"
    have k: "\<not> bn < NDIRECT" "bn - NDIRECT < NINDIRECT" "k = bn - NDIRECT" using I by (auto simp: file_pos_def split: if_splits)
    have q: "?a \<noteq> 0" using parents_exist(1) [OF p] I by blast
    obtain i t where t: "runs (bread 1 ?a) s {} i t {i} (view s) (lh_set s)" "blk t i = ?a"
      using rd [OF d(1)] sz [of ?q] q by force
    note dt = runsD [OF t(1)]
    have dat: "bdata t i = view s ?a" using tx_data [OF dt(2)] t(2) dt(3) by simp
    have e: "unat (get32 (view s ?a) (4 * k)) = at s ip (I k)" using q by (simp add: at_def ent_def)
    obtain u where u: "runs (brelse i) t {i} () u {} (view s) (lh_set s)" using runs_brelse [OF dt(2), of i] dt(3,4) by auto
    note du = runsD [OF u]
    have "bmap ip bn s = (Inr (at s ip (I k)), u)"
      using k d(4) dt(1) du(1) dat e q p I by (simp add: bmap_def bmap_inode_def bmap_indirect_def at_def bindK_apply)
    then show ?thesis using I du tx_same_trans [OF dt(5) du(5)] by (intro exI [of _ u]) (simp add: looks_def)
  next
    case (D j)
    then show ?thesis by (simp add: file_pos_def split: if_splits)
  next
    case (E j k)
    let ?q = "A (NDIRECT + 1)" and ?a = "at s ip (A (NDIRECT + 1))" and ?b = "at s ip (D j)"
    have k: "\<not> bn < NDIRECT" "\<not> bn - NDIRECT < NINDIRECT" "j = (bn - NDIRECT - NINDIRECT) div NINDIRECT"
      "k = (bn - NDIRECT - NINDIRECT) mod NINDIRECT" using E by (auto simp: file_pos_def split: if_splits)
    have db: "bn - NDIRECT - NINDIRECT < NDBINDIRECT" using bn k by simp
    have v: "valid (D j)" "valid ?q" using E file_pos_valid [OF bn] by auto
    have q: "?a \<noteq> 0" "?b \<noteq> 0" using parents_exist(3) [OF p] E by blast+
    obtain i t where t: "runs (bread 1 ?a) s {} i t {i} (view s) (lh_set s)" "blk t i = ?a"
      using rd [OF d(1)] sz [OF v(2) q(1)] by force
    note dt = runsD [OF t(1)]
    have dat: "bdata t i = view s ?a" using tx_data [OF dt(2)] t(2) dt(3) by simp
    have "?a \<noteq> ?b" using tree_okD(4) [OF d(5) v(2), of "D j"] v(1) q by (auto simp: at_def)
    then obtain i2 u where u: "runs (bread 1 ?b) t {i} i2 u {i2, i} (view s) (lh_set s)" "i2 \<noteq> i" "blk u i2 = ?b"
      using rd [OF dt(2,4)] tx_sameD(1) [OF dt(5)] sz [OF v(1) q(2)] t(2) dt(3,4) by force
    note du = runsD [OF u(1)]
    have dat2: "bdata u i2 = view s ?b" using tx_data [OF du(2)] u(3) du(3) by simp
    have e: "unat (get32 (view s ?a) (4 * j)) = ?b" "unat (get32 (view s ?b) (4 * k)) = at s ip (E j k)"
      using q by (simp_all add: at_def ent_def)
    obtain w where w: "runs (brelse i2) u {i2, i} () w {i} (view s) (lh_set s)"
      using runs_brelse [OF du(2), of i2] du(3,4) u(2) by auto
    note dw = runsD [OF w]
    obtain x where x: "runs (brelse i) w {i} () x {} (view s) (lh_set s)" using runs_brelse [OF dw(2), of i] dw(3,4) by auto
    note dx = runsD [OF x]
    have "bmap ip bn s = (Inr (at s ip (E j k)), x)"
      using k db d(4) dt(1) du(1) dw(1) dx(1) dat dat2 e q p E by (simp add: bmap_def bmap_inode_def bmap_indirect_def at_def bindK_apply)
    then show ?thesis using E dx tx_same_trans [OF tx_same_trans [OF dt(5) du(5)] tx_same_trans [OF dw(5) dx(5)]]
      by (intro exI [of _ x]) (simp add: looks_def)
  qed
qed

lemma looks_block:
  assumes r: "readable s ip" and b: "b < disksize s"
  shows "\<exists>i t u. bread 1 b s = (Inr i, t) \<and> bdata t i = view s b \<and> inodes t = inodes s \<and> looks (\<lambda>_. brelse i t) s () u"
proof -
  note d = readableD [OF r]
  obtain i t where t: "runs (bread 1 b) s {} i t {i} (view s) (lh_set s)" "blk t i = b"
    using runs_bread [OF d(1) b] d(2) by auto
  note dt = runsD [OF t(1)]
  obtain u where u: "runs (brelse i) t {i} () u {} (view s) (lh_set s)" using runs_brelse [OF dt(2), of i] dt(3,4) by auto
  note du = runsD [OF u]
  show ?thesis using dt(1) tx_data [OF dt(2), of i] t(2) dt(3) du tx_same_trans [OF dt(5) du(5)] tx_same_fs [OF dt(5)]
    by (intro exI [of _ i] exI [of _ t] exI [of _ u]) (simp add: looks_def)
qed

text \<open>The part of a range that lies in one block.\<close>

lemma block_part:
  assumes "i < min n (BSIZE - off mod BSIZE)"
  shows "(off + i) div BSIZE = off div BSIZE" "(off + i) mod BSIZE = off mod BSIZE + i"
proof -
  have "off mod BSIZE + i < BSIZE" using assms unfolding min_less_iff_conj less_diff_conv by (simp add: add.commute)
  moreover have "off + i = off div BSIZE * BSIZE + (off mod BSIZE + i)" by simp
  ultimately show "(off + i) div BSIZE = off div BSIZE" "(off + i) mod BSIZE = off mod BSIZE + i"
    by (metis div_less div_mult_self3 add_0_right BSIZE_def zero_neq_numeral mod_mult_self3 mod_less)+
qed

lemma map_upt_shift: "map f [a..<a + m] = map (\<lambda>j. f (a + j)) [0..<m]"
  by (rule nth_equalityI) simp_all

lemma sint_small: "unat (w :: u32) < 2 ^ 31 \<Longrightarrow> sint w = int (unat w)"
proof -
  assume "unat w < 2 ^ 31"
  then have "uint w < 2 ^ 31" by (metis of_nat_less_iff of_nat_numeral of_nat_power uint_nat)
  then have "signed_take_bit 31 (uint w) = uint w" using uint_ge_0 [of w] by (intro signed_take_bit_int_eq_self) linarith+
  then show ?thesis by (simp add: sint_uint)
qed

lemma looks_readi_loop:
  "readable s ip \<Longrightarrow> off + n \<le> unat (i_size (inodes s ip)) \<Longrightarrow>
   \<exists>t. looks (readi_loop ip off n) s (map (file_byte (view s) (inodes s ip)) [off..<off + n]) t"
proof (induction n arbitrary: off s rule: less_induct)
  case (less n)
  show ?case
  proof (cases "n = 0")
    case True
    then show ?thesis using readableD(1) [OF less.prems(1)] by (intro exI [of _ s]) (simp add: looks_def readi_loop.simps)
  next
    case False
    note d = readableD [OF less.prems(1)]
    let ?m = "min n (BSIZE - off mod BSIZE)" and ?bn = "off div BSIZE" and ?a = "at s ip (file_pos (off div BSIZE))"
    have m: "0 < ?m" "?m \<le> n" using False by simp_all
    have bs: "?bn * BSIZE \<le> off" by (rule div_times_less_eq_dividend)
    then have p: "?a \<noteq> 0" using d(7) [of ?bn] less.prems(2) False by linarith
    have bn: "?bn < MAXFILE" using d(6) less.prems(2) False by (intro less_mult_imp_div_less) linarith
    obtain t where t: "looks (bmap ip ?bn) s ?a t" using looks_bmap [OF less.prems(1) bn p] by blast
    note dt = looksD [OF t] and rt = looks_readable [OF t less.prems(1)]
    have "?a < disksize t" using tree_okD(1) [OF d(5)] file_pos_valid [OF bn] p d(3) dt(8) by (fastforce simp: at_def)
    then obtain i u w where u: "bread 1 ?a t = (Inr i, u)" "bdata u i = view s ?a" "inodes u = inodes s" "looks (\<lambda>_. brelse i u) t () w"
      using looks_block [OF rt] dt(3,6) by metis
    note dw = looksD [OF u(4)] and rw = looks_readable [OF u(4) rt]
    obtain x where x: "looks (readi_loop ip (off + ?m) (n - ?m)) w (map (file_byte (view w) (inodes w ip)) [off + ?m..<off + ?m + (n - ?m)]) x"
      using less.IH [OF _ rw, of "n - ?m" "off + ?m"] less.prems(2) m dw(6) dt(6) by auto
    note dx = looksD [OF x]
    let ?f = "file_byte (view s) (inodes s ip)"
    have part: "map (\<lambda>j. view s ?a (off mod BSIZE + j)) [0..<?m] = map ?f [off..<off + ?m]"
    proof -
      have "map ?f [off..<off + ?m] = map (\<lambda>j. ?f (off + j)) [0..<?m]" by (rule map_upt_shift)
      also have "\<dots> = map (\<lambda>j. view s ?a (off mod BSIZE + j)) [0..<?m]"
        using p block_part [of _ n off] by (intro map_cong) (auto simp: file_byte_def Let_def at_def)
      finally show ?thesis by simp
    qed
    have "[off..<off + n] = [off..<off + ?m] @ [off + ?m..<off + ?m + (n - ?m)]"
      using m(2) upt_add_eq_append [of off "off + ?m" "n - ?m"] by simp
    then have res: "map ?f [off..<off + n] = map (\<lambda>j. view s ?a (off mod BSIZE + j)) [0..<?m]
        @ map ?f [off + ?m..<off + ?m + (n - ?m)]" using part by simp
    have "readi_loop ip off n s = (Inr (map ?f [off..<off + n]), x)"
      unfolding res using False dt(1) u(1-3) d(4) dt(6) dw(1,3,6) dx(1) by (subst readi_loop.simps) (simp add: Let_def bindK_apply dt(3))
    then show ?thesis
      using dx(2-5) dw(3-5) dt(3-5) tx_same_trans [OF tx_same_trans [OF dt(5) dw(5)] dx(5)] by (intro exI [of _ x]) (simp add: looks_def)
  qed
qed

text \<open>
  \<open>readi\<close> on a file returns the bytes from \<open>off\<close> on, as many as asked for and at most up to the end of the
  file; a start behind the end or a range that wraps around is refused. Nothing changes but the cache.
\<close>

theorem readi_correct:
  assumes "readable s ip" "i_type (inodes s ip) \<noteq> T_DEV"
  shows "if off > i_size (inodes s ip) \<or> off + n < off then readi devs ip off n s = (Inr (- 1, []), s)
    else let k = min (unat n) (unat (i_size (inodes s ip)) - unat off) in
      \<exists>t. readi devs ip off n s = (Inr (int k, map (file_byte (view s) (inodes s ip)) [unat off..<unat off + k]), t) \<and>
        view t = view s \<and> readable t ip \<and> tx_same s t"
proof (cases "off > i_size (inodes s ip) \<or> off + n < off")
  case True
  then show ?thesis using assms(2) by (simp add: readi_def bindK_apply)
next
  case False
  let ?sz = "i_size (inodes s ip)" and ?k = "min (unat n) (unat (i_size (inodes s ip)) - unat off)"
  let ?n = "if off + n > ?sz then ?sz - off else n"
  have on: "unat (off + n) = unat off + unat n" using False by (simp add: unat_plus_simple [symmetric] not_less)
  have k: "unat ?n = ?k" using False on by (auto simp: word_less_nat_alt unat_sub word_le_nat_alt)
  obtain t where t: "looks (readi_loop ip (unat off) ?k) s (map (file_byte (view s) (inodes s ip)) [unat off..<unat off + ?k]) t"
  proof -
    have "unat off \<le> unat ?sz" using False by (simp add: word_le_nat_alt not_less)
    then have "unat off + ?k \<le> unat ?sz" by linarith
    then show thesis using looks_readi_loop [OF assms(1)] that by blast
  qed
  note dt = looksD [OF t]
  have "?k \<le> MAXFILE * BSIZE" using readableD(6) [OF assms(1)] by simp
  then have "sint ?n = int ?k" using sint_small [of ?n] k by simp
  then show ?thesis using False assms(2) dt looks_readable [OF t assms(1)] k by (simp add: readi_def bindK_apply Let_def)
qed

end
