(* ===== verification/Spec2Isabelle.thy ===== *)
theory Spec2Isabelle
  imports Kalloc Byte_Queue Locks Pipe Console Vm_Alloc Syscall Log_Crash Fs_Read
begin

text \<open>
  A verification of the xv6 kernel in \<^verbatim>\<open>src/xv6-public\<close>: the teaching kernel with a combined
  multi-level feedback queue (MLFQ) and stride scheduler, threads that share an address space, and
  inodes with double indirect blocks.

  \<^bold>\<open>How code is modelled.\<close> Code is a function of the monad \<open>K\<close> of \<^verbatim>\<open>Xv6_Prelude\<close>: it takes a state and
  returns a value or a reason to stop, and the new state. The reasons are \<^const>\<open>Panic\<close> with the
  message of the source, \<^const>\<open>NullPtr\<close>, \<^const>\<open>OutOfBounds\<close>, \<^const>\<open>DivZero\<close>, \<^const>\<open>Spin\<close> (a loop or a
  lock that never lets go) and \<^const>\<open>Swtch\<close> (the context switch inside \<open>sched\<close>: the process waits).
  \<open>unsigned int\<close> is \<open>u32\<close> where it can wrap around; loops over arrays are \<open>forK\<close> over the indices, other
  loops are recursive functions with a termination proof. The state grows from component to component
  as a record that extends the one below: \<open>ksync\<close> (processors, locks, process table), \<open>kbio\<close> (disk and
  buffers), \<open>klog\<close>, \<open>kfs\<close> (inodes), \<open>kfile\<close> (open files, pipes, memory), \<open>kernel\<close> (page directories and
  the process counters). Pointers into fixed arrays are indices, null is \<open>None\<close>.

  \<^bold>\<open>The parts.\<close>
  \<^item> \<^verbatim>\<open>Proc_Table\<close>: the process table and \<open>struct proc\<close> (\<^verbatim>\<open>proc.h\<close>), time quanta, priority boost, wakeup.
  \<^item> \<^verbatim>\<open>Stride\<close> models the stride queue of \<^verbatim>\<open>proc.c\<close>: \<open>stride_queue_push\<close>, \<open>stride_queue_delete\<close>,
    the heap operations, \<open>find_idx_of_stride_to_run\<close>, \<open>select_stride_or_MLFQ\<close> and the functions that set
    CPU shares. \<^verbatim>\<open>Stride_Heap\<close>, \<^verbatim>\<open>Stride_Find\<close>, \<^verbatim>\<open>Stride_Delete\<close> and \<^verbatim>\<open>Stride_Share\<close> show that the queue
    stays a heap, that CPU time is proportional to the shares, that the accounting of the shares is
    kept, and where deletion goes wrong.
  \<^item> \<^verbatim>\<open>Scheduler\<close>: the loop of \<open>scheduler\<close> between two context switches, and the tick accounting of
    \<open>trap\<close>. Every round that finds a \<open>RUNNABLE\<close> process switches to one; queue levels and quanta are kept.
  \<^item> \<^verbatim>\<open>Memory\<close>: \<^verbatim>\<open>string.c\<close> and the memory routines of \<^verbatim>\<open>ulib.c\<close> on byte memory.
  \<^item> \<^verbatim>\<open>Kalloc\<close>: the free list of \<^verbatim>\<open>kalloc.c\<close>, threaded through the free pages themselves; allocation and
    freeing refine a list of distinct pages.
  \<^item> \<^verbatim>\<open>Vm\<close>: \<^verbatim>\<open>vm.c\<close>, page tables as words in the same byte memory. \<^verbatim>\<open>Vm_Inv\<close> states that page directories,
    page tables, frames and free pages are pairwise disjoint; \<^verbatim>\<open>Vm_Walk\<close>, \<^verbatim>\<open>Vm_Free\<close> and \<^verbatim>\<open>Vm_Alloc\<close> show
    that \<open>walkpgdir\<close>, \<open>mappages\<close>, \<open>allocuvm\<close>, \<open>deallocuvm\<close> and \<open>freevm\<close> keep this.
  \<^item> \<^verbatim>\<open>Locks\<close>: \<^verbatim>\<open>spinlock.c\<close>, \<^verbatim>\<open>sleeplock.c\<close>, and \<open>sched\<close>, \<open>yield\<close>, \<open>sleep\<close>, \<open>wakeup\<close>, \<open>kill\<close> of
    \<^verbatim>\<open>proc.c\<close>; mutual exclusion under all interleavings, the bracket of \<open>acquire\<close> and \<open>release\<close>, sleeping.
    \<^verbatim>\<open>Calm\<close> evaluates code with locks on a processor that competes for none.
  \<^item> \<^verbatim>\<open>Byte_Queue\<close>, \<^verbatim>\<open>Pipe\<close>, \<^verbatim>\<open>Console\<close>: an interface for byte queues, and the two ring buffers of
    \<^verbatim>\<open>pipe.c\<close> and \<^verbatim>\<open>console.c\<close> that provide it; the bytes of a pipe arrive in order and once, no wakeup is
    lost, and the line discipline delivers the edited lines.
  \<^item> \<^verbatim>\<open>Bio\<close>: \<^verbatim>\<open>bio.c\<close> on the in-memory disk of \<^verbatim>\<open>memide.c\<close>. \<^verbatim>\<open>Bio_List\<close> shows that the doubly linked
    list represents a sequence, \<^verbatim>\<open>Bio_Cache\<close> and \<^verbatim>\<open>Bio_Ops\<close> that the cache refines a block store
    (\<open>view\<close>), \<^verbatim>\<open>Bio_Copy\<close> evaluates the read and write patterns of the log.
  \<^item> \<^verbatim>\<open>Log\<close>: \<^verbatim>\<open>log.c\<close>. \<^verbatim>\<open>Log_Writes\<close> computes the exact sequence of disk writes of a commit and of a
    recovery, and \<^verbatim>\<open>Log_Crash\<close> shows that a transaction is atomic under crashes at any write, also
    during recovery. The state carries the past contents of the disk (\<open>disk_past\<close>) for this purpose only.
  \<^item> \<^verbatim>\<open>Fs\<close>, \<^verbatim>\<open>File\<close>: all of \<^verbatim>\<open>fs.c\<close> and \<^verbatim>\<open>file.c\<close>, on the buffer cache and the log.
  \<^item> \<^verbatim>\<open>Proc\<close>: the life of processes and threads in \<^verbatim>\<open>proc.c\<close> (\<open>allocproc\<close>, \<open>userinit\<close>, \<open>fork\<close>, \<open>exit\<close>,
    \<open>wait\<close>, \<open>thread_create\<close>, \<open>thread_exit\<close>, \<open>thread_join\<close>, the reference counters of page directories).

  \<^bold>\<open>Bounds.\<close> Following the list of buffers stops after \<open>NBUF\<close> steps, the number of buffers; by
  \<open>lru\<close> the list has exactly that many. Other loops are bounded by the arrays they run over or have
  a decreasing measure; address loops that would wrap around stop with \<^const>\<open>Spin\<close>.

  \<^bold>\<open>Not modelled.\<close> Device registers, interrupt controllers, boot code and the context switch itself;
  the IDE driver (the in-memory disk takes its place); the system call layer and \<open>exec\<close>; user programs
  other than the routines of \<^verbatim>\<open>ulib.c\<close>. Linker symbols (\<open>end\<close>, \<open>data\<close>) and the initial process image are
  parameters.
\<close>

end
